(* ===== verification/Prelude.thy ===== *)
theory Prelude
  imports Main "HOL-Library.AList" "HOL-Library.Sublist"
begin

text \<open>
  The prelude of the development: what the component theories share.

  \<^item> Rust results and saturating integers: \<^verbatim>\<open>Result<T, E>\<close> is the sum type \<open>'e + 'a\<close> with
    \<open>Inl\<close> for \<^verbatim>\<open>Err\<close>; \<^verbatim>\<open>usize\<close> lengths and counts are \<open>nat\<close>; fixed-width counters the
    code saturates are \<open>nat\<close> with the saturation written out (\<open>sat_add_u32\<close>,
    \<open>sat_mul_u32\<close>).
  \<^item> Rust strings: a \<^verbatim>\<open>String\<close> or \<^verbatim>\<open>&str\<close> is its UTF-8 encoding, a list of bytes. An
    Isabelle \<open>char\<close> is a byte, so the type is \<open>string\<close>; \<open>length\<close> is \<^verbatim>\<open>str::len\<close>.
    \<open>is_char_boundary\<close>, \<open>floor_boundary\<close> (the cut-back loop the code writes in three
    places) and \<open>utf8_valid\<close> (the well-formedness table of the encoding) come with the
    lemma that a cut on a boundary of a valid string is a valid string.
  \<^item> Decimal rendering: \<open>show_nat\<close> is \<^verbatim>\<open>format!("{n}")\<close> on an unsigned integer.
  \<^item> Hash maps: an association list. Its order stands for the iteration order a
    \<^verbatim>\<open>HashMap\<close> leaves unspecified; lookups go through \<open>map_of\<close>.
  \<^item> State machines: \<open>reachable\<close> states of a step relation and the locale
    \<open>invariant_system\<close> that every stateful component interprets.
  \<^item> Most-recent buffers: the locale \<open>recent_buffer\<close>, the contract shared by the task log
    ring and the re-attach buffer of a live turn.
\<close>

section \<open>Collections of simplification rules\<close>

named_theorems hm_simps \<open>lookup after an update of a hash map\<close>
named_theorems str_simps \<open>lengths and prefixes of Rust strings\<close>

section \<open>Integers that saturate\<close>

definition u32_max :: nat where
  "u32_max = 4294967295"

definition u64_max :: nat where "u64_max = 18446744073709551615"

definition sat_add_u32 :: "nat \<Rightarrow> nat \<Rightarrow> nat" where
  "sat_add_u32 a b = min (a + b) u32_max"

definition sat_mul_u32 :: "nat \<Rightarrow> nat \<Rightarrow> nat" where
  "sat_mul_u32 a b = min (a * b) u32_max"

lemma sat_add_u32_le [simp]: "sat_add_u32 a b \<le> u32_max"
  by (simp add: sat_add_u32_def)

lemma sat_add_u32_small: "a + b \<le> u32_max \<Longrightarrow> sat_add_u32 a b = a + b"
  by (simp add: sat_add_u32_def)

section \<open>Rust strings\<close>

definition byte_of :: "char \<Rightarrow> nat" where
  "byte_of c = of_char c"

lemma byte_of_bound: "byte_of c < 256"
  by (simp add: byte_of_def)

definition is_cont_byte :: "char \<Rightarrow> bool" where
  "is_cont_byte c \<longleftrightarrow> 128 \<le> byte_of c \<and> byte_of c < 192"

definition is_char_boundary :: "string \<Rightarrow> nat \<Rightarrow> bool" where
  "is_char_boundary s i \<longleftrightarrow>
     i = 0 \<or> i = length s \<or> (i < length s \<and> \<not> is_cont_byte (s ! i))"

lemma is_char_boundary_0 [simp]: "is_char_boundary s 0"
  by (simp add: is_char_boundary_def)

lemma is_char_boundary_length [simp]: "is_char_boundary s (length s)"
  by (simp add: is_char_boundary_def)

text \<open>
  The loop \<^verbatim>\<open>while cut > 0 && !s.is_char_boundary(cut) { cut -= 1; }\<close>.
\<close>

fun floor_boundary :: "string \<Rightarrow> nat \<Rightarrow> nat" where
  "floor_boundary s 0 = 0"
| "floor_boundary s (Suc n) =
     (if is_char_boundary s (Suc n) then Suc n else floor_boundary s n)"

lemma floor_boundary_le: "floor_boundary s n \<le> n"
  by (induction n) auto

lemma floor_boundary_is_boundary [simp]: "is_char_boundary s (floor_boundary s n)"
  by (induction n) auto

lemma floor_boundary_maximal:
  "floor_boundary s n < k \<Longrightarrow> k \<le> n \<Longrightarrow> \<not> is_char_boundary s k"
  by (induction n) (auto simp: le_Suc_eq split: if_splits)

lemma floor_boundary_eq: "is_char_boundary s n \<Longrightarrow> floor_boundary s n = n"
  by (cases n) auto

lemma floor_boundary_mono: "m \<le> n \<Longrightarrow> floor_boundary s m \<le> floor_boundary s n"
proof (induction n)
  case 0
  then show ?case by simp
next
  case (Suc n)
  then show ?case
    using floor_boundary_le[of s m] by (cases "m = Suc n") auto
qed

text \<open>
  Well-formed UTF-8, the table of the encoding: what Rust guarantees of every \<^verbatim>\<open>str\<close>.
\<close>

definition byte_in :: "nat \<Rightarrow> nat \<Rightarrow> char \<Rightarrow> bool" where
  "byte_in lo hi c \<longleftrightarrow> lo \<le> byte_of c \<and> byte_of c \<le> hi"

fun utf8_first :: "string \<Rightarrow> nat option" where
  "utf8_first [] = None"
| "utf8_first (a # s) =
     (if byte_of a < 128 then Some 1
      else if byte_in 194 223 a then
        (case s of b # _ \<Rightarrow> if is_cont_byte b then Some 2 else None | _ \<Rightarrow> None)
      else if byte_in 224 239 a then
        (case s of b # c # _ \<Rightarrow>
           if is_cont_byte b \<and> is_cont_byte c \<and>
              (byte_of a \<noteq> 224 \<or> 160 \<le> byte_of b) \<and> (byte_of a \<noteq> 237 \<or> byte_of b < 160)
           then Some 3 else None
         | _ \<Rightarrow> None)
      else if byte_in 240 244 a then
        (case s of b # c # d # _ \<Rightarrow>
           if is_cont_byte b \<and> is_cont_byte c \<and> is_cont_byte d \<and>
              (byte_of a \<noteq> 240 \<or> 144 \<le> byte_of b) \<and> (byte_of a \<noteq> 244 \<or> byte_of b < 144)
           then Some 4 else None
         | _ \<Rightarrow> None)
      else None)"

lemma utf8_first_bounds: "utf8_first s = Some n \<Longrightarrow> 0 < n \<and> n \<le> length s"
  by (induction s rule: utf8_first.induct) (auto split: if_splits list.splits)

lemma utf8_first_cont:
  assumes "utf8_first s = Some n" "0 < k" "k < n"
  shows "is_cont_byte (s ! k)"
proof -
  have "k = 1 \<or> k = 2 \<or> k = 3"
    using assms by (cases s) (auto split: if_splits list.splits)
  then show ?thesis
    using assms by (cases s) (auto split: if_splits list.splits)
qed

lemma utf8_first_take: "utf8_first s = Some n \<Longrightarrow> n \<le> m \<Longrightarrow> utf8_first (take m s) = Some n"
  by (cases s; cases m; cases "m - 1"; cases "m - 2"; cases "m - 3")
    (auto split: if_splits list.splits)

function utf8_valid :: "string \<Rightarrow> bool" where
  "utf8_valid s =
     (if s = [] then True
      else case utf8_first s of None \<Rightarrow> False | Some n \<Rightarrow> utf8_valid (drop n s))"
  by pat_completeness auto
termination
  by (relation "measure length") (auto dest: utf8_first_bounds)

declare utf8_valid.simps [simp del]

lemma utf8_valid_Nil [simp]: "utf8_valid []"
  by (simp add: utf8_valid.simps)

lemma is_char_boundary_drop:
  "n \<le> i \<Longrightarrow> i \<le> length s \<Longrightarrow> is_char_boundary s i \<Longrightarrow> is_char_boundary (drop n s) (i - n)"
  by (auto simp: is_char_boundary_def)

lemma is_char_boundary_le: "is_char_boundary s i \<Longrightarrow> i \<le> length s"
  by (auto simp: is_char_boundary_def)

text \<open>A cut of a well-formed string on a character boundary is well-formed.\<close>

lemma utf8_valid_take:
  "utf8_valid s \<Longrightarrow> is_char_boundary s i \<Longrightarrow> utf8_valid (take i s)"
proof (induction s arbitrary: i rule: utf8_valid.induct)
  case (1 s)
  show ?case
  proof (cases "s = [] \<or> i = 0")
    case True
    then show ?thesis by auto
  next
    case False
    then obtain n where n: "utf8_first s = Some n" and v: "utf8_valid (drop n s)"
      using "1.prems"(1) utf8_valid.simps[of s] by (auto split: option.splits)
    have bounds: "0 < n" "n \<le> length s" using utf8_first_bounds[OF n] by auto
    have "\<not> is_cont_byte (s ! i) \<or> i = length s"
      using "1.prems"(2) False by (auto simp: is_char_boundary_def)
    then have ni: "n \<le> i"
      using utf8_first_cont[OF n] False bounds by (cases "i < n") auto
    then have "utf8_valid (take (i - n) (drop n s))"
      using "1.IH"[of n "i - n"] False n v "1.prems"(2)
      by (simp add: is_char_boundary_drop is_char_boundary_le)
    then have "utf8_valid (drop n (take i s))" by (simp add: drop_take)
    moreover have "utf8_first (take i s) = Some n" using utf8_first_take[OF n ni] .
    ultimately show ?thesis by (simp add: utf8_valid.simps[of "take i s"])
  qed
qed

lemma utf8_valid_append: "utf8_valid s \<Longrightarrow> utf8_valid t \<Longrightarrow> utf8_valid (s @ t)"
proof (induction s rule: utf8_valid.induct)
  case (1 s)
  show ?case
  proof (cases "s = []")
    case True
    then show ?thesis using "1.prems" by simp
  next
    case False
    then obtain n where n: "utf8_first s = Some n" and v: "utf8_valid (drop n s)"
      using "1.prems"(1) utf8_valid.simps[of s] by (auto split: option.splits)
    have le: "n \<le> length s" using utf8_first_bounds[OF n] by simp
    have "utf8_first (s @ t) = Some n"
      using n by (cases s) (auto split: if_splits list.splits)
    moreover have "utf8_valid (drop n s @ t)"
      using "1.IH" False n v "1.prems"(2) by simp
    ultimately show ?thesis
      using False le by (simp add: utf8_valid.simps[of "s @ t"])
  qed
qed

definition is_ascii :: "string \<Rightarrow> bool" where
  "is_ascii s \<longleftrightarrow> list_all (\<lambda>c. byte_of c < 128) s"

lemma is_ascii_simps [simp]:
  "is_ascii []"
  "is_ascii (c # s) \<longleftrightarrow> byte_of c < 128 \<and> is_ascii s"
  "is_ascii (s @ t) \<longleftrightarrow> is_ascii s \<and> is_ascii t"
  by (auto simp: is_ascii_def)

lemma utf8_valid_ascii: "is_ascii s \<Longrightarrow> utf8_valid s"
  by (induction s) (auto simp: is_ascii_def utf8_valid.simps[of "_ # _"])

text \<open>
  \<^verbatim>\<open>s.chars().take(n).collect()\<close>: the first \<open>n\<close> characters. Only a string that is not
  UTF-8 reaches the \<open>None\<close> branch with bytes left, and no Rust string is.
\<close>

fun take_chars :: "nat \<Rightarrow> string \<Rightarrow> string" where
  "take_chars 0 s = []"
| "take_chars (Suc n) s =
     (case utf8_first s of None \<Rightarrow> [] | Some k \<Rightarrow> take k s @ take_chars n (drop k s))"

lemma take_chars_prefix: "prefix (take_chars n s) s"
proof (induction n arbitrary: s)
  case 0
  then show ?case by simp
next
  case (Suc n)
  show ?case
  proof (cases "utf8_first s")
    case None
    then show ?thesis by simp
  next
    case (Some k)
    have "prefix (take k s @ take_chars n (drop k s)) (take k s @ drop k s)"
      using Suc.IH[of "drop k s"] by (simp only: same_prefix_prefix)
    then show ?thesis using Some by simp
  qed
qed

lemma length_take_chars: "length (take_chars n s) \<le> 4 * n"
proof (induction n arbitrary: s)
  case (Suc n)
  show ?case
  proof (cases "utf8_first s")
    case None
    then show ?thesis by simp
  next
    case (Some k)
    then have "k \<le> 4" by (cases s) (auto split: if_splits list.splits)
    then show ?thesis using Some Suc[of "drop k s"] by simp
  qed
qed simp

section \<open>Decimal rendering\<close>

definition digit_char :: "nat \<Rightarrow> char" where
  "digit_char d = char_of (48 + d)"

fun show_nat :: "nat \<Rightarrow> string" where
  "show_nat n = (if n < 10 then [digit_char n] else show_nat (n div 10) @ [digit_char (n mod 10)])"

declare show_nat.simps [simp del]

lemma byte_of_digit_char: "d < 10 \<Longrightarrow> byte_of (digit_char d) = 48 + d"
  by (simp add: digit_char_def byte_of_def)

lemma show_nat_small: "n < 10 \<Longrightarrow> show_nat n = [digit_char n]"
  by (simp add: show_nat.simps)

lemma show_nat_step: "10 \<le> n \<Longrightarrow> show_nat n = show_nat (n div 10) @ [digit_char (n mod 10)]"
  by (subst show_nat.simps) simp

lemma show_nat_nonempty [simp]: "show_nat n \<noteq> []"
  by (subst show_nat.simps) simp

lemma show_nat_digits: "c \<in> set (show_nat n) \<Longrightarrow> 48 \<le> byte_of c \<and> byte_of c < 58"
proof (induction n rule: show_nat.induct)
  case (1 n)
  then show ?case
    by (cases "n < 10") (auto simp: show_nat_small show_nat_step byte_of_digit_char)
qed

lemma show_nat_ascii [simp]: "is_ascii (show_nat n)"
  using show_nat_digits[of _ n] by (auto simp: is_ascii_def list_all_iff dest!: show_nat_digits)

lemma length_show_nat_mono: "m \<le> n \<Longrightarrow> length (show_nat m) \<le> length (show_nat n)"
proof (induction n arbitrary: m rule: show_nat.induct)
  case (1 n)
  show ?case
  proof (cases "m < 10")
    case True
    then show ?thesis by (simp add: show_nat_small Suc_le_eq)
  next
    case False
    moreover from this have "length (show_nat (m div 10)) \<le> length (show_nat (n div 10))"
      using 1 by (simp add: div_le_mono)
    ultimately show ?thesis using "1.prems" by (simp add: show_nat_step)
  qed
qed

text \<open>Reading the digits back gives the number, so distinct numbers render differently.\<close>

fun read_digits :: "nat \<Rightarrow> string \<Rightarrow> nat" where
  "read_digits acc [] = acc"
| "read_digits acc (c # s) = read_digits (acc * 10 + (byte_of c - 48)) s"

lemma read_digits_append: "read_digits acc (s @ t) = read_digits (read_digits acc s) t"
  by (induction s arbitrary: acc) auto

lemma read_show_nat [simp]: "read_digits 0 (show_nat n) = n"
proof (induction n rule: show_nat.induct)
  case (1 n)
  then show ?case
    by (cases "n < 10")
      (auto simp: show_nat_small show_nat_step read_digits_append byte_of_digit_char)
qed

lemma show_nat_inj [simp]: "show_nat m = show_nat n \<longleftrightarrow> m = n"
  by (metis read_show_nat)

text \<open>
  Parsing an unsigned integer of at most \<open>bound\<close>, as \<^verbatim>\<open>str::parse::<u32>\<close> does: one optional
  leading \<^verbatim>\<open>+\<close>, then one or more decimal digits, refused on overflow.
\<close>

definition is_digit_byte :: "char \<Rightarrow> bool" where
  "is_digit_byte c \<longleftrightarrow> 48 \<le> byte_of c \<and> byte_of c \<le> 57"

definition parse_uint :: "nat \<Rightarrow> string \<Rightarrow> nat option" where
  "parse_uint bound s =
     (let ds = (case s of c # t \<Rightarrow> if c = CHR ''+'' then t else s | [] \<Rightarrow> [])
      in if ds \<noteq> [] \<and> list_all is_digit_byte ds \<and> read_digits 0 ds \<le> bound
         then Some (read_digits 0 ds) else None)"

lemma parse_show_nat: "n \<le> bound \<Longrightarrow> parse_uint bound (show_nat n) = Some n"
proof -
  assume n: "n \<le> bound"
  obtain c t where s: "show_nat n = c # t" by (cases "show_nat n") auto
  then have "48 \<le> byte_of c" using show_nat_digits[of c n] by simp
  then have "c \<noteq> CHR ''+''" by (auto simp: byte_of_def)
  moreover have "list_all is_digit_byte (show_nat n)"
    by (auto simp: list_all_iff is_digit_byte_def dest: show_nat_digits)
  moreover have "read_digits 0 (c # t) = n" using s read_show_nat[of n] by simp
  ultimately show ?thesis
    using n s by (simp add: parse_uint_def Let_def)
qed

section \<open>Trimming\<close>

text \<open>
  \<^verbatim>\<open>str::trim\<close> strips the characters with the Unicode property \<^verbatim>\<open>White_Space\<close>, listed here by
  their encodings: the ASCII ones, U+0085, U+00A0, U+1680, U+2000 to U+200A, U+2028, U+2029,
  U+202F, U+205F and U+3000.
\<close>

definition is_ascii_ws :: "nat \<Rightarrow> bool" where
  "is_ascii_ws b \<longleftrightarrow> (9 \<le> b \<and> b \<le> 13) \<or> b = 32"

definition is_ws2 :: "nat \<Rightarrow> nat \<Rightarrow> bool" where
  "is_ws2 a b \<longleftrightarrow> a = 194 \<and> (b = 133 \<or> b = 160)"

definition is_ws3 :: "nat \<Rightarrow> nat \<Rightarrow> nat \<Rightarrow> bool" where
  "is_ws3 a b c \<longleftrightarrow>
     (a = 225 \<and> b = 154 \<and> c = 128) \<or>
     (a = 226 \<and> b = 128 \<and> (128 \<le> c \<and> c \<le> 138 \<or> c = 168 \<or> c = 169 \<or> c = 175)) \<or>
     (a = 226 \<and> b = 129 \<and> c = 159) \<or>
     (a = 227 \<and> b = 128 \<and> c = 128)"

definition ws_len :: "string \<Rightarrow> nat" where
  "ws_len s =
     (case s of [] \<Rightarrow> 0
      | a # t \<Rightarrow>
          if is_ascii_ws (byte_of a) then 1
          else (case t of [] \<Rightarrow> 0
                | b # u \<Rightarrow>
                    if is_ws2 (byte_of a) (byte_of b) then 2
                    else (case u of [] \<Rightarrow> 0
                          | c # _ \<Rightarrow> if is_ws3 (byte_of a) (byte_of b) (byte_of c) then 3 else 0)))"

definition ws_end_len :: "string \<Rightarrow> nat" where
  "ws_end_len s =
     (case rev s of [] \<Rightarrow> 0
      | a # t \<Rightarrow>
          if is_ascii_ws (byte_of a) then 1
          else (case t of [] \<Rightarrow> 0
                | b # u \<Rightarrow>
                    if is_ws2 (byte_of b) (byte_of a) then 2
                    else (case u of [] \<Rightarrow> 0
                          | c # _ \<Rightarrow> if is_ws3 (byte_of c) (byte_of b) (byte_of a) then 3 else 0)))"

lemma ws_len_le: "ws_len s \<le> length s"
  by (auto simp: ws_len_def split: list.split)

lemma ws_end_len_le: "ws_end_len s \<le> length s"
proof -
  have "ws_end_len s \<le> length (rev s)"
    by (auto simp: ws_end_len_def simp del: length_rev split: list.split)
  then show ?thesis by simp
qed

function trim_start :: "string \<Rightarrow> string" where
  "trim_start s = (if ws_len s = 0 then s else trim_start (drop (ws_len s) s))"
  by pat_completeness auto
termination
proof (relation "measure length")
  fix s :: string
  assume "ws_len s \<noteq> 0"
  then show "(drop (ws_len s) s, s) \<in> measure length"
    using ws_len_le[of s] by auto
qed simp

function trim_end :: "string \<Rightarrow> string" where
  "trim_end s = (if ws_end_len s = 0 then s else trim_end (take (length s - ws_end_len s) s))"
  by pat_completeness auto
termination
proof (relation "measure length")
  fix s :: string
  assume "ws_end_len s \<noteq> 0"
  then show "(take (length s - ws_end_len s) s, s) \<in> measure length"
    using ws_end_len_le[of s] by auto
qed simp

declare trim_start.simps [simp del] trim_end.simps [simp del]

definition trim :: "string \<Rightarrow> string" where
  "trim s = trim_end (trim_start s)"

lemma trim_start_suffix: "suffix (trim_start s) s"
proof (induction s rule: trim_start.induct)
  case (1 s)
  show ?case
  proof (cases "ws_len s = 0")
    case False
    then have "suffix (trim_start s) (drop (ws_len s) s)"
      using 1 by (simp add: trim_start.simps[of s])
    then show ?thesis using suffix_drop suffix_order.trans by blast
  qed (simp add: trim_start.simps[of s])
qed

lemma trim_end_prefix: "prefix (trim_end s) s"
proof (induction s rule: trim_end.induct)
  case (1 s)
  show ?case
  proof (cases "ws_end_len s = 0")
    case False
    then have "prefix (trim_end s) (take (length s - ws_end_len s) s)"
      using 1 by (simp add: trim_end.simps[of s])
    then show ?thesis using take_is_prefix prefix_order.trans by blast
  qed (simp add: trim_end.simps[of s])
qed

lemma length_trim_le: "length (trim s) \<le> length s"
  unfolding trim_def
  using prefix_length_le[OF trim_end_prefix] suffix_length_le[OF trim_start_suffix] order_trans
  by blast

lemma trim_Nil [simp]: "trim [] = []"
  by (simp add: trim_def trim_start.simps[of "[]"] trim_end.simps[of "[]"] ws_len_def ws_end_len_def)

text \<open>A string that neither starts nor ends in white space is its own trim.\<close>

lemma trim_id: "ws_len s = 0 \<Longrightarrow> ws_end_len s = 0 \<Longrightarrow> trim s = s"
  by (simp add: trim_def trim_start.simps[of s] trim_end.simps[of s])

section \<open>Searching from the right\<close>

text \<open>\<^verbatim>\<open>rposition\<close>: the last index that satisfies a predicate.\<close>

fun rposition :: "('a \<Rightarrow> bool) \<Rightarrow> 'a list \<Rightarrow> nat option" where
  "rposition P [] = None"
| "rposition P (x # xs) =
     (case rposition P xs of Some i \<Rightarrow> Some (Suc i) | None \<Rightarrow> if P x then Some 0 else None)"

lemma rposition_Some:
  "rposition P xs = Some i \<Longrightarrow> i < length xs \<and> P (xs ! i) \<and> (\<forall>j. i < j \<longrightarrow> j < length xs \<longrightarrow> \<not> P (xs ! j))"
proof (induction xs arbitrary: i)
  case (Cons x xs)
  show ?case
  proof (cases "rposition P xs")
    case None
    then have "\<forall>y\<in>set xs. \<not> P y"
      by (induction xs) (auto split: option.splits if_splits)
    then show ?thesis using Cons.prems None by (auto simp: nth_Cons split: if_splits nat.splits)
  next
    case (Some k)
    then show ?thesis using Cons.prems Cons.IH[of k] by (auto simp: nth_Cons split: nat.splits)
  qed
qed simp

lemma rposition_None: "rposition P xs = None \<Longrightarrow> \<forall>x\<in>set xs. \<not> P x"
  by (induction xs) (auto split: option.splits if_splits)

section \<open>Filtered maps\<close>

lemma set_map_filter: "set (List.map_filter f xs) = {y. \<exists>x\<in>set xs. f x = Some y}"
  by (induction xs) (auto simp: map_filter_simps split: option.splits)

lemma map_filter_append: "List.map_filter f (xs @ ys) = List.map_filter f xs @ List.map_filter f ys"
  by (induction xs) (auto simp: map_filter_simps split: option.splits)

section \<open>Hash maps\<close>

type_synonym ('k, 'v) hashmap = "('k \<times> 'v) list"

abbreviation hm_get :: "('k, 'v) hashmap \<Rightarrow> 'k \<Rightarrow> 'v option" where
  "hm_get m k \<equiv> map_of m k"

abbreviation hm_insert :: "'k \<Rightarrow> 'v \<Rightarrow> ('k, 'v) hashmap \<Rightarrow> ('k, 'v) hashmap" where
  "hm_insert k v m \<equiv> AList.update k v m"

abbreviation hm_remove :: "'k \<Rightarrow> ('k, 'v) hashmap \<Rightarrow> ('k, 'v) hashmap" where
  "hm_remove k m \<equiv> AList.delete k m"

text \<open>
  \<^verbatim>\<open>if let Some(v) = m.get_mut(k) { *v = f(v) }\<close>: an update in place, absent keys ignored.
\<close>

definition hm_modify :: "'k \<Rightarrow> ('v \<Rightarrow> 'v) \<Rightarrow> ('k, 'v) hashmap \<Rightarrow> ('k, 'v) hashmap" where
  "hm_modify k f m = map (\<lambda>(k', v). (k', if k' = k then f v else v)) m"

definition hm_ok :: "('k, 'v) hashmap \<Rightarrow> bool" where
  "hm_ok m \<longleftrightarrow> distinct (map fst m)"

lemma hm_get_insert [hm_simps]: "hm_get (hm_insert k v m) k' = (if k' = k then Some v else hm_get m k')"
  by (simp add: update_conv')

lemma hm_get_remove [hm_simps]: "hm_get (hm_remove k m) k' = (if k' = k then None else hm_get m k')"
  by (simp add: delete_conv')

lemma hm_get_modify [hm_simps]:
  "hm_get (hm_modify k f m) k' = (if k' = k then map_option f (hm_get m k') else hm_get m k')"
  by (induction m) (auto simp: hm_modify_def)

lemma fst_hm_modify [simp]: "map fst (hm_modify k f m) = map fst m"
  by (auto simp: hm_modify_def)

lemma length_hm_insert_new: "hm_get m k = None \<Longrightarrow> length (hm_insert k v m) = Suc (length m)"
  by (induction m) (auto split: if_splits)

lemma hm_ok_Nil [simp]: "hm_ok []"
  by (simp add: hm_ok_def)

lemma hm_ok_insert [simp]: "hm_ok m \<Longrightarrow> hm_ok (hm_insert k v m)"
  by (simp add: hm_ok_def distinct_update)

lemma hm_ok_remove [simp]: "hm_ok m \<Longrightarrow> hm_ok (hm_remove k m)"
  by (simp add: hm_ok_def distinct_delete)

lemma hm_ok_modify [simp]: "hm_ok (hm_modify k f m) = hm_ok m"
  by (simp add: hm_ok_def)

lemma hm_ok_filter: "hm_ok m \<Longrightarrow> hm_ok (filter P m)"
  by (induction m) (auto simp: hm_ok_def)

lemma hm_get_filter:
  "hm_ok m \<Longrightarrow> hm_get (filter P m) k = (case hm_get m k of None \<Rightarrow> None
     | Some v \<Rightarrow> if P (k, v) then Some v else None)"
proof (induction m)
  case Nil
  then show ?case by simp
next
  case (Cons a m)
  then have "fst a \<notin> dom (map_of m)" by (auto simp: hm_ok_def dom_map_of_conv_image_fst)
  with Cons show ?case by (cases a) (auto simp: hm_ok_def split: option.splits)
qed

lemma hm_in_iff_get: "hm_ok m \<Longrightarrow> (k, v) \<in> set m \<longleftrightarrow> hm_get m k = Some v"
  by (simp add: hm_ok_def)

section \<open>State machines\<close>

inductive reachable :: "('s \<Rightarrow> bool) \<Rightarrow> ('s \<Rightarrow> 's \<Rightarrow> bool) \<Rightarrow> 's \<Rightarrow> bool"
  for init :: "'s \<Rightarrow> bool" and step :: "'s \<Rightarrow> 's \<Rightarrow> bool" where
  reach_init: "init s \<Longrightarrow> reachable init step s"
| reach_step: "reachable init step s \<Longrightarrow> step s t \<Longrightarrow> reachable init step t"

text \<open>
  What every stateful component promises of its invariant: the initial states have it and
  every step keeps it. Interpreted once per component; the reachable states follow.
\<close>

locale invariant_system =
  fixes init :: "'s \<Rightarrow> bool" and step :: "'s \<Rightarrow> 's \<Rightarrow> bool" and inv :: "'s \<Rightarrow> bool"
  assumes init_inv: "init s \<Longrightarrow> inv s"
    and step_inv: "inv s \<Longrightarrow> step s t \<Longrightarrow> inv t"
begin

lemma reachable_inv: "reachable init step s \<Longrightarrow> inv s"
  by (induction rule: reachable.induct) (auto intro: init_inv step_inv)

end

section \<open>Most-recent buffers\<close>

text \<open>
  A bounded buffer that keeps the newest \<open>cap\<close> elements: pushing onto a buffer within its
  bound appends and drops from the front exactly what no longer fits.
\<close>

locale recent_buffer =
  fixes cap :: nat and push :: "'a list \<Rightarrow> 'a \<Rightarrow> 'a list"
  assumes push_recent:
    "length b \<le> cap \<Longrightarrow> push b x = drop (Suc (length b) - cap) (b @ [x])"
begin

lemma length_push: "length b \<le> cap \<Longrightarrow> length (push b x) \<le> cap"
  by (simp add: push_recent)

lemma length_pushes: "length b \<le> cap \<Longrightarrow> length (foldl push b xs) \<le> cap"
  by (induction xs arbitrary: b) (auto simp: length_push)

lemma pushes_suffix:
  "length b \<le> cap \<Longrightarrow> foldl push b xs = drop (length b + length xs - cap) (b @ xs)"
proof (induction xs arbitrary: b)
  case Nil
  then show ?case by simp
next
  case (Cons x xs)
  have step: "foldl push b (x # xs) =
      drop (length (push b x) + length xs - cap) (push b x @ xs)"
    using Cons by (simp add: length_push)
  show ?case
  proof (cases "length b < cap")
    case True
    then have "push b x = b @ [x]" using Cons.prems by (simp add: push_recent)
    then show ?thesis using step by simp
  next
    case False
    then have len: "length b = cap" using Cons.prems by simp
    then have "push b x @ xs = drop 1 (b @ x # xs)" "length (push b x) = cap"
      by (cases b; simp add: push_recent)+
    then have "foldl push b (x # xs) = drop (length xs) (drop 1 (b @ x # xs))"
      using step by (simp only:) simp
    then show ?thesis using len by (simp only: drop_drop) simp
  qed
qed

lemma pushes_recent: "foldl push [] xs = drop (length xs - cap) xs"
  using pushes_suffix[of "[]" xs] by simp

lemma push_last: "0 < cap \<Longrightarrow> length b \<le> cap \<Longrightarrow> push b x \<noteq> [] \<and> last (push b x) = x"
  by (auto simp: push_recent)

end

end
