(* ===== verification/Frame_Codec.thy ===== *)
theory Frame_Codec
  imports Prelude "HOL-Library.Word"
begin

unbundle bit_operations_syntax

text \<open>
  The length-prefixed frame codec of the local transports (\<^verbatim>\<open>crates/frame-codec\<close>): a 4-byte
  little-endian length, then that many body bytes, capped at 4 MiB in both directions.

  The byte streams are tokio's. They are parameters: \<open>read_exact\<close> takes the reader and a
  count, \<open>write_all\<close> and \<open>flush\<close> the writer, and each returns the stream's next state with
  its result. \<open>reader_ok\<close> and \<open>writer_ok\<close> state what their documentation promises: a
  reader with enough pending bytes hands over exactly the bytes asked for, and a write
  that succeeds has appended exactly its bytes.
\<close>

section \<open>The codec\<close>

type_synonym u8 = "8 word"
type_synonym u32 = "32 word"

datatype io_error = InvalidData string | StreamError string

type_synonym 'r reader = "'r \<Rightarrow> nat \<Rightarrow> 'r \<times> (io_error + u8 list)"
type_synonym 'w writer = "'w \<Rightarrow> u8 list \<Rightarrow> 'w \<times> (io_error + unit)"
type_synonym 'w flusher = "'w \<Rightarrow> 'w \<times> (io_error + unit)"

definition MAX_FRAME_LEN :: u32 where
  "MAX_FRAME_LEN = 4 * 1024 * 1024"

definition to_le_bytes :: "u32 \<Rightarrow> u8 list" where
  "to_le_bytes w = [ucast w, ucast (drop_bit 8 w), ucast (drop_bit 16 w), ucast (drop_bit 24 w)]"

fun from_le_bytes :: "u8 list \<Rightarrow> u32" where
  "from_le_bytes [a, b, c, d] =
     ucast a OR push_bit 8 (ucast b) OR push_bit 16 (ucast c) OR push_bit 24 (ucast d)"
| "from_le_bytes _ = 0"

definition read_frame :: "'r reader \<Rightarrow> 'r \<Rightarrow> 'r \<times> (io_error + u8 list)" where
  "read_frame read_exact r =
     (case read_exact r 4 of
        (r1, Inl e) \<Rightarrow> (r1, Inl e)
      | (r1, Inr len_buf) \<Rightarrow>
          (let len = from_le_bytes len_buf in
           if MAX_FRAME_LEN < len
           then (r1, Inl (InvalidData (''frame length '' @ show_nat (unat len) @
                   '' exceeds cap '' @ show_nat (unat MAX_FRAME_LEN))))
           else if 0 < len
           then (case read_exact r1 (unat len) of
                   (r2, Inl e) \<Rightarrow> (r2, Inl e)
                 | (r2, Inr body) \<Rightarrow> (r2, Inr body))
           else (r1, Inr [])))"

definition exceeds_frame_cap :: "u8 list \<Rightarrow> bool" where
  "exceeds_frame_cap body \<longleftrightarrow> unat MAX_FRAME_LEN < length body"

definition write_frame ::
  "'w writer \<Rightarrow> 'w flusher \<Rightarrow> 'w \<Rightarrow> u8 list \<Rightarrow> 'w \<times> (io_error + unit)" where
  "write_frame write_all flush w body =
     (if exceeds_frame_cap body
      then (w, Inl (InvalidData (''frame body '' @ show_nat (length body) @
              '' exceeds cap '' @ show_nat (unat MAX_FRAME_LEN))))
      else (let len = (of_nat (length body) :: u32) in
        case write_all w (to_le_bytes len) of
          (w1, Inl e) \<Rightarrow> (w1, Inl e)
        | (w1, Inr _) \<Rightarrow>
            (case write_all w1 body of
               (w2, Inl e) \<Rightarrow> (w2, Inl e)
             | (w2, Inr _) \<Rightarrow> flush w2)))"

section \<open>What the streams promise\<close>

definition reader_ok :: "'r reader \<Rightarrow> ('r \<Rightarrow> u8 list) \<Rightarrow> bool" where
  "reader_ok read_exact pending \<longleftrightarrow>
     (\<forall>r xs ys. pending r = xs @ ys \<longrightarrow>
        (\<exists>r'. read_exact r (length xs) = (r', Inr xs) \<and> pending r' = ys))"

definition writer_ok :: "'w writer \<Rightarrow> 'w flusher \<Rightarrow> ('w \<Rightarrow> u8 list) \<Rightarrow> bool" where
  "writer_ok write_all flush sent \<longleftrightarrow>
     (\<forall>w bs w'. write_all w bs = (w', Inr ()) \<longrightarrow> sent w' = sent w @ bs) \<and>
     (\<forall>w w'. flush w = (w', Inr ()) \<longrightarrow> sent w' = sent w)"

lemma reader_okE:
  assumes "reader_ok read_exact pending" "pending r = xs @ ys" "length xs = n"
  obtains r' where "read_exact r n = (r', Inr xs)" "pending r' = ys"
  using assms unfolding reader_ok_def by blast

section \<open>The header\<close>

lemma length_to_le_bytes [simp]: "length (to_le_bytes w) = 4"
  by (simp add: to_le_bytes_def)

lemma from_to_le_bytes [simp]: "from_le_bytes (to_le_bytes w) = w"
proof (rule bit_word_eqI)
  fix n :: nat
  assume "n < LENGTH(32)"
  then consider "n < 8" | "8 \<le> n" "n < 16" | "16 \<le> n" "n < 24" | "24 \<le> n" "n < 32"
    by fastforce
  then show "bit (from_le_bytes (to_le_bytes w)) n = bit w n"
    by cases (auto simp: to_le_bytes_def bit_simps)
qed

lemma unat_MAX_FRAME_LEN [simp]: "unat MAX_FRAME_LEN = 4194304"
  by (simp add: MAX_FRAME_LEN_def)

lemma unat_frame_len:
  "\<not> exceeds_frame_cap body \<Longrightarrow> unat (of_nat (length body) :: u32) = length body"
  by (simp add: exceeds_frame_cap_def unat_of_nat)

lemma frame_len_within_cap:
  "\<not> exceeds_frame_cap body \<Longrightarrow> \<not> MAX_FRAME_LEN < (of_nat (length body) :: u32)"
  by (simp add: word_less_nat_alt unat_frame_len) (simp add: exceeds_frame_cap_def)

definition frame_bytes :: "u8 list \<Rightarrow> u8 list" where
  "frame_bytes body = to_le_bytes (of_nat (length body)) @ body"

lemma write_frame_sent:
  assumes "writer_ok write_all flush sent" "write_frame write_all flush w body = (w', Inr ())"
  shows "\<not> exceeds_frame_cap body" "sent w' = sent w @ frame_bytes body"
  using assms
  by (auto simp: write_frame_def frame_bytes_def writer_ok_def Let_def
      split: if_splits prod.splits sum.splits)

lemma read_frame_bytes:
  assumes ok: "reader_ok read_exact pending" and cap: "\<not> exceeds_frame_cap body"
    and pend: "pending r = frame_bytes body @ rest"
  obtains r' where "read_frame read_exact r = (r', Inr body)" "pending r' = rest"
proof -
  obtain r1 where r1: "read_exact r 4 = (r1, Inr (to_le_bytes (of_nat (length body))))"
      "pending r1 = body @ rest"
    using reader_okE[OF ok, of r "to_le_bytes (of_nat (length body))" "body @ rest" 4] pend
    by (auto simp: frame_bytes_def)
  obtain r2 where r2: "read_exact r1 (length body) = (r2, Inr body)" "pending r2 = rest"
    using reader_okE[OF ok r1(2) refl] by blast
  show thesis
  proof (cases "body = []")
    case True
    then show thesis using r1 that[of r1] by (simp add: read_frame_def Let_def)
  next
    case False
    then have "0 < (of_nat (length body) :: u32)"
      using unat_frame_len[OF cap] by (simp add: word_less_nat_alt)
    then have "read_frame read_exact r = (r2, Inr body)"
      using r1 r2 frame_len_within_cap[OF cap] unat_frame_len[OF cap]
      by (simp add: read_frame_def Let_def)
    then show thesis using r2 that by blast
  qed
qed

section \<open>Sequences of frames\<close>

fun write_frames ::
  "'w writer \<Rightarrow> 'w flusher \<Rightarrow> 'w \<Rightarrow> u8 list list \<Rightarrow> 'w \<times> (io_error + unit)" where
  "write_frames write_all flush w [] = (w, Inr ())"
| "write_frames write_all flush w (b # bs) =
     (case write_frame write_all flush w b of
        (w1, Inl e) \<Rightarrow> (w1, Inl e)
      | (w1, Inr _) \<Rightarrow> write_frames write_all flush w1 bs)"

fun read_frames :: "'r reader \<Rightarrow> nat \<Rightarrow> 'r \<Rightarrow> 'r \<times> (io_error + u8 list list)" where
  "read_frames read_exact 0 r = (r, Inr [])"
| "read_frames read_exact (Suc n) r =
     (case read_frame read_exact r of
        (r1, Inl e) \<Rightarrow> (r1, Inl e)
      | (r1, Inr b) \<Rightarrow>
          (case read_frames read_exact n r1 of
             (r2, Inl e) \<Rightarrow> (r2, Inl e)
           | (r2, Inr bs) \<Rightarrow> (r2, Inr (b # bs))))"

lemma write_frames_sent:
  assumes "writer_ok write_all flush sent" "write_frames write_all flush w bs = (w', Inr ())"
  shows "list_all (\<lambda>b. \<not> exceeds_frame_cap b) bs \<and> sent w' = sent w @ concat (map frame_bytes bs)"
  using assms(2)
proof (induction bs arbitrary: w)
  case Nil
  then show ?case by simp
next
  case (Cons b bs)
  then obtain w1 where "write_frame write_all flush w b = (w1, Inr ())"
      "write_frames write_all flush w1 bs = (w', Inr ())"
    by (auto split: prod.splits sum.splits)
  with Cons.IH write_frame_sent[OF assms(1)] show ?case by fastforce
qed

lemma read_frames_bytes:
  assumes "reader_ok read_exact pending" "list_all (\<lambda>b. \<not> exceeds_frame_cap b) bs"
    "pending r = concat (map frame_bytes bs) @ rest"
  shows "\<exists>r'. read_frames read_exact (length bs) r = (r', Inr bs) \<and> pending r' = rest"
  using assms(2,3)
proof (induction bs arbitrary: r)
  case Nil
  then show ?case by simp
next
  case (Cons b bs)
  obtain r1 where r1: "read_frame read_exact r = (r1, Inr b)"
      "pending r1 = concat (map frame_bytes bs) @ rest"
    using read_frame_bytes[OF assms(1), of b r "concat (map frame_bytes bs) @ rest"] Cons.prems
    by auto
  then show ?case using Cons.IH[of r1] Cons.prems by auto
qed

text \<open>
  C27: frames written one after another are read back one by one, whole, in order and
  with nothing left over: whatever bodies the writer accepted, a reader that receives
  the sent bytes returns exactly those bodies and stands at the bytes after them.
\<close>

theorem frames_roundtrip:
  assumes "writer_ok write_all flush sent" and "reader_ok read_exact pending"
    and "write_frames write_all flush w bodies = (w', Inr ())"
    and "pending r = drop (length (sent w)) (sent w') @ rest"
  shows "\<exists>r'. read_frames read_exact (length bodies) r = (r', Inr bodies) \<and> pending r' = rest"
proof -
  have w: "list_all (\<lambda>b. \<not> exceeds_frame_cap b) bodies"
      "sent w' = sent w @ concat (map frame_bytes bodies)"
    using write_frames_sent[OF assms(1,3)] by auto
  show ?thesis using read_frames_bytes[OF assms(2) w(1)] assms(4) w(2) by simp
qed

definition vec_write_all :: "u8 list \<Rightarrow> u8 list \<Rightarrow> u8 list \<times> (io_error + unit)" where
  "vec_write_all w bs = (w @ bs, Inr ())"

definition vec_flush :: "u8 list \<Rightarrow> u8 list \<times> (io_error + unit)" where
  "vec_flush w = (w, Inr ())"

definition slice_read_exact :: "u8 list \<Rightarrow> nat \<Rightarrow> u8 list \<times> (io_error + u8 list)" where
  "slice_read_exact r n =
     (if n \<le> length r then (drop n r, Inr (take n r)) else (r, Inl (StreamError ''early eof'')))"

theorem frames_roundtrip_witness:
  "\<exists>r'. read_frames slice_read_exact 2
          (fst (write_frames vec_write_all vec_flush [] [[1, 2, 3], []]) @ [9]) =
        (r', Inr [[1, 2, 3], []]) \<and> r' = [9]"
proof -
  have w: "writer_ok vec_write_all vec_flush (\<lambda>w. w)"
    by (auto simp: writer_ok_def vec_write_all_def vec_flush_def)
  have r: "reader_ok slice_read_exact (\<lambda>r. r)"
    by (auto simp: reader_ok_def slice_read_exact_def)
  have run: "write_frames vec_write_all vec_flush [] [[1, 2, 3], []] =
      (frame_bytes [1, 2, 3] @ frame_bytes [], Inr ())"
    by (simp add: write_frame_def vec_write_all_def vec_flush_def exceeds_frame_cap_def
        frame_bytes_def)
  show ?thesis
    using frames_roundtrip[OF w r run, of "frame_bytes [1, 2, 3] @ frame_bytes [] @ [9]" "[9]"] run
    by (simp add: numeral_2_eq_2)
qed

text \<open>
  the cap holds in both directions. An oversize body is refused with the writer
  untouched; a body the writer takes is one the reader accepts; and a frame whose header
  announces more than the cap is refused after the header alone, so no body of any
  result is longer than the cap.
\<close>

theorem frame_cap_enforced:
  "(exceeds_frame_cap body \<longrightarrow> (\<exists>m. write_frame write_all flush w body = (w, Inl (InvalidData m)))) \<and>
   (read_exact r 4 = (r1, Inr hdr) \<and> MAX_FRAME_LEN < from_le_bytes hdr \<longrightarrow>
      (\<exists>m. read_frame read_exact r = (r1, Inl (InvalidData m)))) \<and>
   ((\<forall>r n r' bs. read_exact r n = (r', Inr bs) \<longrightarrow> length bs = n) \<and>
      read_frame read_exact r = (r2, Inr got) \<longrightarrow> \<not> exceeds_frame_cap got)"
proof (intro conjI impI)
  show "\<exists>m. write_frame write_all flush w body = (w, Inl (InvalidData m))"
    if "exceeds_frame_cap body" using that by (simp add: write_frame_def)
  show "\<exists>m. read_frame read_exact r = (r1, Inl (InvalidData m))"
    if "read_exact r 4 = (r1, Inr hdr) \<and> MAX_FRAME_LEN < from_le_bytes hdr"
    using that by (simp add: read_frame_def Let_def)
  show "\<not> exceeds_frame_cap got"
    if "(\<forall>r n r' bs. read_exact r n = (r', Inr bs) \<longrightarrow> length bs = n) \<and>
      read_frame read_exact r = (r2, Inr got)"
    using that unfolding read_frame_def
    by (auto simp: Let_def exceeds_frame_cap_def word_less_nat_alt not_less
        split: prod.splits sum.splits if_splits)
qed

theorem frame_cap_enforced_witness:
  "(\<exists>m. read_frame slice_read_exact [255, 255, 255, 255, 7] = ([7], Inl (InvalidData m))) \<and>
   \<not> exceeds_frame_cap [5 :: u8]"
proof -
  have h: "MAX_FRAME_LEN < from_le_bytes [255, 255, 255, 255]"
    by (simp add: MAX_FRAME_LEN_def)
  have "\<exists>m. read_frame slice_read_exact [255, 255, 255, 255, 7] = ([7], Inl (InvalidData m))"
    using frame_cap_enforced[of "[]" vec_write_all vec_flush "[]" slice_read_exact
        "[255, 255, 255, 255, 7]" "[7]" "[255, 255, 255, 255]"] h
    by (simp add: slice_read_exact_def)
  moreover have "\<not> exceeds_frame_cap [5 :: u8]"
    using frame_cap_enforced[of "[]" vec_write_all vec_flush "[]" slice_read_exact
        "frame_bytes [5]" "[]" "[]" "[]" "[5]"]
    by (simp add: exceeds_frame_cap_def)
  ultimately show ?thesis by blast
qed

end
