(* ===== verification/Login_Throttle.thy ===== *)
theory Login_Throttle
  imports Prelude "HOL-Library.Product_Lexorder" "HOL-Library.Word"
begin

text \<open>
  The failure throttle of the login door (\<^verbatim>\<open>crates/ws-interface/src/login_throttle.rs\<close>): two
  counters per attempt, one per source address and one per user name, spent before the
  credential is checked.

  An \<^verbatim>\<open>Instant\<close> or a \<^verbatim>\<open>Duration\<close> is a number of nanoseconds. \<open>instant_max\<close> is the last
  representable instant of the Linux clock (a signed 64-bit count of seconds), so that
  \<^verbatim>\<open>checked_add\<close> is the code's. The lock around the map makes each operation atomic, so an
  operation is one function from the throttle to the throttle.
\<close>

section \<open>Constants, keys and counters\<close>

type_synonym instant = nat
type_synonym duration = nat

definition secs :: "nat \<Rightarrow> duration" where
  "secs n = n * 1000000000"

definition instant_max :: instant where
  "instant_max = secs (2 ^ 63 - 1) + 999999999"

definition FREE_ATTEMPTS :: nat where
  "FREE_ATTEMPTS = 5"

definition BASE_LOCKOUT :: duration where
  "BASE_LOCKOUT = secs 5"

definition MAX_LOCKOUT :: duration where
  "MAX_LOCKOUT = secs 60"

definition IDLE_RESET :: duration where
  "IDLE_RESET = secs (15 * 60)"

definition MAX_TRACKED :: nat where
  "MAX_TRACKED = 4096"

definition MAX_KEY_CHARS :: nat where
  "MAX_KEY_CHARS = 64"

definition IPV6_COUNTED_BYTES :: nat where
  "IPV6_COUNTED_BYTES = 8"

datatype ip_addr = V4 "8 word list" | V6 "8 word list"

datatype counter_key = Source ip_addr | Username string

datatype attempt = Allowed "duration option" | Refused duration

record attempts =
  att_attempts :: nat
  att_last_attempt :: instant
  att_locked_until :: "instant option"

record login_throttle =
  lt_counters :: "(counter_key, attempts) hashmap"
  lt_missing_source_reported :: bool

definition short_name :: "string \<Rightarrow> string" where
  "short_name username = take_chars MAX_KEY_CHARS username"

definition is_locked :: "attempts \<Rightarrow> instant \<Rightarrow> bool" where
  "is_locked a now = (case att_locked_until a of None \<Rightarrow> False | Some until \<Rightarrow> now < until)"

definition remaining :: "attempts \<Rightarrow> instant \<Rightarrow> duration option" where
  "remaining a now =
     (case att_locked_until a of
        None \<Rightarrow> None
      | Some until \<Rightarrow> (let left = until - now in if left = 0 then None else Some left))"

text \<open>\<^verbatim>\<open>IpAddr::to_canonical\<close>: an IPv4-mapped IPv6 address is the IPv4 address it maps.\<close>

definition to_canonical :: "ip_addr \<Rightarrow> ip_addr" where
  "to_canonical a =
     (case a of
        V4 os \<Rightarrow> V4 os
      | V6 os \<Rightarrow> if take 12 os = replicate 10 0 @ [255, 255] then V4 (drop 12 os) else V6 os)"

definition counted_address :: "ip_addr \<Rightarrow> ip_addr" where
  "counted_address address =
     (case to_canonical address of
        V4 v4 \<Rightarrow> V4 v4
      | V6 octets \<Rightarrow>
          V6 (take IPV6_COUNTED_BYTES octets @ replicate (length octets - IPV6_COUNTED_BYTES) 0))"

definition keys :: "ip_addr option \<Rightarrow> string \<Rightarrow> counter_key list" where
  "keys source username =
     (case source of None \<Rightarrow> [] | Some address \<Rightarrow> [Source (counted_address address)])
     @ [Username (short_name username)]"

definition lockout_for :: "nat \<Rightarrow> duration option" where
  "lockout_for n =
     (if n < FREE_ATTEMPTS then None
      else (let doublings = n - FREE_ATTEMPTS;
                factor = (if doublings < 32 then 2 ^ doublings else u32_max)
            in Some (min (BASE_LOCKOUT * factor) MAX_LOCKOUT)))"

definition checked_add_instant :: "instant \<Rightarrow> duration \<Rightarrow> instant option" where
  "checked_add_instant t d = (if t + d \<le> instant_max then Some (t + d) else None)"

section \<open>Making room\<close>

definition room_key :: "instant \<Rightarrow> counter_key \<times> attempts \<Rightarrow> bool \<times> nat" where
  "room_key now e = (is_locked (snd e) now, att_last_attempt (snd e))"

lemma arg_min_list_in_set: "xs \<noteq> [] \<Longrightarrow> arg_min_list f xs \<in> set xs"
  by (rule arg_min_list_in)

lemma length_hm_remove_less: "e \<in> set m \<Longrightarrow> length (hm_remove (fst e) m) < length m"
  by (induction m) (auto simp: AList.delete_eq intro: le_imp_less_Suc length_filter_le)

function drop_oldest ::
  "instant \<Rightarrow> (counter_key, attempts) hashmap \<Rightarrow> (counter_key, attempts) hashmap" where
  "drop_oldest now counters =
     (if MAX_TRACKED < length counters + 2 then
        (case counters of
           [] \<Rightarrow> counters
         | _ # _ \<Rightarrow>
             drop_oldest now (hm_remove (fst (arg_min_list (room_key now) counters)) counters))
      else counters)"
  by pat_completeness auto
termination
proof (relation "measure (\<lambda>(now, m). length m)")
  fix now :: instant and counters x22 :: "(counter_key, attempts) hashmap" and x21
  assume "counters = x21 # x22"
  then show "((now, hm_remove (fst (arg_min_list (room_key now) counters)) counters), now, counters)
      \<in> measure (\<lambda>(now, m). length m)"
    using length_hm_remove_less[OF arg_min_list_in_set[of counters "room_key now"]] by simp
qed simp

declare drop_oldest.simps [simp del]

definition make_room ::
  "(counter_key, attempts) hashmap \<Rightarrow> instant \<Rightarrow> (counter_key, attempts) hashmap" where
  "make_room counters now =
     drop_oldest now
       (filter (\<lambda>(_, e). is_locked e now \<or> now - att_last_attempt e < IDLE_RESET) counters)"

section \<open>Attempts\<close>

definition spend_entry :: "instant \<Rightarrow> attempts \<Rightarrow> attempts" where
  "spend_entry now e =
     (let n = sat_add_u32 (if IDLE_RESET \<le> now - att_last_attempt e then 0 else att_attempts e) 1
      in \<lparr>att_attempts = n, att_last_attempt = now,
          att_locked_until = map_option (\<lambda>lockout.
             case checked_add_instant now lockout of Some t \<Rightarrow> t | None \<Rightarrow> now) (lockout_for n)\<rparr>)"

definition fresh_entry :: "instant \<Rightarrow> attempts" where
  "fresh_entry now = \<lparr>att_attempts = 0, att_last_attempt = now, att_locked_until = None\<rparr>"

text \<open>\<^verbatim>\<open>Option::max\<close>: \<^verbatim>\<open>None\<close> is below every \<^verbatim>\<open>Some\<close>.\<close>

fun opt_max :: "nat option \<Rightarrow> nat option \<Rightarrow> nat option" where
  "opt_max None b = b"
| "opt_max a None = a"
| "opt_max (Some a) (Some b) = Some (max a b)"

fun spend ::
  "instant \<Rightarrow> counter_key list \<Rightarrow> (counter_key, attempts) hashmap \<Rightarrow> duration option \<Rightarrow>
   (counter_key, attempts) hashmap \<times> duration option" where
  "spend now [] counters earned = (counters, earned)"
| "spend now (key # ks) counters earned =
     (let e = (case hm_get counters key of Some e \<Rightarrow> e | None \<Rightarrow> fresh_entry now);
          e' = spend_entry now e
      in spend now ks (hm_insert key e' counters)
           (opt_max earned (map_option (\<lambda>until. until - now) (att_locked_until e'))))"

definition key_remaining ::
  "(counter_key, attempts) hashmap \<Rightarrow> instant \<Rightarrow> counter_key option \<Rightarrow> duration option" where
  "key_remaining counters now k =
     (case k of None \<Rightarrow> None
      | Some key \<Rightarrow> (case hm_get counters key of None \<Rightarrow> None | Some e \<Rightarrow> remaining e now))"

definition is_source_key :: "counter_key \<Rightarrow> bool" where
  "is_source_key k = (case k of Source _ \<Rightarrow> True | Username _ \<Rightarrow> False)"

definition begin_attempt ::
  "login_throttle \<Rightarrow> ip_addr option \<Rightarrow> string \<Rightarrow> instant \<Rightarrow> login_throttle \<times> attempt" where
  "begin_attempt t source username now =
     (let counters = lt_counters t;
          spends_from = keys source username;
          source_key = List.find is_source_key spends_from;
          account_key = List.find (\<lambda>k. \<not> is_source_key k) spends_from;
          own = key_remaining counters now source_key;
          has_own_record = (case source_key of None \<Rightarrow> True
                            | Some key \<Rightarrow> hm_get counters key \<noteq> None);
          account = (if has_own_record then key_remaining counters now account_key else None)
      in case opt_max own account of
           Some retry_after \<Rightarrow> (t, Refused retry_after)
         | None \<Rightarrow>
             (let (counters', earned) = spend now spends_from (make_room counters now) None
              in (t\<lparr>lt_counters := counters'\<rparr>, Allowed earned)))"

definition record_success :: "login_throttle \<Rightarrow> ip_addr option \<Rightarrow> string \<Rightarrow> login_throttle" where
  "record_success t source username =
     t\<lparr>lt_counters := fold hm_remove (keys source username) (lt_counters t)\<rparr>"

definition note_missing_source :: "login_throttle \<Rightarrow> login_throttle \<times> bool" where
  "note_missing_source t =
     (t\<lparr>lt_missing_source_reported := True\<rparr>, \<not> lt_missing_source_reported t)"

definition new_throttle :: login_throttle where
  "new_throttle = \<lparr>lt_counters = [], lt_missing_source_reported = False\<rparr>"

section \<open>Facts about the pieces\<close>

lemmas throttle_consts =
  FREE_ATTEMPTS_def BASE_LOCKOUT_def MAX_LOCKOUT_def IDLE_RESET_def secs_def

lemma is_source_key_simps [simp]: "is_source_key (Source a)" "\<not> is_source_key (Username u)"
  by (simp_all add: is_source_key_def)

lemma keys_Some [simp]:
  "keys (Some a) u = [Source (counted_address a), Username (short_name u)]"
  by (simp add: keys_def)

lemma keys_None [simp]: "keys None u = [Username (short_name u)]"
  by (simp add: keys_def)

lemma distinct_keys: "distinct (keys source username)"
  by (cases source) auto

lemma find_keys [simp]:
  "List.find is_source_key (keys source u) = map_option (Source \<circ> counted_address) source"
  "List.find (\<lambda>k. \<not> is_source_key k) (keys source u) = Some (Username (short_name u))"
  by (cases source; simp)+

lemma opt_max_None [simp]: "opt_max a None = a"
  by (cases a) auto

lemma opt_max_eq_None [simp]: "opt_max a b = None \<longleftrightarrow> a = None \<and> b = None"
  by (cases a; cases b) auto

lemma opt_max_bounded:
  "opt_max a b = Some d \<Longrightarrow> (\<And>x. a = Some x \<Longrightarrow> x \<le> n) \<Longrightarrow> (\<And>x. b = Some x \<Longrightarrow> x \<le> n) \<Longrightarrow> d \<le> n"
  by (cases a; cases b) auto

lemma lockout_for_None [simp]: "lockout_for n = None \<longleftrightarrow> n < FREE_ATTEMPTS"
  by (simp add: lockout_for_def Let_def)

lemma lockout_for_bounds:
  "lockout_for n = Some d \<Longrightarrow> BASE_LOCKOUT \<le> d \<and> d \<le> MAX_LOCKOUT"
  by (auto simp: lockout_for_def Let_def throttle_consts u32_max_def split: if_splits)

abbreviation oldest_key :: "instant \<Rightarrow> (counter_key, attempts) hashmap \<Rightarrow> counter_key" where
  "oldest_key now m \<equiv> fst (arg_min_list (room_key now) m)"

lemma drop_oldest_stop: "\<not> (MAX_TRACKED < length m + 2 \<and> m \<noteq> []) \<Longrightarrow> drop_oldest now m = m"
  by (subst drop_oldest.simps) (auto split: list.split)

lemma drop_oldest_step:
  "MAX_TRACKED < length m + 2 \<Longrightarrow> m \<noteq> [] \<Longrightarrow>
   drop_oldest now m = drop_oldest now (hm_remove (oldest_key now m) m)"
  by (subst drop_oldest.simps) (simp split: list.split)

lemma drop_oldest_induct [case_names stop step]:
  assumes "\<And>m. \<not> (MAX_TRACKED < length m + 2 \<and> m \<noteq> []) \<Longrightarrow> P m"
    and "\<And>m. MAX_TRACKED < length m + 2 \<Longrightarrow> m \<noteq> [] \<Longrightarrow> P (hm_remove (oldest_key now m) m) \<Longrightarrow> P m"
  shows "P m"
proof (induction m rule: measure_induct_rule[of length])
  case (less m)
  then show ?case
    using assms length_hm_remove_less[OF arg_min_list_in_set[of m "room_key now"]] by blast
qed

lemma length_drop_oldest: "length (drop_oldest now m) + 2 \<le> MAX_TRACKED"
proof (induction m rule: drop_oldest_induct[where now = now])
  case (stop m)
  then show ?case by (auto simp: drop_oldest_stop) (simp add: MAX_TRACKED_def)
qed (simp add: drop_oldest_step)

lemma hm_ok_drop_oldest: "hm_ok m \<Longrightarrow> hm_ok (drop_oldest now m)"
  by (induction m rule: drop_oldest_induct[where now = now])
    (simp_all only: drop_oldest_step drop_oldest_stop hm_ok_remove not_False_eq_True)

text \<open>Eviction never changes an entry it keeps.\<close>

lemma hm_get_drop_oldest: "hm_get (drop_oldest now m) k = Some e \<Longrightarrow> hm_get m k = Some e"
proof (induction m rule: drop_oldest_induct[where now = now])
  case (stop m)
  then show ?case by (simp only: drop_oldest_stop not_False_eq_True)
next
  case (step m)
  then have "hm_get (hm_remove (oldest_key now m) m) k = Some e"
    using drop_oldest_step[OF step.hyps(1,2), of now] by simp
  then show ?case by (simp add: hm_simps split: if_splits)
qed

lemma set_drop_oldest: "hm_ok m \<Longrightarrow> set (drop_oldest now m) \<subseteq> set m"
  using hm_get_drop_oldest hm_ok_drop_oldest by (metis hm_in_iff_get subrelI)

lemma oldest_locked:
  assumes "(k', e') \<in> set m" "is_locked (snd (arg_min_list (room_key now) m)) now"
  shows "is_locked e' now"
proof -
  have m: "m \<noteq> []" using assms(1) by auto
  have "room_key now (arg_min_list (room_key now) m) \<le> room_key now (k', e')"
    using f_arg_min_list_f[OF m, of "room_key now"] assms(1) by (auto intro!: Min_le)
  then show ?thesis using assms(2) by (auto simp: room_key_def)
qed

text \<open>
  An entry that serves a live lockout is dropped only when every entry that is left
  serves one.
\<close>

lemma drop_oldest_keeps_locked:
  "hm_ok m \<Longrightarrow> hm_get m k = Some e \<Longrightarrow> is_locked e now \<Longrightarrow> hm_get (drop_oldest now m) k = None \<Longrightarrow>
   (k', e') \<in> set (drop_oldest now m) \<Longrightarrow> is_locked e' now"
proof (induction m rule: drop_oldest_induct[where now = now])
  case (stop m)
  then show ?case by (simp only: drop_oldest_stop not_False_eq_True option.distinct)
next
  case (step m)
  let ?x = "arg_min_list (room_key now) m"
  show ?case
  proof (cases "k = fst ?x")
    case False
    then have "hm_get (hm_remove (fst ?x) m) k = Some e" using step.prems(2) by (simp add: hm_simps)
    then show ?thesis
      using step.IH step.prems drop_oldest_step[OF step.hyps(1,2), of now] by simp
  next
    case True
    have "snd ?x = e"
      using True step.prems(1,2) arg_min_list_in_set[OF step.hyps(2)]
      by (metis hm_in_iff_get option.inject prod.collapse)
    then show ?thesis
      using oldest_locked[of k' e' m now] set_drop_oldest[OF step.prems(1)] step.prems(3,5) by auto
  qed
qed

lemma make_room_get: "hm_ok m \<Longrightarrow> hm_get (make_room m now) k = Some e \<Longrightarrow> hm_get m k = Some e"
  by (auto simp: make_room_def hm_get_filter dest!: hm_get_drop_oldest
      split: option.splits if_splits)

lemma make_room_ok: "hm_ok m \<Longrightarrow> hm_ok (make_room m now)"
  by (simp add: make_room_def hm_ok_drop_oldest hm_ok_filter)

lemma length_make_room: "length (make_room m now) + 2 \<le> MAX_TRACKED"
  by (simp only: make_room_def length_drop_oldest)

definition entry_or_fresh :: "(counter_key, attempts) hashmap \<Rightarrow> instant \<Rightarrow> counter_key \<Rightarrow> attempts" where
  "entry_or_fresh m now k = (case hm_get m k of Some e \<Rightarrow> e | None \<Rightarrow> fresh_entry now)"

lemma hm_get_spend:
  "distinct ks \<Longrightarrow> hm_get (fst (spend now ks m earned)) k =
     (if k \<in> set ks then Some (spend_entry now (entry_or_fresh m now k)) else hm_get m k)"
  by (induction ks arbitrary: m earned) (auto simp: Let_def entry_or_fresh_def hm_simps)

lemma hm_ok_spend: "hm_ok m \<Longrightarrow> hm_ok (fst (spend now ks m earned))"
  by (induction ks arbitrary: m earned) (auto simp: Let_def)

lemma length_update_le: "length (AList.update k v m) \<le> Suc (length m)"
  by (induction m) auto

lemma length_spend: "length (fst (spend now ks m earned)) \<le> length m + length ks"
proof (induction ks arbitrary: m earned)
  case (Cons k ks)
  show ?case
    by (simp add: Let_def del: AList.update.simps)
      (rule order_trans[OF Cons], simp add: length_update_le)
qed simp

lemma length_keys: "length (keys s u) \<le> 2"
  by (cases s) auto

text \<open>The two branches of an attempt.\<close>

definition refusal :: "login_throttle \<Rightarrow> ip_addr option \<Rightarrow> string \<Rightarrow> instant \<Rightarrow> duration option" where
  "refusal t source u now =
     (let sk = map_option (Source \<circ> counted_address) source in
      opt_max (key_remaining (lt_counters t) now sk)
        (if sk = None \<or> hm_get (lt_counters t) (the sk) \<noteq> None
         then key_remaining (lt_counters t) now (Some (Username (short_name u))) else None))"

lemma begin_attempt_refused:
  "refusal t source u now = Some d \<Longrightarrow> begin_attempt t source u now = (t, Refused d)"
  by (cases source) (auto simp: begin_attempt_def refusal_def Let_def)

lemma begin_attempt_allowed:
  "refusal t source u now = None \<Longrightarrow>
   begin_attempt t source u now =
     (let r = spend now (keys source u) (make_room (lt_counters t) now) None
      in (t\<lparr>lt_counters := fst r\<rparr>, Allowed (snd r)))"
  by (cases source) (auto simp: begin_attempt_def refusal_def Let_def split: prod.splits)

lemma begin_attempt_AllowedD:
  assumes "begin_attempt t source u now = (t', Allowed earned)"
  shows "refusal t source u now = None"
    "lt_counters t' = fst (spend now (keys source u) (make_room (lt_counters t) now) None)"
proof -
  show none: "refusal t source u now = None"
    using assms begin_attempt_refused[of t source u now] by (cases "refusal t source u now") auto
  show "lt_counters t' = fst (spend now (keys source u) (make_room (lt_counters t) now) None)"
    using assms begin_attempt_allowed[OF none] by (auto simp: Let_def)
qed

section \<open>The invariant\<close>

definition entry_ok :: "instant \<Rightarrow> attempts \<Rightarrow> bool" where
  "entry_ok now e \<longleftrightarrow>
     att_last_attempt e \<le> now \<and> 0 < att_attempts e \<and> att_attempts e \<le> u32_max \<and>
     (case att_locked_until e of None \<Rightarrow> att_attempts e < FREE_ATTEMPTS
      | Some until \<Rightarrow> FREE_ATTEMPTS \<le> att_attempts e \<and> until \<le> att_last_attempt e + MAX_LOCKOUT)"

definition throttle_inv :: "instant \<times> login_throttle \<Rightarrow> bool" where
  "throttle_inv s \<longleftrightarrow>
     (case s of (now, t) \<Rightarrow> hm_ok (lt_counters t) \<and> length (lt_counters t) \<le> MAX_TRACKED \<and>
        (\<forall>k e. hm_get (lt_counters t) k = Some e \<longrightarrow> entry_ok now e))"

text \<open>
  The throttle with its clock: time passes, an attempt begins, a login succeeds, the
  missing source is noted.
\<close>

inductive throttle_step :: "instant \<times> login_throttle \<Rightarrow> instant \<times> login_throttle \<Rightarrow> bool" where
  tick: "now \<le> now' \<Longrightarrow> throttle_step (now, t) (now', t)"
| attempt: "throttle_step (now, t) (now, fst (begin_attempt t source u now))"
| success: "throttle_step (now, t) (now, record_success t source u)"
| missing: "throttle_step (now, t) (now, fst (note_missing_source t))"

inductive_cases throttle_stepE: "throttle_step s s'"

definition throttle_init :: "instant \<times> login_throttle \<Rightarrow> bool" where
  "throttle_init s \<longleftrightarrow> snd s = new_throttle"

lemma lockout_until_bound:
  "lockout_for n = Some d \<Longrightarrow>
   (case checked_add_instant now d of Some t \<Rightarrow> t | None \<Rightarrow> now) \<le> now + MAX_LOCKOUT"
  using lockout_for_bounds[of n d] by (auto simp: checked_add_instant_def)

lemma spend_entry_ok: "entry_ok now (spend_entry now e)"
proof -
  let ?n = "sat_add_u32 (if IDLE_RESET \<le> now - att_last_attempt e then 0 else att_attempts e) 1"
  have n: "0 < ?n" "?n \<le> u32_max" by (simp_all add: sat_add_u32_def u32_max_def)
  show ?thesis
  proof (cases "lockout_for ?n")
    case None
    then have "?n < FREE_ATTEMPTS" by simp
    then show ?thesis using n None by (simp only: entry_ok_def spend_entry_def Let_def) simp
  next
    case (Some d)
    then have "\<not> ?n < FREE_ATTEMPTS" using lockout_for_None by (metis option.distinct(1))
    then show ?thesis
      using n Some lockout_until_bound[OF Some, of now]
      by (simp only: entry_ok_def spend_entry_def Let_def) simp
  qed
qed

lemma entry_ok_mono: "entry_ok now e \<Longrightarrow> now \<le> now' \<Longrightarrow> entry_ok now' e"
  by (auto simp: entry_ok_def)

lemma fold_hm_remove_get:
  "hm_get (fold hm_remove ks m) k = (if k \<in> set ks then None else hm_get m k)"
  by (induction ks arbitrary: m) (auto simp: hm_simps)

lemma fold_hm_remove_ok: "hm_ok m \<Longrightarrow> hm_ok (fold hm_remove ks m)"
  by (induction ks arbitrary: m) auto

lemma fold_hm_remove_length: "length (fold hm_remove ks m) \<le> length m"
  by (induction ks arbitrary: m) (auto intro: order_trans length_delete_le)

lemma throttle_inv_entry:
  "throttle_inv (now, t) \<Longrightarrow> hm_get (lt_counters t) k = Some e \<Longrightarrow> entry_ok now e"
  by (simp add: throttle_inv_def)

lemma throttle_inv_attempt:
  assumes "throttle_inv (now, t)"
  shows "throttle_inv (now, fst (begin_attempt t source u now))"
proof (cases "refusal t source u now")
  case (Some d)
  then show ?thesis using assms begin_attempt_refused by simp
next
  case None
  let ?m = "make_room (lt_counters t) now"
  let ?r = "spend now (keys source u) ?m None"
  have ok: "hm_ok (lt_counters t)" using assms by (simp add: throttle_inv_def)
  have "length (fst ?r) \<le> MAX_TRACKED"
    using length_spend[of now "keys source u" ?m None] length_keys[of source u]
      length_make_room[of "lt_counters t" now] by linarith
  moreover have "entry_ok now e" if "hm_get (fst ?r) k = Some e" for k e
  proof (cases "k \<in> set (keys source u)")
    case True
    then show ?thesis using that by (auto simp: hm_get_spend distinct_keys spend_entry_ok)
  next
    case False
    then have "hm_get ?m k = Some e" using that by (simp add: hm_get_spend distinct_keys)
    from make_room_get[OF ok this] show ?thesis using assms throttle_inv_entry by blast
  qed
  ultimately show ?thesis
    using begin_attempt_allowed[OF None] hm_ok_spend[OF make_room_ok[OF ok]]
    by (simp add: throttle_inv_def Let_def)
qed

interpretation lt: invariant_system throttle_init throttle_step throttle_inv
proof
  fix s assume "throttle_init s"
  then show "throttle_inv s"
    by (cases s) (simp add: throttle_init_def throttle_inv_def new_throttle_def)
next
  fix s t assume inv: "throttle_inv s" and "throttle_step s t"
  from this(2) show "throttle_inv t"
  proof cases
    case (tick now now' t)
    then show ?thesis using inv entry_ok_mono[of now _ now'] by (auto simp: throttle_inv_def)
  next
    case (attempt now t source u)
    then show ?thesis using inv throttle_inv_attempt by simp
  next
    case (success now t source u)
    then show ?thesis
      using inv fold_hm_remove_length[of "keys source u" "lt_counters t"]
      by (auto simp: throttle_inv_def record_success_def fold_hm_remove_get fold_hm_remove_ok
          split: if_splits)
  next
    case (missing now t)
    then show ?thesis using inv by (simp add: throttle_inv_def note_missing_source_def)
  qed
qed

section \<open>Lockouts hold, and a stranger cannot shut the owner out\<close>

lemma remaining_bounds:
  "entry_ok now e \<Longrightarrow> remaining e now = Some d \<Longrightarrow> 0 < d \<and> d \<le> MAX_LOCKOUT"
  by (auto simp: entry_ok_def remaining_def Let_def split: option.splits if_splits)

lemma key_remaining_bounds:
  "throttle_inv (now, t) \<Longrightarrow> key_remaining (lt_counters t) now k = Some d \<Longrightarrow>
   0 < d \<and> d \<le> MAX_LOCKOUT"
  unfolding key_remaining_def
  by (cases k; cases "hm_get (lt_counters t) (the k)")
    (auto dest: throttle_inv_entry remaining_bounds)

lemma opt_max_cases: "opt_max a b = Some d \<Longrightarrow> a = Some d \<or> b = Some d"
  by (cases a; cases b) (auto simp: max_def split: if_splits)

lemma refusal_bounds:
  "throttle_inv (now, t) \<Longrightarrow> refusal t source u now = Some d \<Longrightarrow> 0 < d \<and> d \<le> MAX_LOCKOUT"
  using key_remaining_bounds
  by (auto simp: refusal_def Let_def split: if_splits dest!: opt_max_cases)

lemma begin_attempt_RefusedD:
  "begin_attempt t source u now = (t', Refused d) \<Longrightarrow> t' = t \<and> refusal t source u now = Some d"
  using begin_attempt_allowed[of t source u now] begin_attempt_refused[of t source u now]
  by (cases "refusal t source u now") (auto simp: Let_def)

text \<open>
  The lockout a source earned holds against its whole counted address, under every user
  name, until it ends.
\<close>

lemma source_lockout_holds:
  assumes "hm_get (lt_counters t) (Source (counted_address a)) = Some e"
    and "att_locked_until e = Some until" "now < until"
  shows "\<exists>d. begin_attempt t (Some a) u now = (t, Refused d)"
proof -
  have "refusal t (Some a) u now \<noteq> None"
    using assms by (simp add: refusal_def key_remaining_def remaining_def Let_def)
  then show ?thesis using begin_attempt_refused by blast
qed

lemma spend_entry_locks:
  assumes "now + MAX_LOCKOUT \<le> instant_max" "FREE_ATTEMPTS \<le> att_attempts (spend_entry now e)"
  obtains until where "att_locked_until (spend_entry now e) = Some until" "now + BASE_LOCKOUT \<le> until"
proof -
  let ?n = "att_attempts (spend_entry now e)"
  obtain d where d: "lockout_for ?n = Some d"
    using assms(2) by (cases "lockout_for ?n") auto
  have "now + d \<le> instant_max" "BASE_LOCKOUT \<le> d"
    using lockout_for_bounds[OF d] assms(1) by auto
  moreover have "att_locked_until (spend_entry now e) = Some (now + d)"
    using d \<open>now + d \<le> instant_max\<close> by (simp add: spend_entry_def Let_def checked_add_instant_def)
  ultimately show ?thesis using that by simp
qed

section \<open>A burst\<close>

text \<open>
  The answers to a run of attempts, each with its source, its user name and its time, none of which
  succeeds. \<open>from_source\<close> picks the attempts that are counted against the address of \<open>a\<close>.
\<close>

type_synonym login_attempt = "ip_addr option \<times> string \<times> instant"

fun answers :: "login_throttle \<Rightarrow> login_attempt list \<Rightarrow> (login_attempt \<times> attempt) list" where
  "answers t [] = []"
| "answers t ((source, u, now) # rest) =
     (let r = begin_attempt t source u now in ((source, u, now), snd r) # answers (fst r) rest)"

fun is_allowed :: "attempt \<Rightarrow> bool" where
  "is_allowed (Allowed _) = True"
| "is_allowed (Refused _) = False"

definition from_source :: "ip_addr \<Rightarrow> login_attempt \<Rightarrow> bool" where
  "from_source a x \<longleftrightarrow> map_option counted_address (fst x) = Some (counted_address a)"

abbreviation let_through :: "ip_addr \<Rightarrow> (login_attempt \<times> attempt) list \<Rightarrow> nat" where
  "let_through a rs \<equiv> length (filter (\<lambda>(x, r). from_source a x \<and> is_allowed r) rs)"

text \<open>The times of a run: in order, and within one base lockout of its start.\<close>

definition within :: "instant \<Rightarrow> login_attempt list \<Rightarrow> bool" where
  "within start xs \<longleftrightarrow> sorted_wrt (\<lambda>x y. snd (snd x) \<le> snd (snd y)) xs \<and>
     (\<forall>x\<in>set xs. start \<le> snd (snd x) \<and> snd (snd x) < start + BASE_LOCKOUT)"

text \<open>
  What is on record of a source that was let through \<open>n\<close> times since \<open>start\<close>, at a time when the seen
  attempt was made at \<open>now\<close>: at least that many attempts, and a lockout past the end of the run once the free
  attempts are spent.
\<close>

definition spent_since :: "instant \<Rightarrow> ip_addr \<Rightarrow> nat \<Rightarrow> instant \<Rightarrow> login_throttle \<Rightarrow> bool" where
  "spent_since start a n now t \<longleftrightarrow> hm_ok (lt_counters t) \<and> n \<le> FREE_ATTEMPTS \<and>
     (0 < n \<longrightarrow> (\<exists>e. hm_get (lt_counters t) (Source (counted_address a)) = Some e \<and>
        start \<le> att_last_attempt e \<and> att_last_attempt e \<le> now \<and> n \<le> att_attempts e \<and>
        (FREE_ATTEMPTS \<le> att_attempts e \<longrightarrow>
           (\<exists>until. att_locked_until e = Some until \<and> start + BASE_LOCKOUT \<le> until))))"

lemma make_room_filters:
  assumes "length m + 2 \<le> MAX_TRACKED"
  shows "make_room m now = filter (\<lambda>(_, e). is_locked e now \<or> now - att_last_attempt e < IDLE_RESET) m"
proof -
  have "\<not> (MAX_TRACKED < length (filter P m) + 2 \<and> filter P m \<noteq> [])" for P
    using assms length_filter_le[of P m] by linarith
  then show ?thesis unfolding make_room_def by (rule drop_oldest_stop)
qed

lemma make_room_keeps:
  assumes "hm_ok m" "hm_get m k = Some e" "now - att_last_attempt e < IDLE_RESET" "length m + 2 \<le> MAX_TRACKED"
  shows "hm_get (make_room m now) k = Some e"
  using assms(1-3) by (simp add: make_room_filters[OF assms(4)] hm_get_filter case_prod_beta)

lemma length_attempt:
  assumes "length (lt_counters t) + 2 \<le> MAX_TRACKED"
  shows "length (lt_counters (fst (begin_attempt t source u now))) \<le> length (lt_counters t) + 2"
proof (cases "refusal t source u now")
  case None
  let ?m = "make_room (lt_counters t) now"
  have "length ?m \<le> length (lt_counters t)" by (simp add: make_room_filters[OF assms])
  then show ?thesis
    using length_spend[of now "keys source u" ?m None] length_keys[of source u] begin_attempt_allowed[OF None]
    by (simp add: Let_def)
qed (simp add: begin_attempt_refused)

lemma spend_entry_counts:
  assumes "now - att_last_attempt e < IDLE_RESET" "att_attempts e < FREE_ATTEMPTS"
  shows "att_attempts (spend_entry now e) = Suc (att_attempts e)"
  using assms by (simp add: spend_entry_def Let_def sat_add_u32_def u32_max_def throttle_consts)

lemma spend_entry_last [simp]: "att_last_attempt (spend_entry now e) = now"
  by (simp add: spend_entry_def Let_def)

text \<open>An attempt of anybody in the run: the source's record stands, and one more attempt let through is on it.\<close>

lemma spent_since_step:
  assumes spent: "spent_since start a n seen t" and times: "start \<le> now" "seen \<le> now" "now < start + BASE_LOCKOUT"
    and clock: "now + MAX_LOCKOUT \<le> instant_max" and room: "length (lt_counters t) + 2 \<le> MAX_TRACKED"
  shows "spent_since start a (if from_source a (source, u, now) \<and> is_allowed (snd (begin_attempt t source u now))
      then Suc n else n) now (fst (begin_attempt t source u now))"
proof (cases "refusal t source u now")
  case (Some d)
  then show ?thesis using spent times(2) begin_attempt_refused[OF Some] by (fastforce simp: spent_since_def)
next
  case None
  let ?m = "lt_counters t" and ?k = "Source (counted_address a)"
  let ?r = "spend now (keys source u) (make_room ?m now) None"
  have ok: "hm_ok ?m" using spent by (simp add: spent_since_def)
  have run: "begin_attempt t source u now = (t\<lparr>lt_counters := fst ?r\<rparr>, Allowed (snd ?r))"
    using begin_attempt_allowed[OF None] by (simp add: Let_def)
  have after: "hm_ok (fst ?r)" by (intro hm_ok_spend make_room_ok ok)
  have kept: "hm_get (make_room ?m now) ?k = Some e"
    if "hm_get ?m ?k = Some e" "start \<le> att_last_attempt e" for e
    by (rule make_room_keeps[OF ok that(1) _ room]) (use that(2) times(3) in \<open>auto simp: throttle_consts\<close>)
  show ?thesis
  proof (cases "from_source a (source, u, now)")
    case False
    then have "?k \<notin> set (keys source u)" by (cases source) (auto simp: from_source_def)
    then have get: "hm_get (fst ?r) ?k = hm_get (make_room ?m now) ?k"
      by (simp add: hm_get_spend distinct_keys)
    show ?thesis using False spent after kept times(2) unfolding spent_since_def run
      by (auto simp: get intro: order_trans)
  next
    case True
    then obtain b where b: "source = Some b" "counted_address b = counted_address a" by (auto simp: from_source_def)
    define e where "e = entry_or_fresh (make_room ?m now) now ?k"
    have get: "hm_get (fst ?r) ?k = Some (spend_entry now e)"
      by (simp only: hm_get_spend distinct_keys e_def) (simp add: b)
    have locks: "\<exists>until. att_locked_until (spend_entry now e) = Some until \<and> start + BASE_LOCKOUT \<le> until"
      if "FREE_ATTEMPTS \<le> att_attempts (spend_entry now e)"
      using spend_entry_locks[OF clock that] times(1) by (metis add_le_mono1 order_trans)
    have "Suc n \<le> FREE_ATTEMPTS \<and> Suc n \<le> att_attempts (spend_entry now e)"
    proof (cases "n = 0")
      case True
      then show ?thesis using spend_entry_ok[of now e] by (simp add: entry_ok_def FREE_ATTEMPTS_def)
    next
      case False
      then obtain f where f: "hm_get ?m ?k = Some f" "start \<le> att_last_attempt f" "n \<le> att_attempts f"
        "FREE_ATTEMPTS \<le> att_attempts f \<longrightarrow> (\<exists>until. att_locked_until f = Some until \<and> start + BASE_LOCKOUT \<le> until)"
        using spent by (auto simp: spent_since_def)
      have few: "att_attempts f < FREE_ATTEMPTS"
      proof (rule ccontr)
        assume "\<not> att_attempts f < FREE_ATTEMPTS"
        then obtain until where "att_locked_until f = Some until" "now < until" using f(4) times(3) by fastforce
        from source_lockout_holds[of t b f until now u] this f(1) b obtain d where
          "begin_attempt t source u now = (t, Refused d)" by auto
        then show False using run by simp
      qed
      have "e = f" using kept[OF f(1,2)] by (simp add: e_def entry_or_fresh_def)
      moreover have "now - att_last_attempt f < IDLE_RESET" using f(2) times(3) by (auto simp: throttle_consts)
      ultimately have "att_attempts (spend_entry now e) = Suc (att_attempts f)" using spend_entry_counts few by simp
      then show ?thesis using few f(3) by simp
    qed
    then show ?thesis using True after get locks times(1) by (simp add: spent_since_def run)
  qed
qed

lemma run_lets_through_few:
  assumes "spent_since start a n seen t" "within start xs" "\<forall>x\<in>set xs. seen \<le> snd (snd x)"
    and "length (lt_counters t) + 2 * length xs \<le> MAX_TRACKED" "start + BASE_LOCKOUT + MAX_LOCKOUT \<le> instant_max"
  shows "n + let_through a (answers t xs) \<le> FREE_ATTEMPTS"
  using assms(1-4)
proof (induction xs arbitrary: n seen t)
  case Nil
  then show ?case by (simp add: spent_since_def)
next
  case (Cons x xs)
  obtain source u now where x: "x = (source, u, now)" by (cases x)
  let ?r = "begin_attempt t source u now"
  let ?n = "if from_source a x \<and> is_allowed (snd ?r) then Suc n else n"
  have now: "start \<le> now" "seen \<le> now" "now < start + BASE_LOCKOUT" "within start xs" "\<forall>y\<in>set xs. now \<le> snd (snd y)"
    using Cons.prems(2,3) by (auto simp: within_def x)
  have "spent_since start a ?n now (fst ?r)"
    unfolding x by (rule spent_since_step[OF Cons.prems(1) now(1-3)]) (use now(3) assms(5) Cons.prems(4) in auto)
  moreover have "length (lt_counters (fst ?r)) + 2 * length xs \<le> MAX_TRACKED"
    using length_attempt[of t source u now] Cons.prems(4) by simp
  ultimately have "?n + let_through a (answers (fst ?r) xs) \<le> FREE_ATTEMPTS"
    using Cons.IH now(4,5) by blast
  then show ?case by (cases "from_source a x \<and> is_allowed (snd ?r)") (auto simp: x Let_def)
qed

text \<open>The records of a source and of the accounts it tries, when nobody was on record before the run.\<close>

definition fresh_run :: "instant \<Rightarrow> ip_addr \<Rightarrow> string set \<Rightarrow> nat \<Rightarrow> instant \<Rightarrow> login_throttle \<Rightarrow> bool" where
  "fresh_run start a us n now t \<longleftrightarrow>
     (\<forall>k\<in>insert (Source (counted_address a)) ((\<lambda>u. Username (short_name u)) ` us).
        \<forall>e. hm_get (lt_counters t) k = Some e \<longrightarrow>
          start \<le> att_last_attempt e \<and> att_attempts e \<le> n \<and> (att_attempts e < FREE_ATTEMPTS \<longrightarrow> att_locked_until e = None))"

lemma spend_entry_unlocked: "att_attempts (spend_entry now e) < FREE_ATTEMPTS \<Longrightarrow> att_locked_until (spend_entry now e) = None"
  by (simp add: spend_entry_def Let_def)

lemma spend_entry_le: "att_attempts (spend_entry now e) \<le> Suc (att_attempts e)"
  by (auto simp: spend_entry_def Let_def sat_add_u32_def)

lemma fresh_run_allowed:
  assumes "fresh_run start a us n seen t" "n < FREE_ATTEMPTS" "u \<in> us" "counted_address b = counted_address a"
  shows "refusal t (Some b) u now = None"
proof -
  have "key_remaining (lt_counters t) now (Some k) = None"
    if "k \<in> insert (Source (counted_address a)) ((\<lambda>u. Username (short_name u)) ` us)" for k
    using assms(1,2) that unfolding fresh_run_def key_remaining_def remaining_def
    by (cases "hm_get (lt_counters t) k") force+
  then show ?thesis using assms(3,4) by (simp add: refusal_def Let_def)
qed

lemma fresh_run_step:
  assumes op: "fresh_run start a us n seen t" and n: "n < FREE_ATTEMPTS" and u: "u \<in> us" "counted_address b = counted_address a"
    and ok: "hm_ok (lt_counters t)" and now: "start \<le> now"
  shows "fresh_run start a us (Suc n) now (fst (begin_attempt t (Some b) u now))"
proof -
  let ?m = "lt_counters t" and ?ks = "keys (Some b) u"
  let ?r = "spend now ?ks (make_room ?m now) None"
  have run: "lt_counters (fst (begin_attempt t (Some b) u now)) = fst ?r"
    using begin_attempt_allowed[OF fresh_run_allowed[OF op n u]] by (simp add: Let_def)
  show ?thesis unfolding fresh_run_def run
  proof (intro ballI allI impI, goal_cases)
    case (1 k e)
    have old: "start \<le> att_last_attempt f \<and> att_attempts f \<le> n \<and> (att_attempts f < FREE_ATTEMPTS \<longrightarrow> att_locked_until f = None)"
      if "hm_get (make_room ?m now) k = Some f" for f
      using op 1(1) make_room_get[OF ok that] unfolding fresh_run_def by blast
    show ?case
    proof (cases "k \<in> set ?ks")
      case True
      then have e: "e = spend_entry now (entry_or_fresh (make_room ?m now) now k)"
        using 1(2) by (simp only: hm_get_spend distinct_keys) simp
      have "att_attempts (entry_or_fresh (make_room ?m now) now k) \<le> n"
        using old by (auto simp: entry_or_fresh_def fresh_entry_def split: option.split)
      then show ?thesis
        using now spend_entry_le[of now "entry_or_fresh (make_room ?m now) now k"] spend_entry_unlocked
        by (simp add: e)
    next
      case False
      then have "hm_get (make_room ?m now) k = Some e" using 1(2) by (simp only: hm_get_spend distinct_keys) simp
      then show ?thesis using old by fastforce
    qed
  qed
qed

lemma answers_attempts: "map fst (answers t xs) = xs"
  by (induction t xs rule: answers.induct) (auto simp: Let_def)

lemma spent_run_is_refused:
  assumes "spent_since start a n seen t" "FREE_ATTEMPTS \<le> n" "within start xs"
    and all: "\<forall>x\<in>set xs. seen \<le> snd (snd x) \<and> from_source a x"
    and "length (lt_counters t) + 2 * length xs \<le> MAX_TRACKED" "start + BASE_LOCKOUT + MAX_LOCKOUT \<le> instant_max"
  shows "map (\<lambda>(x, r). is_allowed r) (answers t xs) = replicate (length xs) False"
proof -
  have "\<forall>y\<in>set xs. seen \<le> snd (snd y)" using all by blast
  from run_lets_through_few[OF assms(1,3) this assms(5,6)] assms(2) have "let_through a (answers t xs) = 0" by linarith
  then have none: "\<not> (from_source a y \<and> is_allowed r)" if "(y, r) \<in> set (answers t xs)" for y r
    using that by (auto simp only: length_0_conv filter_empty_conv)
  have "from_source a y" if "(y, r) \<in> set (answers t xs)" for y r
  proof -
    have "y \<in> set (map fst (answers t xs))" using that by force
    then show ?thesis unfolding answers_attempts using all by blast
  qed
  with none have "map (\<lambda>(x, r). is_allowed r) (answers t xs) = map (\<lambda>_. False) (answers t xs)"
    by (intro map_cong) auto
  then show ?thesis using arg_cong[OF answers_attempts[of t xs], of length] by (simp add: map_replicate_const)
qed

lemma run_lets_the_first_through:
  assumes "fresh_run start a (fst ` snd ` set xs) n seen t" "spent_since start a n seen t" "within start xs"
    and "\<forall>x\<in>set xs. seen \<le> snd (snd x) \<and> from_source a x"
    and "length (lt_counters t) + 2 * length xs \<le> MAX_TRACKED" "start + BASE_LOCKOUT + MAX_LOCKOUT \<le> instant_max"
  shows "map (\<lambda>(x, r). is_allowed r) (answers t xs) = map (\<lambda>i. n + i < FREE_ATTEMPTS) [0..<length xs]"
  using assms(1-5)
proof (induction xs arbitrary: n seen t)
  case (Cons x xs)
  show ?case
  proof (cases "n < FREE_ATTEMPTS")
    case True
    obtain b u now where x: "x = (Some b, u, now)" and b: "counted_address b = counted_address a"
      using Cons.prems(4) by (cases x) (auto simp: from_source_def)
    let ?r = "begin_attempt t (Some b) u now"
    have now: "start \<le> now" "seen \<le> now" "now < start + BASE_LOCKOUT" "within start xs" "\<forall>y\<in>set xs. now \<le> snd (snd y)"
      using Cons.prems(3,4) by (auto simp: within_def x)
    have ok: "hm_ok (lt_counters t)" using Cons.prems(2) by (simp add: spent_since_def)
    have u: "u \<in> fst ` snd ` set (x # xs)" by (simp add: x)
    have allowed: "is_allowed (snd ?r)"
      using begin_attempt_allowed[OF fresh_run_allowed[OF Cons.prems(1) True u b]] by (simp add: Let_def)
    have "fresh_run start a (fst ` snd ` set xs) (Suc n) now (fst ?r)"
      using fresh_run_step[OF Cons.prems(1) True u b ok now(1)] by (simp add: fresh_run_def)
    moreover have "spent_since start a (Suc n) now (fst ?r)"
      using spent_since_step[OF Cons.prems(2) now(1-3), of "Some b" u] allowed now(3) assms(6) Cons.prems(4,5)
      by (simp add: x)
    moreover have "length (lt_counters (fst ?r)) + 2 * length xs \<le> MAX_TRACKED"
      using length_attempt[of t "Some b" u now] Cons.prems(5) by simp
    ultimately have "map (\<lambda>(x, r). is_allowed r) (answers (fst ?r) xs) = map (\<lambda>i. Suc n + i < FREE_ATTEMPTS) [0..<length xs]"
      using Cons.IH now(4,5) Cons.prems(4) by simp
    then show ?thesis
      using True allowed by (simp add: x Let_def upt_conv_Cons map_Suc_upt[symmetric] comp_def del: upt_Suc)
  next
    case False
    then have "map (\<lambda>(x, r). is_allowed r) (answers t (x # xs)) = replicate (length (x # xs)) False"
      using spent_run_is_refused[OF Cons.prems(2) _ Cons.prems(3,4,5) assms(6)] by simp
    moreover have "map (\<lambda>i. n + i < FREE_ATTEMPTS) [0..<length (x # xs)] = replicate (length (x # xs)) False"
      using False by (simp add: map_replicate_const del: upt_Suc)
    ultimately show ?thesis by simp
  qed
qed simp

section \<open>Properties\<close>

text \<open>
  in every state the throttle can reach, however many addresses and user names were
  tried, it tracks at most \<open>MAX_TRACKED\<close> counters, a lockout it reports is positive and never
  longer than \<open>MAX_LOCKOUT\<close>, and a refused attempt changes nothing.
\<close>

theorem throttle_bounded:
  assumes "reachable throttle_init throttle_step (now, t)"
  shows "length (lt_counters t) \<le> MAX_TRACKED \<and>
    (\<forall>t' d. begin_attempt t source u now = (t', Refused d) \<longrightarrow> t' = t \<and> 0 < d \<and> d \<le> MAX_LOCKOUT)"
proof -
  have inv: "throttle_inv (now, t)" by (rule lt.reachable_inv[OF assms])
  then show ?thesis
    by (auto simp: throttle_inv_def dest!: begin_attempt_RefusedD refusal_bounds[OF inv])
qed

theorem throttle_bounded_witness:
  "length (lt_counters new_throttle) \<le> MAX_TRACKED"
  using throttle_bounded[of 7 new_throttle, OF reach_init] by (simp add: throttle_init_def)

text \<open>
  a caller whose address has no record of its own is let through to the credential check
  whatever lockout its user name is serving, so strangers who guess at an account cannot shut
  its owner out; and a successful login leaves neither of the caller's counters behind.
\<close>

theorem owner_not_shut_out:
  assumes "hm_get (lt_counters t) (Source (counted_address a)) = None"
  shows "(\<exists>earned. snd (begin_attempt t (Some a) u now) = Allowed earned) \<and>
    (\<forall>k\<in>set (keys (Some b) v). hm_get (lt_counters (record_success t (Some b) v)) k = None)"
proof -
  have "refusal t (Some a) u now = None"
    using assms by (simp add: refusal_def key_remaining_def Let_def)
  then show ?thesis
    using begin_attempt_allowed[of t "Some a" u now]
    by (simp add: Let_def record_success_def fold_hm_remove_get[of "[_, _]", simplified] hm_simps)
qed

theorem owner_not_shut_out_witness:
  "\<exists>earned. snd (begin_attempt
     \<lparr>lt_counters = [(Username ''dave'', \<lparr>att_attempts = 9, att_last_attempt = 100,
        att_locked_until = Some (secs 60)\<rparr>)], lt_missing_source_reported = False\<rparr>
     (Some (V4 [10, 0, 0, 1])) ''dave'' (secs 1)) = Allowed earned"
  by (rule conjunct1[OF owner_not_shut_out]) (simp add: counted_address_def to_canonical_def)

text \<open>
  C28: what one source gets out of a burst. From any state the throttle can reach, and in any run of
  failing attempts within one base lockout, from whatever sources, under whatever user names and in
  whatever order, at most \<open>FREE_ATTEMPTS\<close> attempts of one source reach the credential check. If neither
  the source nor the accounts it tries are on record when the run starts and no other source takes
  part, it is exactly the first \<open>FREE_ATTEMPTS\<close>. The run must fit into the table, which holds at most
  \<open>MAX_TRACKED\<close> counters and drops the oldest ones when it is full.
\<close>

theorem burst_budget:
  assumes "reachable throttle_init throttle_step (start, t)"
    and "within start xs" and "start + BASE_LOCKOUT + MAX_LOCKOUT \<le> instant_max"
    and "length (lt_counters t) + 2 * length xs \<le> MAX_TRACKED"
  shows "length (filter (\<lambda>(x, r). from_source a x \<and> is_allowed r) (answers t xs)) \<le> FREE_ATTEMPTS \<and>
    ((\<forall>(source, u, now)\<in>set xs. \<exists>b. source = Some b \<and> counted_address b = counted_address a \<and>
        (\<forall>k\<in>set (keys (Some a) u). hm_get (lt_counters t) k = None)) \<longrightarrow>
     map (\<lambda>(x, r). is_allowed r) (answers t xs) = map (\<lambda>i. i < FREE_ATTEMPTS) [0..<length xs])"
proof -
  have "throttle_inv (start, t)" by (rule lt.reachable_inv[OF assms(1)])
  then have spent: "spent_since start a 0 start t" by (simp add: spent_since_def throttle_inv_def)
  have times: "\<forall>x\<in>set xs. start \<le> snd (snd x)" using assms(2) by (simp add: within_def)
  have "map (\<lambda>(x, r). is_allowed r) (answers t xs) = map (\<lambda>i. 0 + i < FREE_ATTEMPTS) [0..<length xs]"
    if fresh: "\<forall>(source, u, now)\<in>set xs. \<exists>b. source = Some b \<and> counted_address b = counted_address a \<and>
        (\<forall>k\<in>set (keys (Some a) u). hm_get (lt_counters t) k = None)" and "xs \<noteq> []"
  proof (rule run_lets_the_first_through[OF _ spent assms(2) _ assms(4,3)])
    have "hm_get (lt_counters t) (Source (counted_address a)) = None" using fresh \<open>xs \<noteq> []\<close> by (cases xs) auto
    then show "fresh_run start a (fst ` snd ` set xs) 0 start t" using fresh by (force simp: fresh_run_def)
    show "\<forall>x\<in>set xs. start \<le> snd (snd x) \<and> from_source a x" using fresh times by (auto simp: from_source_def)
  qed
  then show ?thesis using run_lets_through_few[OF spent assms(2) times assms(4,3)] by (cases "xs = []") auto
qed

theorem burst_budget_witness:
  "map (\<lambda>(x, r). is_allowed r) (answers new_throttle
     (map (\<lambda>u. (Some (V4 [10, 0, 0, 1]), u, secs 1)) [''a'', ''a'', ''b'', ''a'', ''c'', ''d'', ''a''])) =
   [True, True, True, True, True, False, False]"
proof -
  let ?xs = "map (\<lambda>u. (Some (V4 [10, 0, 0, 1]), u, secs 1)) [''a'', ''a'', ''b'', ''a'', ''c'', ''d'', ''a'']"
  have "reachable throttle_init throttle_step (secs 1, new_throttle)"
    by (rule reach_init) (simp add: throttle_init_def)
  moreover have "within (secs 1) ?xs" by (simp add: within_def throttle_consts)
  ultimately have "map (\<lambda>(x, r). is_allowed r) (answers new_throttle ?xs) = map (\<lambda>i. i < FREE_ATTEMPTS) [0..<length ?xs]"
    using burst_budget[of "secs 1" new_throttle ?xs "V4 [10, 0, 0, 1]"]
    by (simp add: instant_max_def throttle_consts MAX_TRACKED_def new_throttle_def del: upt_Suc)
  then show ?thesis by (simp add: FREE_ATTEMPTS_def upt_rec)
qed

end
