(* ===== verification/Api_Model.thy ===== *)
theory Api_Model
  imports Prelude
begin

text \<open>
  The wire vocabulary (\<^verbatim>\<open>crates/api-model/src/lib.rs\<close>): capabilities, results, task views,
  events and frames, with the constructors and fields of the source. The commands are in
  \<^verbatim>\<open>Command_Model\<close>.

  The type parameter \<open>'j\<close> stands for the payload types that no modelled operation looks
  into: \<^verbatim>\<open>serde_json::Value\<close> and the settings, personality and knowledge views. A \<^verbatim>\<open>Secret\<close> is
  the string it wraps. Integer fields that only pass through are \<open>nat\<close> or \<open>int\<close>.
\<close>

section \<open>Capabilities\<close>

datatype capability = Tenant | Admin | OtherCapability string

fun permits :: "capability \<Rightarrow> capability \<Rightarrow> bool" where
  "permits Admin Admin = True"
| "permits Admin Tenant = True"
| "permits Tenant Tenant = True"
| "permits Tenant Admin = False"
| "permits (OtherCapability _) Tenant = False"
| "permits (OtherCapability _) Admin = False"
| "permits (OtherCapability _) (OtherCapability _) = False"
| "permits Tenant (OtherCapability _) = False"
| "permits Admin (OtherCapability _) = False"

fun rank :: "capability \<Rightarrow> nat" where
  "rank Tenant = 0"
| "rank (OtherCapability _) = 0"
| "rank Admin = 1"

definition strongest :: "capability \<Rightarrow> capability \<Rightarrow> capability" where
  "strongest self other = (if rank self < rank other then other else self)"

fun capability_as_str :: "capability \<Rightarrow> string" where
  "capability_as_str Tenant = ''tenant''"
| "capability_as_str Admin = ''admin''"
| "capability_as_str (OtherCapability level) = level"

fun capability_label :: "capability \<Rightarrow> string" where
  "capability_label Tenant = ''tenant''"
| "capability_label Admin = ''administrator''"
| "capability_label (OtherCapability level) = level"

definition capability_from_string :: "string \<Rightarrow> capability" where
  "capability_from_string value =
     (if value = ''tenant'' then Tenant
      else if value = ''admin'' then Admin
      else OtherCapability value)"

fun capability_to_string :: "capability \<Rightarrow> string" where
  "capability_to_string (OtherCapability level) = level"
| "capability_to_string known = capability_as_str known"

section \<open>Client context\<close>

record client_context =
  cc_real_name :: "string option"
  cc_username :: "string option"
  cc_home_dir :: "string option"
  cc_hostname :: "string option"
  cc_timezone :: "string option"
  cc_os :: "string option"

definition client_context_is_empty :: "client_context \<Rightarrow> bool" where
  "client_context_is_empty c \<longleftrightarrow>
     cc_real_name c = None \<and> cc_username c = None \<and> cc_home_dir c = None \<and>
     cc_hostname c = None \<and> cc_timezone c = None \<and> cc_os c = None"

section \<open>Background tasks\<close>

type_synonym task_id = string

datatype task_kind =
    ConversationKind string
  | SubagentKind (sub_parent: task_id) (sub_conversation: string) (sub_name: string)
      (sub_session: string) (sub_notify: bool)
  | StandaloneKind string string
  | MaintenanceKind string

datatype task_status = Pending | Running | Completed | Failed | Cancelled

record task_view =
  tv_id :: task_id
  tv_kind :: task_kind
  tv_status :: task_status
  tv_started_at :: int
  tv_ended_at :: "int option"
  tv_last_error :: "string option"
  tv_parent :: "task_id option"
  tv_children :: "task_id list"
  tv_title :: string
  tv_progress_hint :: "string option"
  tv_owner_todo :: string
  tv_spawn_marker :: "string option"

datatype log_level = LogInfo | LogWarn | LogError

datatype log_category = ModelTurn | ToolCall | ToolResult | StatusCategory | Lifecycle

record 'j task_log_entry =
  le_seq :: nat
  le_timestamp :: int
  le_level :: log_level
  le_category :: log_category
  le_message :: string
  le_data :: "'j option"

section \<open>Results, events and frames\<close>

record 'j config =
  cfg_embeddings :: 'j
  cfg_personality :: 'j
  cfg_restart_required :: "string list"
  cfg_caller_capability :: "capability option"

datatype 'j event =
    ConfigChanged "'j config"
  | AssistantStatus string string string "'j option"
  | ContextUsage string string nat nat bool
  | UserMessageAdded string string string "string option"
  | AssistantDelta string string string
  | AssistantCompleted string string string
  | AssistantError string string string
  | ConversationTitleChanged string string
  | ConversationListChanged string
  | ConversationWarningEmitted string 'j
  | TaskStarted task_view
  | TaskProgress string "string option"
  | TaskLogAppended string "'j task_log_entry"
  | TaskCompleted string task_status "string option"
  | ScratchpadChanged string
  | KnowledgeChanged
  | ClientToolCall task_id string string string 'j

text \<open>
  The results the dispatcher itself builds or stamps; \<open>HandlerResult\<close> stands for the
  variants it only passes on.
\<close>

datatype 'j command_result =
    ConfigResult "'j config"
  | SendMessageAck string string
  | Ack
  | HandlerResult 'j

datatype error_code =
    NotAuthorized
  | UnsupportedCode
  | NotFoundCode
  | AlreadyTerminalCode
  | OtherCode string

fun error_code_as_str :: "error_code \<Rightarrow> string" where
  "error_code_as_str NotAuthorized = ''not_authorized''"
| "error_code_as_str UnsupportedCode = ''unsupported''"
| "error_code_as_str NotFoundCode = ''not_found''"
| "error_code_as_str AlreadyTerminalCode = ''already_terminal''"
| "error_code_as_str (OtherCode code) = code"

definition error_code_from_string :: "string \<Rightarrow> error_code" where
  "error_code_from_string value =
     (if value = ''not_authorized'' then NotAuthorized
      else if value = ''unsupported'' then UnsupportedCode
      else if value = ''not_found'' then NotFoundCode
      else if value = ''already_terminal'' then AlreadyTerminalCode
      else OtherCode value)"

record error_detail =
  ed_code :: error_code
  ed_description :: string
  ed_message :: string
  ed_retryable :: bool

datatype 'j ws_frame =
    ResultFrame string "'j command_result"
  | ErrorFrame string string "error_detail option"
  | EventFrame "'j event"

fun frame_request_id :: "'j ws_frame \<Rightarrow> string option" where
  "frame_request_id (ResultFrame i _) = Some i"
| "frame_request_id (ErrorFrame i _ _) = Some i"
| "frame_request_id (EventFrame _) = None"

definition frame_error :: "string \<Rightarrow> string \<Rightarrow> 'j ws_frame" where
  "frame_error i message = ErrorFrame i message None"

definition frame_declined :: "string \<Rightarrow> error_detail \<Rightarrow> 'j ws_frame" where
  "frame_declined i detail = ErrorFrame i (ed_description detail) (Some detail)"

section \<open>Facts about the vocabulary\<close>

lemma permits_rank: "permits held required \<Longrightarrow> rank required \<le> rank held"
  by (cases held; cases required) auto

lemma permits_iff:
  "permits held required \<longleftrightarrow>
     (required = Tenant \<and> (held = Tenant \<or> held = Admin)) \<or> (required = Admin \<and> held = Admin)"
  by (cases held; cases required) auto

lemma strongest_Admin: "strongest a b = Admin \<longleftrightarrow> a = Admin \<or> b = Admin"
  by (cases a; cases b) (auto simp: strongest_def)

lemma capability_roundtrip: "capability_from_string (capability_to_string c) = c \<or>
    (\<exists>l. c = OtherCapability l \<and> (l = ''tenant'' \<or> l = ''admin''))"
  by (cases c) (auto simp: capability_from_string_def)

lemma capability_string_roundtrip: "capability_to_string (capability_from_string s) = s"
  by (simp add: capability_from_string_def)

lemma error_code_string_roundtrip: "error_code_as_str (error_code_from_string s) = s"
  by (simp add: error_code_from_string_def)

end
