(* ===== verification/Command_Model.thy ===== *)
theory Command_Model
  imports Api_Model
begin

text \<open>
  The command vocabulary (\<^verbatim>\<open>crates/api-model/src/lib.rs\<close>, \<^verbatim>\<open>Command\<close>, \<^verbatim>\<open>ConfigChanges\<close> and
  \<^verbatim>\<open>WsRequest\<close>): every command a client can send, with its fields in the source's order.
\<close>

section \<open>Commands\<close>

record 'j config_changes =
  embeddings_connector :: "string option"
  embeddings_model :: "string option"
  embeddings_base_url :: "string option"
  personality_professionalism :: "'j option"
  personality_warmth :: "'j option"
  personality_directness :: "'j option"
  personality_enthusiasm :: "'j option"
  personality_humor :: "'j option"
  personality_sarcasm :: "'j option"
  personality_pretentiousness :: "'j option"

datatype (plugins only:) 'j command =
    Ping
  | GetStatus
  | GetConfig
  | SetConfig "'j config_changes"
  | CreateConversation string "string list"
  | ListConversations "nat option" bool
  | GetConversation string
  | GetMessages string int int "string list"
  | DeleteConversation string
  | RenameConversation string string
  | ArchiveConversation string
  | UnarchiveConversation string
  | ClearAllHistory
  | SendMessage string string "'j option" string "client_context option" "string option" "string option"
      "string option"
  | SetConversationPersonality string 'j
  | SetConversationToolGate string bool
  | SetApiKey string
  | GetEmbeddingsSettings
  | SetEmbeddingsSettings "string option" "string option" "string option"
  | GetConnectorDefaults string
  | GetDatabaseSettings
  | SetDatabaseSettings string nat
  | GetBackendTasksSettings
  | SetBackendTasksSettings string string string bool nat nat
  | GetWsAuthSettings
  | SetWsAuthSettings "string list" string string string string string
  | ListConnections
  | CreateConnection string 'j
  | UpdateConnection string 'j
  | DeleteConnection string bool
  | SetConnectionSecret string string
  | ListAvailableModels "string option" bool
  | GetPurposes
  | SetPurpose 'j 'j
  | GetToolUsage string
  | ListContextBreakdowns string nat nat
  | GetContextBreakdown string
  | ListKnowledgeEntries nat nat "string list option"
  | GetKnowledgeEntry string
  | SearchKnowledgeEntries string "string list option" nat
  | CreateKnowledgeEntry string "string list" 'j
  | UpdateKnowledgeEntry string string "string list" 'j
  | DeleteKnowledgeEntry string
  | GetKnowledgeTrashCount
  | EmptyKnowledgeTrash
  | StartKnowledgeMaintenance 'j
  | ListMcpServers
  | AddMcpServer string string "string list" "string option" bool
  | RemoveMcpServer string
  | SetMcpServerEnabled string bool
  | McpServerAction string "string option"
  | UpsertMcpServer string
  | SetMcpSecret string string
  | ListServiceAccounts
  | UpsertServiceAccount string
  | RemoveServiceAccount string
  | ListBackgroundTasks bool "nat option"
  | GetBackgroundTask string
  | CancelBackgroundTask string
  | GetBackgroundTaskLogs string "nat option" "nat option"
  | SubscribeBackgroundTasks
  | UnsubscribeBackgroundTasks
  | SubscribeConversations "string list"
  | SpawnStandaloneAgent string string "'j option" "string list option"
  | GetConversationScratchpad string "nat option"
  | SetScratchpadNote string string string string "int option" bool
  | DeleteScratchpadNotes string "string list" bool
  | RegisterClientTools "'j list"
  | ClientToolResult string string "string option" "string option"
  | ListNegativeMemories
  | GetNegativeMemory string
  | ClearNegativeMemory string "string option"
  | ListSkills "nat option"
  | SetSkillApproval string bool

record 'j ws_request =
  rq_id :: string
  rq_command :: "'j command"

end
