(* ===== verification/Authz.thy ===== *)
theory Authz
  imports Command_Model
begin

text \<open>
  The authorization tier (\<^verbatim>\<open>crates/transport-dispatch/src/authz.rs\<close>): who may change how the
  service runs. The allowlist of administrators, the local-peer grant, the capability each
  command costs, and the capability stamped on a reply. The gate that consults them is the
  dispatch loop (\<^verbatim>\<open>Dispatch\<close>).
\<close>

section \<open>The allowlist\<close>

definition DEFAULT_USER_ID :: string where
  "DEFAULT_USER_ID = ''default''"

definition REFUSAL_PREFIX :: string where
  "REFUSAL_PREFIX = ''not authorized:''"

type_synonym admin_subjects = "string set"

definition admin_subjects_new :: "string list \<Rightarrow> admin_subjects" where
  "admin_subjects_new subjects =
     set (filter (\<lambda>s. s \<noteq> DEFAULT_USER_ID) (filter (\<lambda>s. s \<noteq> []) (map trim subjects)))"

definition admin_subjects_is_empty :: "admin_subjects \<Rightarrow> bool" where
  "admin_subjects_is_empty subjects \<longleftrightarrow> subjects = {}"

definition admin_subjects_len :: "admin_subjects \<Rightarrow> nat" where
  "admin_subjects_len subjects = card subjects"

definition capability_for :: "admin_subjects \<Rightarrow> string \<Rightarrow> capability" where
  "capability_for subjects subject =
     (let subject = trim subject
      in if subject \<noteq> [] \<and> subject \<in> subjects then Admin else Tenant)"

definition capability_for_local_peer :: "nat \<Rightarrow> nat \<Rightarrow> capability" where
  "capability_for_local_peer peer_uid daemon_uid =
     (if peer_uid = daemon_uid then Admin else Tenant)"

section \<open>What a command costs\<close>

definition config_changes_capability :: "'j config_changes \<Rightarrow> capability" where
  "config_changes_capability changes =
     (let touches_service_config =
            embeddings_connector changes \<noteq> None
            \<or> embeddings_model changes \<noteq> None
            \<or> embeddings_base_url changes \<noteq> None
            \<or> personality_professionalism changes \<noteq> None
            \<or> personality_warmth changes \<noteq> None
            \<or> personality_directness changes \<noteq> None
            \<or> personality_enthusiasm changes \<noteq> None
            \<or> personality_humor changes \<noteq> None
            \<or> personality_sarcasm changes \<noteq> None
            \<or> personality_pretentiousness changes \<noteq> None
      in if touches_service_config then Admin else Tenant)"

definition mcp_action_capability :: "string \<Rightarrow> capability" where
  "mcp_action_capability action = (if action = ''status'' then Tenant else Admin)"

definition classify :: "'j command \<Rightarrow> string \<times> capability" where
  "classify cmd =
     (case cmd of
        Ping \<Rightarrow> (''ping'', Tenant)
      | GetStatus \<Rightarrow> (''get_status'', Tenant)
      | GetConfig \<Rightarrow> (''get_config'', Tenant)
      | SetConfig changes \<Rightarrow> (''set_config'', config_changes_capability changes)
      | CreateConversation _ _ \<Rightarrow> (''create_conversation'', Tenant)
      | ListConversations _ _ \<Rightarrow> (''list_conversations'', Tenant)
      | GetConversation _ \<Rightarrow> (''get_conversation'', Tenant)
      | GetMessages _ _ _ _ \<Rightarrow> (''get_messages'', Tenant)
      | DeleteConversation _ \<Rightarrow> (''delete_conversation'', Tenant)
      | RenameConversation _ _ \<Rightarrow> (''rename_conversation'', Tenant)
      | ArchiveConversation _ \<Rightarrow> (''archive_conversation'', Tenant)
      | UnarchiveConversation _ \<Rightarrow> (''unarchive_conversation'', Tenant)
      | ClearAllHistory \<Rightarrow> (''clear_all_history'', Tenant)
      | SendMessage _ _ _ _ _ _ _ _ \<Rightarrow> (''send_message'', Tenant)
      | SetConversationPersonality _ _ \<Rightarrow> (''set_conversation_personality'', Tenant)
      | SetConversationToolGate _ _ \<Rightarrow> (''set_conversation_tool_gate'', Tenant)
      | SetApiKey _ \<Rightarrow> (''set_api_key'', Admin)
      | GetEmbeddingsSettings \<Rightarrow> (''get_embeddings_settings'', Tenant)
      | SetEmbeddingsSettings _ _ _ \<Rightarrow> (''set_embeddings_settings'', Admin)
      | GetConnectorDefaults _ \<Rightarrow> (''get_connector_defaults'', Tenant)
      | GetDatabaseSettings \<Rightarrow> (''get_database_settings'', Tenant)
      | SetDatabaseSettings _ _ \<Rightarrow> (''set_database_settings'', Admin)
      | GetBackendTasksSettings \<Rightarrow> (''get_backend_tasks_settings'', Tenant)
      | SetBackendTasksSettings _ _ _ _ _ _ \<Rightarrow> (''set_backend_tasks_settings'', Admin)
      | GetWsAuthSettings \<Rightarrow> (''get_ws_auth_settings'', Tenant)
      | SetWsAuthSettings _ _ _ _ _ _ \<Rightarrow> (''set_ws_auth_settings'', Admin)
      | ListConnections \<Rightarrow> (''list_connections'', Tenant)
      | CreateConnection _ _ \<Rightarrow> (''create_connection'', Admin)
      | UpdateConnection _ _ \<Rightarrow> (''update_connection'', Admin)
      | DeleteConnection _ _ \<Rightarrow> (''delete_connection'', Admin)
      | SetConnectionSecret _ _ \<Rightarrow> (''set_connection_secret'', Admin)
      | ListAvailableModels _ _ \<Rightarrow> (''list_available_models'', Tenant)
      | GetPurposes \<Rightarrow> (''get_purposes'', Tenant)
      | SetPurpose _ _ \<Rightarrow> (''set_purpose'', Admin)
      | GetToolUsage _ \<Rightarrow> (''get_tool_usage'', Tenant)
      | ListContextBreakdowns _ _ _ \<Rightarrow> (''list_context_breakdowns'', Tenant)
      | GetContextBreakdown _ \<Rightarrow> (''get_context_breakdown'', Tenant)
      | ListKnowledgeEntries _ _ _ \<Rightarrow> (''list_knowledge_entries'', Tenant)
      | GetKnowledgeEntry _ \<Rightarrow> (''get_knowledge_entry'', Tenant)
      | SearchKnowledgeEntries _ _ _ \<Rightarrow> (''search_knowledge_entries'', Tenant)
      | CreateKnowledgeEntry _ _ _ \<Rightarrow> (''create_knowledge_entry'', Tenant)
      | UpdateKnowledgeEntry _ _ _ _ \<Rightarrow> (''update_knowledge_entry'', Tenant)
      | DeleteKnowledgeEntry _ \<Rightarrow> (''delete_knowledge_entry'', Tenant)
      | GetKnowledgeTrashCount \<Rightarrow> (''get_knowledge_trash_count'', Tenant)
      | EmptyKnowledgeTrash \<Rightarrow> (''empty_knowledge_trash'', Tenant)
      | StartKnowledgeMaintenance _ \<Rightarrow> (''start_knowledge_maintenance'', Admin)
      | ListMcpServers \<Rightarrow> (''list_mcp_servers'', Tenant)
      | AddMcpServer _ _ _ _ _ \<Rightarrow> (''add_mcp_server'', Admin)
      | RemoveMcpServer _ \<Rightarrow> (''remove_mcp_server'', Admin)
      | SetMcpServerEnabled _ _ \<Rightarrow> (''set_mcp_server_enabled'', Admin)
      | McpServerAction action _ \<Rightarrow> (''mcp_server_action'', mcp_action_capability action)
      | UpsertMcpServer _ \<Rightarrow> (''upsert_mcp_server'', Admin)
      | SetMcpSecret _ _ \<Rightarrow> (''set_mcp_secret'', Admin)
      | ListServiceAccounts \<Rightarrow> (''list_service_accounts'', Tenant)
      | UpsertServiceAccount _ \<Rightarrow> (''upsert_service_account'', Admin)
      | RemoveServiceAccount _ \<Rightarrow> (''remove_service_account'', Admin)
      | ListBackgroundTasks _ _ \<Rightarrow> (''list_background_tasks'', Tenant)
      | GetBackgroundTask _ \<Rightarrow> (''get_background_task'', Tenant)
      | CancelBackgroundTask _ \<Rightarrow> (''cancel_background_task'', Tenant)
      | GetBackgroundTaskLogs _ _ _ \<Rightarrow> (''get_background_task_logs'', Tenant)
      | SubscribeBackgroundTasks \<Rightarrow> (''subscribe_background_tasks'', Tenant)
      | UnsubscribeBackgroundTasks \<Rightarrow> (''unsubscribe_background_tasks'', Tenant)
      | SubscribeConversations _ \<Rightarrow> (''subscribe_conversations'', Tenant)
      | SpawnStandaloneAgent _ _ _ _ \<Rightarrow> (''spawn_standalone_agent'', Tenant)
      | GetConversationScratchpad _ _ \<Rightarrow> (''get_conversation_scratchpad'', Tenant)
      | SetScratchpadNote _ _ _ _ _ _ \<Rightarrow> (''set_scratchpad_note'', Tenant)
      | DeleteScratchpadNotes _ _ _ \<Rightarrow> (''delete_scratchpad_notes'', Tenant)
      | RegisterClientTools _ \<Rightarrow> (''register_client_tools'', Tenant)
      | ClientToolResult _ _ _ _ \<Rightarrow> (''client_tool_result'', Tenant)
      | ListNegativeMemories \<Rightarrow> (''list_negative_memories'', Tenant)
      | GetNegativeMemory _ \<Rightarrow> (''get_negative_memory'', Tenant)
      | ClearNegativeMemory _ _ \<Rightarrow> (''clear_negative_memory'', Tenant)
      | ListSkills _ \<Rightarrow> (''list_skills'', Tenant)
      | SetSkillApproval _ _ \<Rightarrow> (''set_skill_approval'', Tenant))"

definition required_capability :: "'j command \<Rightarrow> capability" where
  "required_capability cmd = snd (classify cmd)"

definition command_name :: "'j command \<Rightarrow> string" where
  "command_name cmd = fst (classify cmd)"

section \<open>Capabilities on replies\<close>

fun stamp_caller_capability :: "'j command_result \<Rightarrow> capability \<Rightarrow> 'j command_result" where
  "stamp_caller_capability (ConfigResult config) held =
     ConfigResult (config\<lparr>cfg_caller_capability := Some held\<rparr>)"
| "stamp_caller_capability result held = result"

definition with_caller_capability :: "'j config \<Rightarrow> capability \<Rightarrow> 'j config" where
  "with_caller_capability config held = config\<lparr>cfg_caller_capability := Some held\<rparr>"

definition READ_ANY_USER_TURN_RECORDS :: capability where
  "READ_ANY_USER_TURN_RECORDS = Admin"

definition may_read_any_user_turn_records :: "capability \<Rightarrow> bool" where
  "may_read_any_user_turn_records held = permits held READ_ANY_USER_TURN_RECORDS"

section \<open>Facts\<close>

lemma capability_for_new:
  "capability_for (admin_subjects_new subjects) s = Admin \<longleftrightarrow>
     trim s \<noteq> [] \<and> trim s \<noteq> DEFAULT_USER_ID \<and> (\<exists>t\<in>set subjects. trim t = trim s)"
  by (auto simp: capability_for_def admin_subjects_new_def Let_def image_iff)

lemma mcp_action_capability_cases: "mcp_action_capability a \<in> {Tenant, Admin}"
  by (simp add: mcp_action_capability_def)

lemma config_changes_capability_cases: "config_changes_capability c \<in> {Tenant, Admin}"
  by (simp add: config_changes_capability_def Let_def)

lemma required_capability_cases: "required_capability cmd \<in> {Tenant, Admin}"
  using mcp_action_capability_cases config_changes_capability_cases
  by (cases cmd) (auto simp: required_capability_def classify_def)

end
