(* ===== verification/Conversation_Subs.thy ===== *)
theory Conversation_Subs
  imports Api_Model
begin

text \<open>
  Live multi-client sync (\<^verbatim>\<open>crates/application/src/conversation_subs.rs\<close>): which connections
  view which conversations, and the fan-out of a turn's events to the other connections of
  the same user that view it.

  A sink (\<^verbatim>\<open>Arc<dyn EventSink>\<close>) is an identity of type \<open>'k\<close>. What emitting does is the
  sink's own business: the parameter \<open>emit\<close> runs it on a world of type \<open>'w\<close> and says
  whether the connection took the event. The change observer is a function on the same
  world. Each method takes the registry lock once, so it is one function on the registry.
\<close>

section \<open>The registry\<close>

type_synonym ('k, 'j, 'w) emitter = "'k \<Rightarrow> 'j event \<Rightarrow> 'w \<Rightarrow> 'w \<times> bool"
type_synonym 'w change_observer = "string \<Rightarrow> string list \<Rightarrow> 'w \<Rightarrow> 'w"

record ('k, 'w) conv_subs =
  cs_sinks :: "(string, 'k) hashmap"
  cs_subscribed :: "(string, string set) hashmap"
  cs_users :: "(string, string) hashmap"
  cs_observer :: "'w change_observer option"

definition subs_new :: "('k, 'w) conv_subs" where
  "subs_new = \<lparr>cs_sinks = [], cs_subscribed = [], cs_users = [], cs_observer = None\<rparr>"

definition register :: "string \<Rightarrow> string \<Rightarrow> 'k \<Rightarrow> ('k, 'w) conv_subs \<Rightarrow> ('k, 'w) conv_subs" where
  "register session_id user_id sink s =
     s\<lparr>cs_sinks := hm_insert session_id sink (cs_sinks s),
       cs_users := hm_insert session_id user_id (cs_users s)\<rparr>"

definition set_change_observer ::
  "'w change_observer \<Rightarrow> ('k, 'w) conv_subs \<Rightarrow> ('k, 'w) conv_subs" where
  "set_change_observer observer s = s\<lparr>cs_observer := Some observer\<rparr>"

definition notify_observer :: "('k, 'w) conv_subs \<Rightarrow> string \<Rightarrow> string list \<Rightarrow> 'w \<Rightarrow> 'w" where
  "notify_observer s session_id ids w =
     (case cs_observer s of None \<Rightarrow> w | Some observer \<Rightarrow> observer session_id ids w)"

definition unregister ::
  "string \<Rightarrow> ('k, 'w) conv_subs \<times> 'w \<Rightarrow> ('k, 'w) conv_subs \<times> 'w" where
  "unregister session_id sw =
     (case sw of (s, w) \<Rightarrow>
        (s\<lparr>cs_sinks := hm_remove session_id (cs_sinks s),
           cs_subscribed := hm_remove session_id (cs_subscribed s),
           cs_users := hm_remove session_id (cs_users s)\<rparr>,
         notify_observer s session_id [] w))"

definition set_subscriptions ::
  "string \<Rightarrow> string list \<Rightarrow> ('k, 'w) conv_subs \<times> 'w \<Rightarrow> ('k, 'w) conv_subs \<times> 'w" where
  "set_subscriptions session_id conversation_ids sw =
     (case sw of (s, w) \<Rightarrow>
        (s\<lparr>cs_subscribed := hm_insert session_id (set conversation_ids) (cs_subscribed s)\<rparr>,
         notify_observer s session_id conversation_ids w))"

section \<open>Fan-out\<close>

definition subscribers_except ::
  "('k, 'w) conv_subs \<Rightarrow> string \<Rightarrow> string \<Rightarrow> string \<Rightarrow> 'k list" where
  "subscribers_except s conversation_id origin_session origin_user =
     List.map_filter (\<lambda>(session, _). hm_get (cs_sinks s) session)
       (filter (\<lambda>(session, convs).
            session \<noteq> origin_session \<and> conversation_id \<in> convs
            \<and> hm_get (cs_users s) session = Some origin_user)
          (cs_subscribed s))"

fun emit_all :: "('k, 'j, 'w) emitter \<Rightarrow> 'k list \<Rightarrow> 'j event \<Rightarrow> 'w \<Rightarrow> 'w" where
  "emit_all emit [] event w = w"
| "emit_all emit (sink # sinks) event w = emit_all emit sinks event (fst (emit sink event w))"

definition route ::
  "('k, 'j, 'w) emitter \<Rightarrow> ('k, 'w) conv_subs \<Rightarrow> string \<Rightarrow> 'j event \<Rightarrow> string \<Rightarrow> string \<Rightarrow>
   'w \<Rightarrow> 'w" where
  "route emit s conversation_id event origin_session origin_user w =
     emit_all emit (subscribers_except s conversation_id origin_session origin_user) event w"

definition sinks_for_user :: "('k, 'w) conv_subs \<Rightarrow> string \<Rightarrow> 'k list" where
  "sinks_for_user s user =
     List.map_filter (\<lambda>(session, _). hm_get (cs_sinks s) session)
       (filter (\<lambda>(_, owner). owner = user) (cs_users s))"

definition broadcast_to_user ::
  "('k, 'j, 'w) emitter \<Rightarrow> ('k, 'w) conv_subs \<Rightarrow> 'j event \<Rightarrow> string \<Rightarrow> 'w \<Rightarrow> 'w" where
  "broadcast_to_user emit s event user w = emit_all emit (sinks_for_user s user) event w"

fun turn_event_conversation_id :: "'j event \<Rightarrow> string option" where
  "turn_event_conversation_id (UserMessageAdded c _ _ _) = Some c"
| "turn_event_conversation_id (AssistantDelta c _ _) = Some c"
| "turn_event_conversation_id (AssistantCompleted c _ _) = Some c"
| "turn_event_conversation_id (AssistantError c _ _) = Some c"
| "turn_event_conversation_id (AssistantStatus c _ _ _) = Some c"
| "turn_event_conversation_id _ = None"

record 'k fan_out_sink =
  fo_inner :: 'k
  fo_origin_session :: string
  fo_origin_user :: string

definition fan_out_emit ::
  "('k, 'j, 'w) emitter \<Rightarrow> ('k, 'w) conv_subs \<Rightarrow> 'k fan_out_sink \<Rightarrow> 'j event \<Rightarrow> 'w \<Rightarrow>
   'w \<times> bool" where
  "fan_out_emit emit s f event w =
     (let w = (case turn_event_conversation_id event of None \<Rightarrow> w
               | Some conversation_id \<Rightarrow>
                   route emit s conversation_id event (fo_origin_session f) (fo_origin_user f) w)
      in emit (fo_inner f) event w)"

section \<open>The registry as a state machine\<close>

text \<open>
  A session has an owner exactly when it has a sink. The steps are the four methods that
  change the registry.
\<close>

inductive subs_step :: "('k, 'w) conv_subs \<times> 'w \<Rightarrow> ('k, 'w) conv_subs \<times> 'w \<Rightarrow> bool" where
  register_step: "subs_step (s, w) (register sess u k s, w)"
| observer_step: "subs_step (s, w) (set_change_observer f s, w)"
| unregister_step: "subs_step sw (unregister sess sw)"
| subscribe_step: "subs_step sw (set_subscriptions sess ids sw)"

definition subs_init :: "('k, 'w) conv_subs \<times> 'w \<Rightarrow> bool" where
  "subs_init sw \<longleftrightarrow> fst sw = subs_new"

definition subs_inv :: "('k, 'w) conv_subs \<times> 'w \<Rightarrow> bool" where
  "subs_inv sw \<longleftrightarrow>
     (case sw of (s, w) \<Rightarrow>
        hm_ok (cs_sinks s) \<and> hm_ok (cs_subscribed s) \<and> hm_ok (cs_users s) \<and>
        (\<forall>sess. hm_get (cs_sinks s) sess = None \<longleftrightarrow> hm_get (cs_users s) sess = None))"

lemmas subs_defs = register_def set_change_observer_def unregister_def set_subscriptions_def

interpretation cs: invariant_system subs_init subs_step subs_inv
proof
  fix s :: "('k, 'w) conv_subs \<times> 'w" assume "subs_init s"
  then show "subs_inv s" by (cases s) (simp add: subs_init_def subs_inv_def subs_new_def)
next
  fix s t :: "('k, 'w) conv_subs \<times> 'w" assume inv: "subs_inv s" and "subs_step s t"
  from this(2) inv show "subs_inv t"
    by cases (auto simp: subs_inv_def subs_defs hm_simps split: prod.splits)
qed

section \<open>Facts about fan-out\<close>

lemma subscribers_except_set:
  assumes "hm_ok (cs_subscribed s)"
  shows "set (subscribers_except s c os ou) =
    {k. \<exists>sess convs. hm_get (cs_sinks s) sess = Some k \<and> hm_get (cs_subscribed s) sess = Some convs \<and>
        sess \<noteq> os \<and> c \<in> convs \<and> hm_get (cs_users s) sess = Some ou}"
  using assms by (auto simp: subscribers_except_def set_map_filter hm_in_iff_get)

lemma sinks_for_user_set:
  assumes "hm_ok (cs_users s)"
  shows "set (sinks_for_user s u) =
    {k. \<exists>sess. hm_get (cs_sinks s) sess = Some k \<and> hm_get (cs_users s) sess = Some u}"
  using assms by (auto simp: sinks_for_user_def set_map_filter hm_in_iff_get)

text \<open>When no two sessions share a sink, each viewer is served once.\<close>

lemma distinct_map_filter_get:
  assumes "distinct (map fst xs)" "inj_on (hm_get m) {k. hm_get m k \<noteq> None}"
  shows "distinct (List.map_filter (\<lambda>(k, _). hm_get m k) xs)"
  using assms(1)
proof (induction xs)
  case (Cons x xs)
  obtain k v where x: "x = (k, v)" by (cases x)
  have "y \<notin> set (List.map_filter (\<lambda>(k, _). hm_get m k) xs)" if "hm_get m k = Some y" for y
  proof
    assume "y \<in> set (List.map_filter (\<lambda>(k, _). hm_get m k) xs)"
    then obtain k' v' where k': "(k', v') \<in> set xs" "hm_get m k' = Some y"
      by (auto simp: set_map_filter)
    then have "k' = k" using inj_onD[OF assms(2), of k' k] that by simp
    then show False using k'(1) Cons.prems x by (auto simp: image_iff)
  qed
  then show ?case using Cons x by (auto simp: map_filter_simps split: option.splits)
qed (simp add: map_filter_simps)

lemma distinct_subscribers_except:
  assumes "hm_ok (cs_subscribed s)" "inj_on (hm_get (cs_sinks s)) {k. hm_get (cs_sinks s) k \<noteq> None}"
  shows "distinct (subscribers_except s c os ou)"
  unfolding subscribers_except_def
  by (rule distinct_map_filter_get[OF _ assms(2)])
    (use hm_ok_filter[OF assms(1)] in \<open>simp add: hm_ok_def\<close>)

text \<open>The emitter that records who was sent what.\<close>

definition log_emit :: "('k, 'j, ('k \<times> 'j event) list) emitter" where
  "log_emit k e w = (w @ [(k, e)], True)"

lemma emit_all_log: "emit_all log_emit ks e w = w @ map (\<lambda>k. (k, e)) ks"
  by (induction ks arbitrary: w) (auto simp: log_emit_def)

section \<open>Properties\<close>

text \<open>
  C3: from any state the registry can reach, a turn event goes out exactly once to the
  originating connection, after it went to exactly the other connections that are registered
  for the same user and subscribed to the event's conversation; no connection of another
  user is sent anything, whatever it subscribed to, and no connection is served twice when
  connections have sinks of their own. An event of no conversation's turn reaches the
  originating connection only.
\<close>

theorem fan_out_isolated:
  assumes "reachable subs_init subs_step (s, w0)"
  shows "\<exists>targets.
      fan_out_emit log_emit s f event w = (w @ map (\<lambda>k. (k, event)) targets @ [(fo_inner f, event)], True) \<and>
      set targets =
        {k. \<exists>c sess convs. turn_event_conversation_id event = Some c \<and>
            hm_get (cs_sinks s) sess = Some k \<and> hm_get (cs_users s) sess = Some (fo_origin_user f) \<and>
            hm_get (cs_subscribed s) sess = Some convs \<and> c \<in> convs \<and> sess \<noteq> fo_origin_session f} \<and>
      (inj_on (hm_get (cs_sinks s)) {sess. hm_get (cs_sinks s) sess \<noteq> None} \<longrightarrow> distinct targets)"
proof (cases "turn_event_conversation_id event")
  case None
  then show ?thesis by (intro exI[of _ "[]"]) (simp add: fan_out_emit_def log_emit_def)
next
  case (Some c)
  let ?targets = "subscribers_except s c (fo_origin_session f) (fo_origin_user f)"
  have ok: "hm_ok (cs_subscribed s)" using cs.reachable_inv[OF assms] by (simp add: subs_inv_def)
  show ?thesis
    by (rule exI[of _ ?targets])
      (use Some distinct_subscribers_except[OF ok] in
        \<open>auto simp: fan_out_emit_def route_def emit_all_log log_emit_def subscribers_except_set[OF ok]\<close>)
qed

text \<open>Three connections on one conversation: two of \<^verbatim>\<open>dave\<close>, one of \<^verbatim>\<open>eve\<close>.\<close>

definition demo_subs :: "(nat, (nat \<times> unit event) list) conv_subs" where
  "demo_subs = fst (set_subscriptions ''s3'' [''c'']
     (set_subscriptions ''s2'' [''c'']
       (set_subscriptions ''s1'' [''c'']
         (register ''s3'' ''eve'' 3 (register ''s2'' ''dave'' 2 (register ''s1'' ''dave'' 1 subs_new)), []))))"

lemma demo_subs_reachable: "reachable subs_init subs_step (demo_subs, [])"
proof -
  have "reachable subs_init subs_step
      (set_subscriptions ''s3'' [''c''] (set_subscriptions ''s2'' [''c'']
        (set_subscriptions ''s1'' [''c''] (register ''s3'' ''eve'' (3::nat) (register ''s2'' ''dave'' 2
          (register ''s1'' ''dave'' 1 subs_new)), [] :: (nat \<times> unit event) list))))"
    by (intro reach_step[of subs_init subs_step, OF _ subscribe_step]
        reach_step[of subs_init subs_step, OF _ register_step] reach_init)
      (simp add: subs_init_def)
  then show ?thesis
    by (simp add: demo_subs_def subs_defs subs_new_def notify_observer_def)
qed

theorem fan_out_isolated_witness:
  "\<exists>targets. fan_out_emit log_emit demo_subs
     \<lparr>fo_inner = 1, fo_origin_session = ''s1'', fo_origin_user = ''dave''\<rparr>
     (AssistantDelta ''c'' ''r'' ''hi'') [] =
       (map (\<lambda>k. (k, AssistantDelta ''c'' ''r'' ''hi'')) targets @ [(1, AssistantDelta ''c'' ''r'' ''hi'')], True)
     \<and> 2 \<in> set targets \<and> 3 \<notin> set targets \<and> 1 \<notin> set targets"
proof -
  have sinks: "hm_get (cs_sinks demo_subs) sess =
      (if sess = ''s3'' then Some 3 else if sess = ''s2'' then Some 2
       else if sess = ''s1'' then Some 1 else None)" for sess
    by (simp add: demo_subs_def subs_defs subs_new_def)
  have users: "hm_get (cs_users demo_subs) sess =
      (if sess = ''s3'' then Some ''eve'' else if sess = ''s2'' then Some ''dave''
       else if sess = ''s1'' then Some ''dave'' else None)" for sess
    by (simp add: demo_subs_def subs_defs subs_new_def)
  have subd: "hm_get (cs_subscribed demo_subs) sess =
      (if sess = ''s1'' \<or> sess = ''s2'' \<or> sess = ''s3'' then Some {''c''} else None)" for sess
    by (auto simp: demo_subs_def subs_defs subs_new_def)
  from fan_out_isolated[OF demo_subs_reachable,
        of "\<lparr>fo_inner = 1, fo_origin_session = ''s1'', fo_origin_user = ''dave''\<rparr>"
          "AssistantDelta ''c'' ''r'' ''hi''" "[]"]
  obtain targets where t: "fan_out_emit log_emit demo_subs
     \<lparr>fo_inner = 1, fo_origin_session = ''s1'', fo_origin_user = ''dave''\<rparr>
     (AssistantDelta ''c'' ''r'' ''hi'') [] =
       (map (\<lambda>k. (k, AssistantDelta ''c'' ''r'' ''hi'')) targets @ [(1, AssistantDelta ''c'' ''r'' ''hi'')], True)"
    and set: "set targets = {k. \<exists>sess convs. hm_get (cs_sinks demo_subs) sess = Some k \<and>
      hm_get (cs_users demo_subs) sess = Some ''dave'' \<and>
      hm_get (cs_subscribed demo_subs) sess = Some convs \<and> ''c'' \<in> convs \<and> sess \<noteq> ''s1''}"
    by (elim exE conjE) simp
  have "2 \<in> set targets" unfolding set by (simp add: sinks users subd) (rule exI[of _ "''s2''"], simp)
  moreover have "3 \<notin> set targets" "1 \<notin> set targets"
    unfolding set by (simp_all add: sinks users subd split: if_splits)
  ultimately show ?thesis using t by blast
qed

end
