(* ===== verification/Dispatch.thy ===== *)
theory Dispatch
  imports Authz Conversation_Subs
begin

text \<open>
  The transport dispatcher (\<^verbatim>\<open>crates/transport-dispatch/src/lib.rs\<close> and \<^verbatim>\<open>errors.rs\<close>): one loop
  per connection that decodes, authorizes, runs and answers requests.

  The handler is a trait object, so it is a record of functions on a handler state \<open>'h\<close>. The
  outbound channel takes \<open>cn_accepts\<close> more frames before the peer is gone, and a send after
  that is the error on which the loop stops. Tasks the loop spawns are recorded in
  \<open>cn_spawned\<close> with what they were given; what the background forwarder does with its
  receiver is \<open>forward_background\<close>. The \<^verbatim>\<open>uuid\<close> and \<^verbatim>\<open>adelie_telemetry\<close> crates are the parameters
  of \<open>turn_env\<close>. Tracing output is left out.
\<close>

section \<open>Connections\<close>

datatype transport_kind = Uds | Dbus | WebSocket

definition is_co_located :: "transport_kind \<Rightarrow> bool" where
  "is_co_located t \<longleftrightarrow> t = Uds \<or> t = Dbus"

record auth_context =
  ac_user_id :: string
  ac_transport :: transport_kind
  ac_co_located :: "bool option"
  ac_client_label :: "string option"
  ac_client_context :: "client_context option"
  ac_session_id :: string
  ac_capability :: capability

definition mint_session_id :: "nat \<Rightarrow> string \<times> nat" where
  "mint_session_id next_id = (''sess-'' @ show_nat next_id, Suc next_id)"

definition auth_new :: "string \<Rightarrow> transport_kind \<Rightarrow> nat \<Rightarrow> auth_context \<times> nat" where
  "auth_new user_id transport next_id =
     (let (session_id, next_id) = mint_session_id next_id
      in (\<lparr>ac_user_id = user_id, ac_transport = transport, ac_co_located = None,
           ac_client_label = None, ac_client_context = None, ac_session_id = session_id,
           ac_capability = Tenant\<rparr>, next_id))"

definition with_co_location :: "bool option \<Rightarrow> auth_context \<Rightarrow> auth_context" where
  "with_co_location co_located a = a\<lparr>ac_co_located := co_located\<rparr>"

definition with_client_label :: "string option \<Rightarrow> auth_context \<Rightarrow> auth_context" where
  "with_client_label label a =
     a\<lparr>ac_client_label := (case label of None \<Rightarrow> None
                           | Some l \<Rightarrow> if trim l = [] then None else Some l)\<rparr>"

definition with_client_context :: "client_context option \<Rightarrow> auth_context \<Rightarrow> auth_context" where
  "with_client_context ctx a = a\<lparr>ac_client_context := ctx\<rparr>"

definition with_capability :: "capability \<Rightarrow> auth_context \<Rightarrow> auth_context" where
  "with_capability c a = a\<lparr>ac_capability := c\<rparr>"

definition effective_client_context ::
  "client_context option \<Rightarrow> client_context option \<Rightarrow> client_context option" where
  "effective_client_context per_turn connection =
     (case per_turn of
        Some ctx \<Rightarrow> if \<not> client_context_is_empty ctx then Some ctx else connection
      | None \<Rightarrow> connection)"

section \<open>Errors as frames\<close>

datatype api_error =
    ApiCore string
  | ApiUnsupported
  | ApiNotFound
  | ApiAlreadyTerminal
  | ApiInvalidInput string string string

definition refusal_frame :: "string \<Rightarrow> 'j command \<Rightarrow> capability \<Rightarrow> capability \<Rightarrow> 'j ws_frame" where
  "refusal_frame i cmd required held =
     frame_declined i
       \<lparr>ed_code = NotAuthorized,
        ed_description = REFUSAL_PREFIX @ '' '' @ [CHR 0x27] @ command_name cmd @ [CHR 0x27] @
          '' requires the '' @ capability_label required @
          '' capability; this connection holds '' @ capability_label held,
        ed_message = ''Only a daemon administrator can do that. This connection is a '' @
          capability_label held @ ''.'',
        ed_retryable = False\<rparr>"

definition unsupported_frame :: "string \<Rightarrow> string \<Rightarrow> string \<Rightarrow> 'j ws_frame" where
  "unsupported_frame i description message =
     frame_declined i \<lparr>ed_code = UnsupportedCode, ed_description = description,
       ed_message = message, ed_retryable = False\<rparr>"

fun api_error_frame :: "string \<Rightarrow> api_error \<Rightarrow> 'j ws_frame" where
  "api_error_frame i (ApiCore message) = frame_error i message"
| "api_error_frame i ApiUnsupported =
     frame_declined i \<lparr>ed_code = UnsupportedCode, ed_description = ''unsupported command'',
       ed_message = ''This daemon does not support that operation.'', ed_retryable = False\<rparr>"
| "api_error_frame i ApiNotFound =
     frame_declined i \<lparr>ed_code = NotFoundCode, ed_description = ''not found'',
       ed_message = ''That item no longer exists.'', ed_retryable = False\<rparr>"
| "api_error_frame i ApiAlreadyTerminal =
     frame_declined i \<lparr>ed_code = AlreadyTerminalCode, ed_description = ''task is already terminal'',
       ed_message = ''That task has already finished.'', ed_retryable = False\<rparr>"
| "api_error_frame i (ApiInvalidInput code description message) =
     frame_declined i \<lparr>ed_code = OtherCode code, ed_description = description,
       ed_message = message, ed_retryable = False\<rparr>"

section \<open>The handler, the environment and the loop's state\<close>

record 't send_scope =
  sc_trace :: 't
  sc_client_context :: "client_context option"
  sc_co_located :: "bool option"
  sc_client_label :: "string option"
  sc_transport :: transport_kind
  sc_user_id :: string
  sc_session_id :: string

record 'j send_args =
  sa_conversation_id :: string
  sa_content :: string
  sa_override_selection :: "'j option"
  sa_system_refinement :: string
  sa_request_id :: string
  sa_idempotency_key :: "string option"

record ('h, 'j, 't) api_handler =
  ah_handle_command ::
    "string \<Rightarrow> string \<Rightarrow> 'j command \<Rightarrow> 'h \<Rightarrow> 'h \<times> (api_error + 'j command_result)"
  ah_start_send_message ::
    "'t send_scope \<Rightarrow> 'j send_args \<Rightarrow> 'h \<Rightarrow> 'h \<times> (api_error + task_id option)"
  ah_subscribe_user_events :: "string \<Rightarrow> string \<Rightarrow> 'h \<Rightarrow> 'h \<times> bool"
  ah_on_session_end :: "string \<Rightarrow> 'h \<Rightarrow> 'h"

record 't turn_env =
  te_parse_uuid :: "string \<Rightarrow> string option"
  te_new_v4 :: "nat \<Rightarrow> string"
  te_resolve_turn_trace :: "string option \<Rightarrow> string \<Rightarrow> string \<Rightarrow> 't"

datatype ('j, 't) spawned = StreamingSend "'t send_scope" "'j send_args" | Forwarder

record ('h, 'j, 't, 'k, 'w) conn =
  cn_handler :: 'h
  cn_subs :: "(('k, 'w) conv_subs \<times> 'w) option"
  cn_frames :: "'j ws_frame list"
  cn_accepts :: nat
  cn_spawned :: "('j, 't) spawned list"
  cn_bg :: "nat option"
  cn_aborted :: "nat list"
  cn_minted :: nat

datatype 'c ctl = Continue 'c | Break 'c

fun ctl_bind :: "'c ctl \<Rightarrow> ('c \<Rightarrow> 'c ctl) \<Rightarrow> 'c ctl" where
  "ctl_bind (Continue c) f = f c"
| "ctl_bind (Break c) f = Break c"

fun ctl_conn :: "'c ctl \<Rightarrow> 'c" where
  "ctl_conn (Continue c) = c"
| "ctl_conn (Break c) = c"

type_synonym ('h, 'j, 't, 'k, 'w) step = "('h, 'j, 't, 'k, 'w) conn \<Rightarrow> ('h, 'j, 't, 'k, 'w) conn ctl"

definition send_frame :: "'j ws_frame \<Rightarrow> ('h, 'j, 't, 'k, 'w) step" where
  "send_frame f c =
     (if cn_accepts c = 0 then Break c
      else Continue (c\<lparr>cn_frames := cn_frames c @ [f], cn_accepts := cn_accepts c - 1\<rparr>))"

section \<open>Turn ids\<close>

definition NIL_UUID :: string where
  "NIL_UUID = ''00000000-0000-0000-0000-000000000000''"

text \<open>\<open>te_parse_uuid\<close> gives the canonical rendering of what it parses.\<close>

definition parse_turn_id :: "'t turn_env \<Rightarrow> string \<Rightarrow> string option" where
  "parse_turn_id env supplied =
     (case te_parse_uuid env supplied of None \<Rightarrow> None
      | Some parsed \<Rightarrow> if parsed = NIL_UUID then None else Some parsed)"

definition adopt_or_mint_turn_id :: "'t turn_env \<Rightarrow> string option \<Rightarrow> nat \<Rightarrow> string \<times> nat" where
  "adopt_or_mint_turn_id env supplied minted =
     (case Option.bind supplied (parse_turn_id env) of
        Some i \<Rightarrow> (i, minted)
      | None \<Rightarrow> (te_new_v4 env minted, Suc minted))"

section \<open>The arms of the loop\<close>

definition dispatch_send_message ::
  "('h, 'j, 't) api_handler \<Rightarrow> 't turn_env \<Rightarrow> auth_context \<Rightarrow> string \<Rightarrow>
   string \<Rightarrow> string \<Rightarrow> 'j option \<Rightarrow> string \<Rightarrow> client_context option \<Rightarrow> string option \<Rightarrow>
   string option \<Rightarrow> string option \<Rightarrow> ('h, 'j, 't, 'k, 'w) step" where
  "dispatch_send_message hdl env auth req_id conversation_id content override_selection
     system_refinement per_turn_client_context idempotency_key turn_id traceparent c =
     (let client_context = effective_client_context per_turn_client_context (ac_client_context auth);
          (request_id, minted) = adopt_or_mint_turn_id env turn_id (cn_minted c);
          turn_trace = te_resolve_turn_trace env traceparent request_id conversation_id;
          scope = \<lparr>sc_trace = turn_trace, sc_client_context = client_context,
                   sc_co_located = ac_co_located auth, sc_client_label = ac_client_label auth,
                   sc_transport = ac_transport auth, sc_user_id = ac_user_id auth,
                   sc_session_id = ac_session_id auth\<rparr>;
          args = \<lparr>sa_conversation_id = conversation_id, sa_content = content,
                  sa_override_selection = override_selection,
                  sa_system_refinement = system_refinement, sa_request_id = request_id,
                  sa_idempotency_key = idempotency_key\<rparr>;
          (h, task_id) = ah_start_send_message hdl scope args (cn_handler c);
          c = c\<lparr>cn_handler := h, cn_minted := minted\<rparr>
      in case task_id of
           Inr (Some i) \<Rightarrow> send_frame (ResultFrame req_id (SendMessageAck request_id i)) c
         | Inr None \<Rightarrow>
             ctl_bind (send_frame (ResultFrame req_id (SendMessageAck request_id [])) c)
               (\<lambda>c. Continue (c\<lparr>cn_spawned := cn_spawned c @ [StreamingSend scope args]\<rparr>))
         | Inl e \<Rightarrow> send_frame (api_error_frame req_id e) c)"

definition dispatch_subscribe_tasks ::
  "('h, 'j, 't) api_handler \<Rightarrow> auth_context \<Rightarrow> string \<Rightarrow> ('h, 'j, 't, 'k, 'w) step" where
  "dispatch_subscribe_tasks hdl auth req_id c =
     (if cn_bg c \<noteq> None then send_frame (ResultFrame req_id Ack) c
      else (let (h, receiver) =
                  ah_subscribe_user_events hdl (ac_user_id auth) (ac_session_id auth) (cn_handler c);
                c = c\<lparr>cn_handler := h\<rparr>
            in if \<not> receiver then
                 send_frame (unsupported_frame req_id
                   ''background-task subscription not supported by this handler''
                   ''This daemon does not stream background-task updates.'') c
               else send_frame (ResultFrame req_id Ack)
                 (c\<lparr>cn_bg := Some (length (cn_spawned c)),
                    cn_spawned := cn_spawned c @ [Forwarder]\<rparr>)))"

definition abort_background :: "('h, 'j, 't, 'k, 'w) conn \<Rightarrow> ('h, 'j, 't, 'k, 'w) conn" where
  "abort_background c =
     (case cn_bg c of None \<Rightarrow> c
      | Some handle \<Rightarrow> c\<lparr>cn_bg := None, cn_aborted := cn_aborted c @ [handle]\<rparr>)"

definition dispatch_unsubscribe_tasks :: "string \<Rightarrow> ('h, 'j, 't, 'k, 'w) step" where
  "dispatch_unsubscribe_tasks req_id c = send_frame (ResultFrame req_id Ack) (abort_background c)"

definition dispatch_subscribe_conversations ::
  "auth_context \<Rightarrow> string \<Rightarrow> string list \<Rightarrow> ('h, 'j, 't, 'k, 'w) step" where
  "dispatch_subscribe_conversations auth req_id conversation_ids c =
     send_frame (ResultFrame req_id Ack)
       (c\<lparr>cn_subs := map_option (set_subscriptions (ac_session_id auth) conversation_ids) (cn_subs c)\<rparr>)"

definition dispatch_set_config ::
  "('h, 'j, 't) api_handler \<Rightarrow> auth_context \<Rightarrow> string \<Rightarrow> 'j config_changes \<Rightarrow>
   ('h, 'j, 't, 'k, 'w) step" where
  "dispatch_set_config hdl auth req_id changes c =
     (let (h, res) = ah_handle_command hdl (ac_user_id auth) (ac_session_id auth)
                       (SetConfig changes) (cn_handler c);
          c = c\<lparr>cn_handler := h\<rparr>
      in case res of
           Inr (ConfigResult config) \<Rightarrow>
             (let config = with_caller_capability config (ac_capability auth)
              in ctl_bind (send_frame (ResultFrame req_id (ConfigResult config)) c)
                   (send_frame (EventFrame (ConfigChanged config))))
         | Inr result \<Rightarrow>
             send_frame (ResultFrame req_id (stamp_caller_capability result (ac_capability auth))) c
         | Inl e \<Rightarrow> send_frame (api_error_frame req_id e) c)"

definition is_set_ws_auth :: "'j command \<Rightarrow> bool" where
  "is_set_ws_auth cmd = (case cmd of SetWsAuthSettings _ _ _ _ _ _ \<Rightarrow> True | _ \<Rightarrow> False)"

definition dispatch_other ::
  "('h, 'j, 't) api_handler \<Rightarrow> auth_context \<Rightarrow> string \<Rightarrow> 'j command \<Rightarrow>
   ('h, 'j, 't, 'k, 'w) step" where
  "dispatch_other hdl auth req_id cmd c =
     (let run = (\<lambda>cmd. ah_handle_command hdl (ac_user_id auth) (ac_session_id auth) cmd);
          (h, res) = run cmd (cn_handler c);
          c = c\<lparr>cn_handler := h\<rparr>;
          reply = (case res of
                     Inr result \<Rightarrow> ResultFrame req_id (stamp_caller_capability result (ac_capability auth))
                   | Inl e \<Rightarrow> api_error_frame req_id e)
      in ctl_bind (send_frame reply c)
           (\<lambda>c. if is_set_ws_auth cmd \<and> \<not> isl res then
                  (let (h, config) = run GetConfig (cn_handler c);
                       c = c\<lparr>cn_handler := h\<rparr>
                   in case config of
                        Inr (ConfigResult config) \<Rightarrow>
                          send_frame (EventFrame (ConfigChanged
                            (with_caller_capability config (ac_capability auth)))) c
                      | _ \<Rightarrow> Continue c)
                else Continue c))"

definition dispatch_command ::
  "('h, 'j, 't) api_handler \<Rightarrow> 't turn_env \<Rightarrow> auth_context \<Rightarrow> string \<Rightarrow> 'j command \<Rightarrow>
   ('h, 'j, 't, 'k, 'w) step" where
  "dispatch_command hdl env auth req_id cmd =
     (case cmd of
        SendMessage conversation_id content override_selection system_refinement
            per_turn_client_context idempotency_key turn_id traceparent \<Rightarrow>
          dispatch_send_message hdl env auth req_id conversation_id content override_selection
            system_refinement per_turn_client_context idempotency_key turn_id traceparent
      | SubscribeBackgroundTasks \<Rightarrow> dispatch_subscribe_tasks hdl auth req_id
      | UnsubscribeBackgroundTasks \<Rightarrow> dispatch_unsubscribe_tasks req_id
      | SubscribeConversations conversation_ids \<Rightarrow>
          dispatch_subscribe_conversations auth req_id conversation_ids
      | SetConfig changes \<Rightarrow> dispatch_set_config hdl auth req_id changes
      | _ \<Rightarrow> dispatch_other hdl auth req_id cmd)"

section \<open>The loop\<close>

definition dispatch_item ::
  "('h, 'j, 't) api_handler \<Rightarrow> 't turn_env \<Rightarrow> auth_context \<Rightarrow> string + 'j ws_request \<Rightarrow>
   ('h, 'j, 't, 'k, 'w) step" where
  "dispatch_item hdl env auth item c =
     (case item of
        Inl e \<Rightarrow> send_frame (frame_error [] (''invalid request json: '' @ e)) c
      | Inr req \<Rightarrow>
          (let required = required_capability (rq_command req)
           in if \<not> permits (ac_capability auth) required then
                send_frame (refusal_frame (rq_id req) (rq_command req) required (ac_capability auth)) c
              else dispatch_command hdl env auth (rq_id req) (rq_command req) c))"

fun dispatch_items ::
  "('h, 'j, 't) api_handler \<Rightarrow> 't turn_env \<Rightarrow> auth_context \<Rightarrow> (string + 'j ws_request) list \<Rightarrow>
   ('h, 'j, 't, 'k, 'w) step" where
  "dispatch_items hdl env auth [] c = Continue c"
| "dispatch_items hdl env auth (item # items) c =
     ctl_bind (dispatch_item hdl env auth item c) (dispatch_items hdl env auth items)"

definition dispatch_open :: "auth_context \<Rightarrow> 'k \<Rightarrow> ('h, 'j, 't, 'k, 'w) conn \<Rightarrow>
   ('h, 'j, 't, 'k, 'w) conn" where
  "dispatch_open auth sink c =
     c\<lparr>cn_subs := map_option (\<lambda>(s, w). (register (ac_session_id auth) (ac_user_id auth) sink s, w))
                    (cn_subs c)\<rparr>"

definition dispatch_close ::
  "('h, 'j, 't) api_handler \<Rightarrow> auth_context \<Rightarrow> ('h, 'j, 't, 'k, 'w) conn \<Rightarrow>
   ('h, 'j, 't, 'k, 'w) conn" where
  "dispatch_close hdl auth c =
     (let c = abort_background c;
          c = c\<lparr>cn_subs := map_option (unregister (ac_session_id auth)) (cn_subs c)\<rparr>
      in c\<lparr>cn_handler := ah_on_session_end hdl (ac_session_id auth) (cn_handler c)\<rparr>)"

definition dispatch_loop ::
  "('h, 'j, 't) api_handler \<Rightarrow> 't turn_env \<Rightarrow> auth_context \<Rightarrow> 'k \<Rightarrow>
   (string + 'j ws_request) list \<Rightarrow> ('h, 'j, 't, 'k, 'w) conn \<Rightarrow> ('h, 'j, 't, 'k, 'w) conn" where
  "dispatch_loop hdl env auth sink inbound c =
     dispatch_close hdl auth
       (ctl_conn (dispatch_items hdl env auth inbound (dispatch_open auth sink c)))"

text \<open>What the spawned forwarder makes of what its broadcast receiver yields.\<close>

datatype 'j received = Received "'j event" | Lagged nat | Closed

fun forward_background :: "'j received list \<Rightarrow> 'j ws_frame list" where
  "forward_background [] = []"
| "forward_background (Received event # rs) = EventFrame event # forward_background rs"
| "forward_background (Lagged n # rs) =
     frame_error [] (show_nat n @ '' events dropped (subscriber lagged); refetch state to resync'')
       # forward_background rs"
| "forward_background (Closed # rs) = []"

section \<open>What one item does\<close>

lemma dispatch_command_cases:
  assumes "\<And>a b c d e f g h. P (dispatch_send_message hdl env auth i a b c d e f g h)"
    and "P (dispatch_subscribe_tasks hdl auth i)"
    and "P (dispatch_unsubscribe_tasks i)"
    and "\<And>ids. P (dispatch_subscribe_conversations auth i ids)"
    and "\<And>ch. P (dispatch_set_config hdl auth i ch)"
    and "P (dispatch_other hdl auth i cmd)"
  shows "P (dispatch_command hdl env auth i cmd)"
  using assms by (cases cmd) (simp_all add: dispatch_command_def)

text \<open>
  \<open>answers held i fs\<close>: of the frames \<open>fs\<close> exactly one is a reply, it is to the request \<open>i\<close>, and
  every configuration in them is stamped with the capability \<open>held\<close>.
\<close>

fun stamped :: "capability \<Rightarrow> 'j ws_frame \<Rightarrow> bool" where
  "stamped held (ResultFrame _ (ConfigResult cfg)) = (cfg_caller_capability cfg = Some held)"
| "stamped held (EventFrame (ConfigChanged cfg)) = (cfg_caller_capability cfg = Some held)"
| "stamped held _ = True"

definition answers :: "capability \<Rightarrow> string \<Rightarrow> 'j ws_frame list \<Rightarrow> bool" where
  "answers held i fs \<longleftrightarrow>
     List.map_filter frame_request_id fs = [i] \<and> list_all (stamped held) fs"

definition answered ::
  "capability \<Rightarrow> string \<Rightarrow> ('h, 'j, 't, 'k, 'w) conn \<Rightarrow> ('h, 'j, 't, 'k, 'w) conn ctl \<Rightarrow> bool" where
  "answered held i c r \<longleftrightarrow>
     (\<exists>c' fs. r = Continue c' \<and> cn_frames c' = cn_frames c @ fs \<and> answers held i fs \<and>
        cn_accepts c \<le> cn_accepts c' + 2)"

lemma answers_simps [simp]:
  "answers held i [ResultFrame i' Ack] \<longleftrightarrow> i' = i"
  "answers held i [ResultFrame i' (SendMessageAck a b)] \<longleftrightarrow> i' = i"
  "answers held i [ErrorFrame i' m d] \<longleftrightarrow> i' = i"
  "answers held i [ResultFrame i (stamp_caller_capability result held)]"
  by (auto simp: answers_def map_filter_simps) (cases result; simp)

lemma answers_event:
  "answers held i fs \<Longrightarrow> stamped held (EventFrame e) \<Longrightarrow> answers held i (fs @ [EventFrame e])"
  by (simp add: answers_def map_filter_simps map_filter_append)

lemma with_caller_capability_stamped [simp]:
  "cfg_caller_capability (with_caller_capability cfg held) = Some held"
  by (simp add: with_caller_capability_def)

lemma answers_config [simp]:
  "answers held i [ResultFrame i (ConfigResult (with_caller_capability cfg held))]"
  by (simp add: answers_def map_filter_simps)

lemma api_error_frame_shape: "\<exists>m d. api_error_frame i e = ErrorFrame i m d"
  by (cases e) (auto simp: frame_error_def frame_declined_def)

lemma answers_api_error [simp]: "answers held i [api_error_frame i e]"
  using api_error_frame_shape[of i e] answers_simps(3) by metis

lemma send_frame_Continue:
  "0 < cn_accepts c \<Longrightarrow> send_frame f c =
     Continue (c\<lparr>cn_frames := cn_frames c @ [f], cn_accepts := cn_accepts c - 1\<rparr>)"
  by (simp add: send_frame_def)

lemma answered_send:
  "2 \<le> cn_accepts c \<Longrightarrow> answers held i [f] \<Longrightarrow> cn_frames c' = cn_frames c \<Longrightarrow>
   cn_accepts c' = cn_accepts c \<Longrightarrow> answered held i c (send_frame f c')"
  by (auto simp: answered_def send_frame_Continue)

lemma answered_send_event:
  "2 \<le> cn_accepts c \<Longrightarrow> answers held i [f] \<Longrightarrow> stamped held (EventFrame e) \<Longrightarrow>
   cn_frames c' = cn_frames c \<Longrightarrow> cn_accepts c' = cn_accepts c \<Longrightarrow>
   answered held i c (ctl_bind (send_frame f c') (send_frame (EventFrame e)))"
  using answers_event[of held i "[f]" e]
  by (auto simp: answered_def send_frame_Continue)

lemma answered_send_then:
  "2 \<le> cn_accepts c \<Longrightarrow> answers held i [f] \<Longrightarrow>
   cn_frames c' = cn_frames c \<Longrightarrow> cn_accepts c' = cn_accepts c \<Longrightarrow>
   (\<And>c''. cn_frames (g c'') = cn_frames c'' \<and> cn_accepts (g c'') = cn_accepts c'') \<Longrightarrow>
   answered held i c (ctl_bind (send_frame f c') (\<lambda>c''. Continue (g c'')))"
  by (auto simp: answered_def send_frame_Continue)

lemma answered_send_message:
  assumes "2 \<le> cn_accepts c"
  shows "answered (ac_capability auth) i c
    (dispatch_send_message hdl env auth i conv content ovr ref ctx key turn tp c)"
  unfolding dispatch_send_message_def Let_def
  by (split prod.split, intro allI impI, split prod.split, intro allI impI, split sum.split,
      intro conjI allI impI; (split option.split, intro conjI allI impI)?)
    (rule answered_send answered_send_then; simp add: assms)+

lemma answered_subscribe_tasks:
  assumes "2 \<le> cn_accepts c"
  shows "answered (ac_capability auth) i c (dispatch_subscribe_tasks hdl auth i c)"
  unfolding dispatch_subscribe_tasks_def Let_def
  by (split if_split, intro conjI impI; (split prod.split, intro allI impI, split if_split, intro conjI impI)?)
    (rule answered_send; simp add: assms unsupported_frame_def frame_declined_def)+

lemma abort_background_simps [simp]:
  "cn_frames (abort_background c) = cn_frames c" "cn_accepts (abort_background c) = cn_accepts c"
  "cn_handler (abort_background c) = cn_handler c" "cn_subs (abort_background c) = cn_subs c"
  "cn_bg (abort_background c) = None"
  by (simp_all add: abort_background_def split: option.split)

lemma answered_set_config:
  assumes "2 \<le> cn_accepts c"
  shows "answered (ac_capability auth) i c (dispatch_set_config hdl auth i ch c)"
proof -
  obtain h res where r: "ah_handle_command hdl (ac_user_id auth) (ac_session_id auth) (SetConfig ch)
      (cn_handler c) = (h, res)" by fastforce
  show ?thesis
  proof (cases res)
    case (Inl e)
    then show ?thesis using r assms by (simp add: dispatch_set_config_def Let_def answered_send)
  next
    case (Inr result)
    then show ?thesis
      using r assms
      by (cases result)
        (simp_all add: dispatch_set_config_def Let_def answered_send answered_send_event
          del: stamp_caller_capability.simps)
  qed
qed

text \<open>What follows a reply: nothing more, or one more event.\<close>

lemma answered_send_follow:
  assumes "2 \<le> cn_accepts c" "answers held i [f]" "cn_frames c' = cn_frames c" "cn_accepts c' = cn_accepts c"
    and "\<And>c1. (\<exists>c2. k c1 = Continue c2 \<and> cn_frames c2 = cn_frames c1 \<and> cn_accepts c2 = cn_accepts c1) \<or>
      (\<exists>e c2. k c1 = send_frame (EventFrame e) c2 \<and> stamped held (EventFrame e) \<and>
          cn_frames c2 = cn_frames c1 \<and> cn_accepts c2 = cn_accepts c1)"
  shows "answered held i c (ctl_bind (send_frame f c') k)"
proof -
  let ?c1 = "c'\<lparr>cn_frames := cn_frames c' @ [f], cn_accepts := cn_accepts c' - 1\<rparr>"
  have s: "ctl_bind (send_frame f c') k = k ?c1" using assms(1,4) by (simp add: send_frame_Continue)
  from assms(5)[of ?c1] show ?thesis
  proof (elim disjE exE conjE)
    fix c2 assume "k ?c1 = Continue c2" "cn_frames c2 = cn_frames ?c1" "cn_accepts c2 = cn_accepts ?c1"
    then show ?thesis using s assms(1-4) by (auto simp: answered_def)
  next
    fix e c2 assume "k ?c1 = send_frame (EventFrame e) c2" "stamped held (EventFrame e)"
      "cn_frames c2 = cn_frames ?c1" "cn_accepts c2 = cn_accepts ?c1"
    then show ?thesis
      using s assms(1-4) answers_event[OF assms(2)] by (auto simp: answered_def send_frame_Continue)
  qed
qed

lemma answered_other:
  assumes "2 \<le> cn_accepts c"
  shows "answered (ac_capability auth) i c (dispatch_other hdl auth i cmd c)"
proof -
  let ?run = "ah_handle_command hdl (ac_user_id auth) (ac_session_id auth)"
  obtain h res where r: "?run cmd (cn_handler c) = (h, res)" by fastforce
  have reply: "answers (ac_capability auth) i
      [case res of Inl e \<Rightarrow> api_error_frame i e
       | Inr result \<Rightarrow> ResultFrame i (stamp_caller_capability result (ac_capability auth))]"
    by (cases res) simp_all
  show ?thesis
    unfolding dispatch_other_def Let_def r prod.case
  proof (rule answered_send_follow[OF assms reply], goal_cases)
    case (3 c1)
    obtain h2 res2 where r2: "?run GetConfig (cn_handler c1) = (h2, res2)" by fastforce
    show ?case
    proof (cases "\<exists>cfg. res2 = Inr (ConfigResult cfg) \<and> is_set_ws_auth cmd \<and> \<not> isl res")
      case True
      then obtain cfg where "res2 = Inr (ConfigResult cfg)" "is_set_ws_auth cmd" "\<not> isl res" by blast
      then show ?thesis
        by (intro disjI2 exI[of _ "ConfigChanged (with_caller_capability cfg (ac_capability auth))"]
            exI[of _ "c1\<lparr>cn_handler := h2\<rparr>"]) (simp add: r2)
    next
      case False
      then show ?thesis
        by (intro disjI1) (auto simp: r2 split: sum.split command_result.split)
    qed
  qed simp_all
qed

lemma answered_dispatch_command:
  "2 \<le> cn_accepts c \<Longrightarrow> answered (ac_capability auth) i c (dispatch_command hdl env auth i cmd c)"
  by (rule dispatch_command_cases)
    (simp_all add: answered_send_message answered_subscribe_tasks answered_set_config answered_other
      dispatch_unsubscribe_tasks_def dispatch_subscribe_conversations_def answered_send)

definition item_id :: "string + 'j ws_request \<Rightarrow> string" where
  "item_id item = (case item of Inl _ \<Rightarrow> [] | Inr req \<Rightarrow> rq_id req)"

lemma answered_dispatch_item:
  "2 \<le> cn_accepts c \<Longrightarrow> answered (ac_capability auth) (item_id item) c (dispatch_item hdl env auth item c)"
  by (auto simp: dispatch_item_def item_id_def Let_def answered_dispatch_command answered_send
      frame_error_def refusal_frame_def frame_declined_def split: sum.split)

lemma dispatch_items_answered:
  assumes "2 * length items \<le> cn_accepts c"
  shows "\<exists>c' fs. dispatch_items hdl env auth items c = Continue c' \<and> cn_frames c' = cn_frames c @ fs \<and>
    List.map_filter frame_request_id fs = map item_id items \<and> list_all (stamped (ac_capability auth)) fs"
  using assms
proof (induction items arbitrary: c)
  case Nil
  then show ?case by (auto simp: map_filter_simps)
next
  case (Cons item items)
  obtain c1 fs1 where 1: "dispatch_item hdl env auth item c = Continue c1"
      "cn_frames c1 = cn_frames c @ fs1" "answers (ac_capability auth) (item_id item) fs1"
      "cn_accepts c \<le> cn_accepts c1 + 2"
    using answered_dispatch_item[of c auth item hdl env] Cons.prems by (auto simp: answered_def)
  then obtain c2 fs2 where 2: "dispatch_items hdl env auth items c1 = Continue c2"
      "cn_frames c2 = cn_frames c1 @ fs2" "List.map_filter frame_request_id fs2 = map item_id items"
      "list_all (stamped (ac_capability auth)) fs2"
    using Cons.IH[of c1] Cons.prems by fastforce
  show ?case
    using 1 2 by (intro exI[of _ c2] exI[of _ "fs1 @ fs2"]) (simp add: answers_def map_filter_append)
qed

section \<open>What an item does does not depend on the frames sent before it\<close>

text \<open>Two states of the loop that differ in the outbound channel only.\<close>

definition same_core :: "('h, 'j, 't, 'k, 'w) conn \<Rightarrow> ('h, 'j, 't, 'k, 'w) conn \<Rightarrow> bool" where
  "same_core c d \<longleftrightarrow>
     cn_handler c = cn_handler d \<and> cn_subs c = cn_subs d \<and> cn_spawned c = cn_spawned d \<and>
     cn_bg c = cn_bg d \<and> cn_aborted c = cn_aborted d \<and> cn_minted c = cn_minted d"

definition frame_blind :: "('h, 'j, 't, 'k, 'w) step \<Rightarrow> bool" where
  "frame_blind f \<longleftrightarrow>
     (\<forall>c d. same_core c d \<longrightarrow> 2 \<le> cn_accepts c \<longrightarrow> 2 \<le> cn_accepts d \<longrightarrow>
        same_core (ctl_conn (f c)) (ctl_conn (f d)))"

lemma frame_blind_send_message:
  "frame_blind (dispatch_send_message hdl env auth i conv content ovr ref ctx key turn tp)"
  by (auto simp: frame_blind_def same_core_def dispatch_send_message_def Let_def send_frame_Continue
      split: prod.split sum.split option.split)

lemma frame_blind_subscribe_tasks: "frame_blind (dispatch_subscribe_tasks hdl auth i)"
  by (auto simp: frame_blind_def same_core_def dispatch_subscribe_tasks_def Let_def send_frame_Continue
      split: prod.split)

lemma frame_blind_unsubscribe_tasks: "frame_blind (dispatch_unsubscribe_tasks i)"
  by (auto simp: frame_blind_def same_core_def dispatch_unsubscribe_tasks_def send_frame_Continue
      abort_background_def split: option.split)

lemma frame_blind_subscribe_conversations: "frame_blind (dispatch_subscribe_conversations auth i ids)"
  by (auto simp: frame_blind_def same_core_def dispatch_subscribe_conversations_def send_frame_Continue)

lemma frame_blind_set_config: "frame_blind (dispatch_set_config hdl auth i ch)"
  by (auto simp: frame_blind_def same_core_def dispatch_set_config_def Let_def send_frame_Continue
      split: prod.split sum.split command_result.split)

lemma frame_blind_other: "frame_blind (dispatch_other hdl auth i cmd)"
  by (auto simp: frame_blind_def same_core_def dispatch_other_def Let_def send_frame_Continue
      split: prod.split sum.split command_result.split)

lemma frame_blind_command: "frame_blind (dispatch_command hdl env auth i cmd)"
  by (rule dispatch_command_cases)
    (rule frame_blind_send_message frame_blind_subscribe_tasks frame_blind_unsubscribe_tasks
      frame_blind_subscribe_conversations frame_blind_set_config frame_blind_other)+

definition permitted :: "auth_context \<Rightarrow> string + 'j ws_request \<Rightarrow> bool" where
  "permitted auth item =
     (case item of Inl _ \<Rightarrow> False
      | Inr req \<Rightarrow> permits (ac_capability auth) (required_capability (rq_command req)))"

lemma frame_blindD:
  "frame_blind f \<Longrightarrow> same_core c d \<Longrightarrow> 2 \<le> cn_accepts c \<Longrightarrow> 2 \<le> cn_accepts d \<Longrightarrow>
   same_core (ctl_conn (f c)) (ctl_conn (f d))"
  by (simp add: frame_blind_def)

lemma same_core_send:
  "2 \<le> cn_accepts c \<Longrightarrow> same_core c d \<Longrightarrow> same_core (ctl_conn (send_frame f c)) d"
  by (simp add: same_core_def send_frame_Continue)

lemma dispatch_item_permitted:
  assumes "permitted auth item" "same_core c d" "2 \<le> cn_accepts c" "2 \<le> cn_accepts d"
  shows "same_core (ctl_conn (dispatch_item hdl env auth item c)) (ctl_conn (dispatch_item hdl env auth item d))"
  using assms frame_blindD[OF frame_blind_command[of hdl env auth] assms(2-4)]
  by (cases item) (simp_all add: dispatch_item_def permitted_def Let_def)

lemma dispatch_item_refused:
  assumes "\<not> permitted auth item" "same_core c d" "2 \<le> cn_accepts c"
  shows "same_core (ctl_conn (dispatch_item hdl env auth item c)) d"
  using assms by (cases item) (simp_all add: dispatch_item_def permitted_def Let_def same_core_send)

lemma dispatch_items_core:
  assumes "same_core c d" "2 * length items \<le> cn_accepts c" "2 * length items \<le> cn_accepts d"
  shows "same_core (ctl_conn (dispatch_items hdl env auth items c))
    (ctl_conn (dispatch_items hdl env auth (filter (permitted auth) items) d))"
  using assms
proof (induction items arbitrary: c d)
  case (Cons item items)
  have a: "2 \<le> cn_accepts c" "2 \<le> cn_accepts d" using Cons.prems(2,3) by auto
  obtain c1 where c1: "dispatch_item hdl env auth item c = Continue c1" "cn_accepts c \<le> cn_accepts c1 + 2"
    using answered_dispatch_item[OF a(1), of auth item hdl env] by (auto simp: answered_def)
  obtain d1 where d1: "dispatch_item hdl env auth item d = Continue d1" "cn_accepts d \<le> cn_accepts d1 + 2"
    using answered_dispatch_item[OF a(2), of auth item hdl env] by (auto simp: answered_def)
  show ?case
  proof (cases "permitted auth item")
    case True
    then have "same_core c1 d1" using dispatch_item_permitted[OF _ Cons.prems(1) a, of auth item hdl env] c1 d1 by simp
    then show ?thesis using Cons.IH[of c1 d1] Cons.prems(2,3) c1 d1 True by simp
  next
    case False
    then have "same_core c1 d" using dispatch_item_refused[OF _ Cons.prems(1) a(1), of auth item hdl env] c1 by simp
    then show ?thesis using Cons.IH[of c1 d] Cons.prems(2,3) c1 False by simp
  qed
qed simp

section \<open>Other sessions\<close>

definition session_entry ::
  "string \<Rightarrow> ('h, 'j, 't, 'k, 'w) conn \<Rightarrow> ('k option \<times> string set option \<times> string option) option" where
  "session_entry sess c =
     map_option (\<lambda>(s, w). (hm_get (cs_sinks s) sess, hm_get (cs_subscribed s) sess,
       hm_get (cs_users s) sess)) (cn_subs c)"

lemma session_entry_simps [simp]:
  "session_entry sess (c\<lparr>cn_handler := h\<rparr>) = session_entry sess c"
  "session_entry sess (c\<lparr>cn_minted := n\<rparr>) = session_entry sess c"
  "session_entry sess (c\<lparr>cn_spawned := sp\<rparr>) = session_entry sess c"
  "session_entry sess (c\<lparr>cn_bg := b\<rparr>) = session_entry sess c"
  "session_entry sess (c\<lparr>cn_frames := fs\<rparr>) = session_entry sess c"
  "session_entry sess (c\<lparr>cn_accepts := n\<rparr>) = session_entry sess c"
  "session_entry sess (abort_background c) = session_entry sess c"
  by (simp_all add: session_entry_def)

lemma session_entry_send [simp]: "session_entry sess (ctl_conn (send_frame f c)) = session_entry sess c"
  by (simp add: send_frame_def)

lemma session_entry_bind:
  assumes "\<And>c. session_entry sess (ctl_conn (k c)) = session_entry sess c"
  shows "session_entry sess (ctl_conn (ctl_bind r k)) = session_entry sess (ctl_conn r)"
  using assms by (cases r) simp_all

lemma session_entry_command:
  assumes "sess \<noteq> ac_session_id auth"
  shows "session_entry sess (ctl_conn (dispatch_command hdl env auth i cmd c)) = session_entry sess c"
proof -
  let ?P = "\<lambda>f. session_entry sess (ctl_conn (f c)) = session_entry sess c"
  have "?P (dispatch_command hdl env auth i cmd)"
  proof (rule dispatch_command_cases[where P = ?P], goal_cases)
    case 1
    show ?case by (simp add: dispatch_send_message_def Let_def session_entry_bind split: prod.split sum.split option.split)
  next
    case 2
    show ?case by (simp add: dispatch_subscribe_tasks_def Let_def split: prod.split)
  next
    case 3
    show ?case by (simp add: dispatch_unsubscribe_tasks_def)
  next
    case (4 ids)
    show ?case
      using assms by (cases "cn_subs c")
        (auto simp: dispatch_subscribe_conversations_def session_entry_def set_subscriptions_def
          send_frame_def hm_simps)
  next
    case 5
    show ?case by (simp add: dispatch_set_config_def Let_def session_entry_bind split: prod.split sum.split command_result.split)
  next
    case 6
    show ?case by (simp add: dispatch_other_def Let_def session_entry_bind split: prod.split sum.split command_result.split)
  qed
  then show ?thesis .
qed

lemma session_entry_items:
  assumes "sess \<noteq> ac_session_id auth"
  shows "session_entry sess (ctl_conn (dispatch_items hdl env auth items c)) = session_entry sess c"
proof (induction items arbitrary: c)
  case (Cons item items)
  have "session_entry sess (ctl_conn (dispatch_item hdl env auth item c)) = session_entry sess c"
    by (cases item) (simp_all add: dispatch_item_def Let_def session_entry_command[OF assms])
  then show ?case using Cons by (simp add: session_entry_bind)
qed simp

lemma session_entry_open:
  "sess \<noteq> ac_session_id auth \<Longrightarrow> session_entry sess (dispatch_open auth sink c) = session_entry sess c"
  by (cases "cn_subs c") (auto simp: session_entry_def dispatch_open_def register_def hm_simps)

lemma session_entry_close:
  "session_entry sess (dispatch_close hdl auth c) =
     (if sess = ac_session_id auth then map_option (\<lambda>_. (None, None, None)) (cn_subs c)
      else session_entry sess c)"
  by (cases "cn_subs c")
    (auto simp: session_entry_def dispatch_close_def unregister_def hm_simps Let_def)

text \<open>A handler that counts its calls, for examples.\<close>

definition counting_handler :: "(nat, unit, unit) api_handler" where
  "counting_handler =
     \<lparr>ah_handle_command = (\<lambda>_ _ _ h. (Suc h, Inr Ack)),
      ah_start_send_message = (\<lambda>_ _ h. (Suc h, Inr None)),
      ah_subscribe_user_events = (\<lambda>_ _ h. (h, True)),
      ah_on_session_end = (\<lambda>_ h. h)\<rparr>"

definition example_env :: "unit turn_env" where
  "example_env = \<lparr>te_parse_uuid = (\<lambda>_. None), te_new_v4 = show_nat, te_resolve_turn_trace = (\<lambda>_ _ _. ())\<rparr>"

definition example_conn :: "(nat, unit, unit, nat, unit) conn" where
  "example_conn = \<lparr>cn_handler = 0, cn_subs = Some (register ''s9'' ''eve'' 9 subs_new, ()), cn_frames = [],
     cn_accepts = 20, cn_spawned = [], cn_bg = None, cn_aborted = [], cn_minted = 0\<rparr>"

definition example_requests :: "(string + unit ws_request) list" where
  "example_requests =
     [Inr \<lparr>rq_id = ''1'', rq_command = Ping\<rparr>, Inr \<lparr>rq_id = ''2'', rq_command = SetApiKey ''k''\<rparr>,
      Inl ''EOF'', Inr \<lparr>rq_id = ''3'', rq_command = SubscribeConversations [''c'']\<rparr>]"

section \<open>Properties\<close>

text \<open>
  C2: while the client is there to read, every inbound frame is answered exactly once and in
  order: the replies the loop sends are, one for one, to the requests received (the empty id
  for a frame that did not decode), and every configuration it sends, in a reply or in a
  change event, says what the connection is allowed to do.
\<close>

theorem every_request_answered_once:
  assumes "2 * length inbound \<le> cn_accepts c"
  shows "\<exists>fs. cn_frames (dispatch_loop hdl env auth sink inbound c) = cn_frames c @ fs \<and>
    List.map_filter frame_request_id fs = map item_id inbound \<and>
    list_all (stamped (ac_capability auth)) fs"
  using assms dispatch_items_answered[of inbound "dispatch_open auth sink c" hdl env auth]
  by (auto simp: dispatch_loop_def dispatch_close_def dispatch_open_def Let_def)

theorem every_request_answered_once_witness:
  "\<exists>fs. cn_frames (dispatch_loop counting_handler example_env (fst (auth_new ''dave'' Uds 1)) 1
      example_requests example_conn) = fs \<and>
    List.map_filter frame_request_id fs = [''1'', ''2'', [], ''3'']"
  using every_request_answered_once[of example_requests example_conn counting_handler example_env
      "fst (auth_new ''dave'' Uds 1)" 1]
  by (auto simp: example_conn_def example_requests_def item_id_def)

text \<open>
  C1: the authorization gate. A refused command has no effect at all: the loop leaves the
  handler, the subscription registry and the tasks it spawned exactly as if the refused
  requests had never been received. An administrator is refused nothing, a connection with an
  unrecognized level is refused everything, and a tenant is refused exactly the commands that
  cost administration.
\<close>

theorem refused_commands_have_no_effect:
  assumes "2 * length inbound \<le> cn_accepts c"
  shows "same_core (dispatch_loop hdl env auth sink inbound c)
      (dispatch_loop hdl env auth sink (filter (permitted auth) inbound) c) \<and>
    (permitted auth (Inr req) \<longleftrightarrow>
       ac_capability auth = Admin \<or>
       ac_capability auth = Tenant \<and> required_capability (rq_command req) \<noteq> Admin)"
proof
  let ?c = "dispatch_open auth sink c"
  have "same_core (ctl_conn (dispatch_items hdl env auth inbound ?c))
      (ctl_conn (dispatch_items hdl env auth (filter (permitted auth) inbound) ?c))"
    using assms by (intro dispatch_items_core) (simp_all add: same_core_def dispatch_open_def)
  then show "same_core (dispatch_loop hdl env auth sink inbound c)
      (dispatch_loop hdl env auth sink (filter (permitted auth) inbound) c)"
    by (auto simp: dispatch_loop_def dispatch_close_def same_core_def abort_background_def Let_def
        split: option.split)
  show "permitted auth (Inr req) \<longleftrightarrow>
       ac_capability auth = Admin \<or>
       ac_capability auth = Tenant \<and> required_capability (rq_command req) \<noteq> Admin"
    using required_capability_cases[of "rq_command req"] by (auto simp: permitted_def permits_iff)
qed

theorem refused_commands_have_no_effect_witness:
  "cn_handler (dispatch_loop counting_handler example_env (fst (auth_new ''dave'' Uds 1)) 1
      example_requests example_conn) = 1"
proof -
  let ?auth = "fst (auth_new ''dave'' Uds 1)"
  have perm: "filter (permitted ?auth) example_requests =
      [Inr \<lparr>rq_id = ''1'', rq_command = Ping\<rparr>,
       Inr \<lparr>rq_id = ''3'', rq_command = SubscribeConversations [''c'']\<rparr>]"
    by (simp add: example_requests_def permitted_def auth_new_def mint_session_id_def
        required_capability_def classify_def)
  have "cn_handler (dispatch_loop counting_handler example_env ?auth 1
      (filter (permitted ?auth) example_requests) example_conn) = 1"
    unfolding perm
    by (simp add: dispatch_loop_def dispatch_close_def dispatch_open_def dispatch_item_def
        dispatch_command_def dispatch_other_def dispatch_subscribe_conversations_def send_frame_def
        Let_def counting_handler_def example_conn_def auth_new_def mint_session_id_def
        required_capability_def classify_def is_set_ws_auth_def)
  moreover have "2 * length example_requests \<le> cn_accepts example_conn"
    by (simp add: example_conn_def example_requests_def)
  ultimately show ?thesis
    using conjunct1[OF refused_commands_have_no_effect[of example_requests example_conn
        counting_handler example_env ?auth 1]]
    by (simp only: same_core_def)
qed

text \<open>
  C29: a connection leaves nothing behind, whether its inbound stream ended or its peer went
  away in the middle of an answer: the registry has neither a sink, nor subscriptions, nor an
  owner for its session, the entries of every other session are what they were before the
  connection opened, and no background forwarder is left running.
\<close>

theorem connection_leaves_nothing_behind:
  assumes "cn_subs c = Some (s0, w0)"
  shows "\<exists>s w. cn_subs (dispatch_loop hdl env auth sink inbound c) = Some (s, w) \<and>
    hm_get (cs_sinks s) (ac_session_id auth) = None \<and>
    hm_get (cs_subscribed s) (ac_session_id auth) = None \<and>
    hm_get (cs_users s) (ac_session_id auth) = None \<and>
    (\<forall>sess. sess \<noteq> ac_session_id auth \<longrightarrow>
       hm_get (cs_sinks s) sess = hm_get (cs_sinks s0) sess \<and>
       hm_get (cs_subscribed s) sess = hm_get (cs_subscribed s0) sess \<and>
       hm_get (cs_users s) sess = hm_get (cs_users s0) sess) \<and>
    cn_bg (dispatch_loop hdl env auth sink inbound c) = None"
proof -
  let ?r = "dispatch_loop hdl env auth sink inbound c"
  have other: "session_entry sess ?r = session_entry sess c" if "sess \<noteq> ac_session_id auth" for sess
    using that by (simp add: dispatch_loop_def session_entry_close session_entry_items session_entry_open)
  have "session_entry (''x'' @ ac_session_id auth) ?r = session_entry (''x'' @ ac_session_id auth) c"
    by (rule other) simp
  then obtain s w where sw: "cn_subs ?r = Some (s, w)"
    using assms by (cases "cn_subs ?r") (auto simp: session_entry_def)
  have "session_entry (ac_session_id auth) ?r = None \<or>
      session_entry (ac_session_id auth) ?r = Some (None, None, None)"
    by (cases "cn_subs (ctl_conn (dispatch_items hdl env auth inbound (dispatch_open auth sink c)))")
      (simp_all add: dispatch_loop_def session_entry_close)
  moreover have "cn_bg ?r = None" by (simp add: dispatch_loop_def dispatch_close_def Let_def)
  ultimately show ?thesis
    using other assms sw by (auto simp: session_entry_def)
qed

theorem connection_leaves_nothing_behind_witness:
  "let auth = fst (auth_new ''dave'' Uds 1)
   in \<exists>s w. cn_subs (dispatch_loop counting_handler example_env auth 1 example_requests example_conn) =
        Some (s, w) \<and> hm_get (cs_users s) (ac_session_id auth) = None \<and>
        hm_get (cs_users s) ''s9'' = Some ''eve''"
proof -
  let ?auth = "fst (auth_new ''dave'' Uds 1)"
  have "''s9'' \<noteq> ac_session_id ?auth" by (simp add: auth_new_def mint_session_id_def)
  moreover have "cn_subs example_conn = Some (register ''s9'' ''eve'' 9 subs_new, ())"
    by (simp add: example_conn_def)
  ultimately show ?thesis
    using connection_leaves_nothing_behind[of example_conn "register ''s9'' ''eve'' 9 subs_new" "()"
        counting_handler example_env ?auth 1 example_requests]
    by (auto simp: Let_def register_def hm_simps)
qed

end
