(* ===== verification/Task_Registry.thy ===== *)
theory Task_Registry
  imports Api_Model
begin

text \<open>
  The background-task registry (\<^verbatim>\<open>crates/application/src/background_tasks.rs\<close>): user-scoped
  tasks with bounded logs, cooperative cancellation, per-user event channels, an optional
  store, and the completion signal for subagents.

  Each block of the code that holds the lock of the task map is one function on the
  registry, so the functions are the atomic steps; \<open>finalize\<close> and \<open>wait\<close>, which release
  the lock in between, are split into the steps between their lock scopes. \<^verbatim>\<open>now_ms()\<close> and the
  fresh \<^verbatim>\<open>Uuid::new_v4\<close> are arguments. A sequence number (\<^verbatim>\<open>u64\<close>) is a \<open>nat\<close>: a task would have
  to log \<open>2 ^ 64\<close> lines to wrap it. A broadcast channel is the number of its live receivers
  and the events sent. The store is a trait object, hence a record of functions on its
  state \<open>'d\<close>; \<open>re_to_json\<close> and \<open>re_from_json\<close> are serde's codec for \<^verbatim>\<open>TaskKind\<close>.
\<close>

section \<open>State\<close>

datatype db_status = DbPending | DbRunning | DbCompleted | DbFailed | DbCancelled

record 'j task_row =
  row_id :: string
  row_user_id :: string
  row_kind_json :: 'j
  row_status :: db_status
  row_parent_task_id :: "string option"
  row_title :: string
  row_last_error :: "string option"
  row_progress_hint :: "string option"
  row_started_at :: int
  row_ended_at :: "int option"
  row_owner_todo :: string
  row_spawn_marker :: "string option"

record ('d, 'j) registry_env =
  re_to_json :: "task_kind \<Rightarrow> 'j option"
  re_from_json :: "'j \<Rightarrow> task_kind option"
  re_create_task :: "'j task_row \<Rightarrow> 'd \<Rightarrow> 'd \<times> (string + unit)"
  re_update_task :: "string \<Rightarrow> string \<Rightarrow> db_status \<Rightarrow> string option \<Rightarrow> string option \<Rightarrow> int option \<Rightarrow>
    'd \<Rightarrow> 'd \<times> (string + unit)"
  re_get_task :: "string \<Rightarrow> string \<Rightarrow> 'd \<Rightarrow> string + 'j task_row option"
  re_scan_non_terminal :: "'d \<Rightarrow> string + 'j task_row list"

datatype task_error = TaskNotFound | TaskAlreadyTerminal

record 'j task_state =
  ts_owner :: string
  ts_view :: task_view
  ts_token :: bool
  ts_logs :: "'j task_log_entry list"
  ts_next_seq :: nat
  ts_completed :: bool

record 'j channel =
  ch_receivers :: nat
  ch_events :: "'j event list"

record subagent_completion =
  sc_user :: string
  sc_parent_task_id :: task_id
  sc_child_conversation_id :: string
  sc_session_conversation_id :: string
  sc_child_task_id :: task_id
  sc_child_name :: string
  sc_owner_todo :: string
  sc_status :: task_status
  sc_siblings_remaining :: nat
  sc_notify_parent :: bool

record ('d, 'j) registry =
  rg_log_ring_capacity :: nat
  rg_broadcast_capacity :: nat
  rg_tasks :: "(task_id, 'j task_state) hashmap"
  rg_channels :: "(string, 'j channel) hashmap"
  rg_notify :: "(task_id, nat list) hashmap"
  rg_store :: "'d option"
  rg_observer_set :: bool
  rg_signals :: "subagent_completion list"

record spawn_meta =
  sm_owner_todo :: string
  sm_spawn_marker :: "string option"

definition with_config :: "nat \<Rightarrow> nat \<Rightarrow> ('d, 'j) registry" where
  "with_config log_cap bcast_cap =
     \<lparr>rg_log_ring_capacity = log_cap, rg_broadcast_capacity = bcast_cap, rg_tasks = [],
      rg_channels = [], rg_notify = [], rg_store = None, rg_observer_set = False, rg_signals = []\<rparr>"

definition registry_new :: "('d, 'j) registry" where
  "registry_new = with_config 1000 256"

definition with_store :: "'d \<Rightarrow> ('d, 'j) registry \<Rightarrow> ('d, 'j) registry" where
  "with_store store r = r\<lparr>rg_store := Some store\<rparr>"

definition set_subagent_observer :: "('d, 'j) registry \<Rightarrow> ('d, 'j) registry" where
  "set_subagent_observer r = r\<lparr>rg_observer_set := True\<rparr>"

section \<open>Helpers\<close>

definition is_terminal :: "task_status \<Rightarrow> bool" where
  "is_terminal s \<longleftrightarrow> s = Completed \<or> s = Failed \<or> s = Cancelled"

definition is_live :: "task_status \<Rightarrow> bool" where
  "is_live s \<longleftrightarrow> s = Pending \<or> s = Running"

fun parent_task_id :: "task_kind \<Rightarrow> task_id option" where
  "parent_task_id (SubagentKind p _ _ _ _) = Some p"
| "parent_task_id _ = None"

fun task_session_conversation :: "task_kind \<Rightarrow> string option" where
  "task_session_conversation (SubagentKind _ _ _ s _) = Some s"
| "task_session_conversation _ = None"

definition owner_under_prefix :: "string \<Rightarrow> string \<Rightarrow> bool" where
  "owner_under_prefix owner pre \<longleftrightarrow>
     owner = pre \<or> (length pre < length owner \<and> prefix pre owner \<and> owner ! length pre = CHR ''.'')"

fun api_status_to_db :: "task_status \<Rightarrow> db_status" where
  "api_status_to_db Pending = DbPending"
| "api_status_to_db Running = DbRunning"
| "api_status_to_db Completed = DbCompleted"
| "api_status_to_db Failed = DbFailed"
| "api_status_to_db Cancelled = DbCancelled"

fun db_status_to_api :: "db_status \<Rightarrow> task_status" where
  "db_status_to_api DbPending = Pending"
| "db_status_to_api DbRunning = Running"
| "db_status_to_api DbCompleted = Completed"
| "db_status_to_api DbFailed = Failed"
| "db_status_to_api DbCancelled = Cancelled"

definition broadcast :: "string \<Rightarrow> 'j event \<Rightarrow> ('d, 'j) registry \<Rightarrow> ('d, 'j) registry" where
  "broadcast user_id event r =
     (case hm_get (rg_channels r) user_id of
        None \<Rightarrow> r
      | Some ch \<Rightarrow>
          if ch_receivers ch = 0 then r\<lparr>rg_channels := hm_remove user_id (rg_channels r)\<rparr>
          else r\<lparr>rg_channels := hm_insert user_id (ch\<lparr>ch_events := ch_events ch @ [event]\<rparr>)
                                 (rg_channels r)\<rparr>)"

definition subscribe :: "string \<Rightarrow> ('d, 'j) registry \<Rightarrow> ('d, 'j) registry" where
  "subscribe user_id r =
     (let channels = filter (\<lambda>(_, ch). 0 < ch_receivers ch) (rg_channels r);
          ch = (case hm_get channels user_id of Some ch \<Rightarrow> ch
                | None \<Rightarrow> \<lparr>ch_receivers = 0, ch_events = []\<rparr>)
      in r\<lparr>rg_channels := hm_insert user_id (ch\<lparr>ch_receivers := Suc (ch_receivers ch)\<rparr>) channels\<rparr>)"

definition notify_scratchpad_changed ::
  "string \<Rightarrow> string \<Rightarrow> ('d, 'j) registry \<Rightarrow> ('d, 'j) registry" where
  "notify_scratchpad_changed user_id conversation_id = broadcast user_id (ScratchpadChanged conversation_id)"

definition notify_knowledge_changed :: "string \<Rightarrow> ('d, 'j) registry \<Rightarrow> ('d, 'j) registry" where
  "notify_knowledge_changed user_id = broadcast user_id KnowledgeChanged"

definition notify_conversation_list_changed ::
  "string \<Rightarrow> string \<Rightarrow> ('d, 'j) registry \<Rightarrow> ('d, 'j) registry" where
  "notify_conversation_list_changed user_id conversation_id =
     broadcast user_id (ConversationListChanged conversation_id)"

section \<open>Logs and progress\<close>

text \<open>\<^verbatim>\<open>pop_front\<close> on an empty ring does nothing, and so does \<open>drop 1\<close>.\<close>

definition push_log :: "nat \<Rightarrow> 'j task_log_entry list \<Rightarrow> 'j task_log_entry \<Rightarrow> 'j task_log_entry list" where
  "push_log cap logs entry = (if length logs = cap then drop 1 logs else logs) @ [entry]"

record 'j log_line =
  ll_level :: log_level
  ll_category :: log_category
  ll_message :: string
  ll_data :: "'j option"

definition next_entry :: "int \<Rightarrow> 'j log_line \<Rightarrow> 'j task_state \<Rightarrow> 'j task_log_entry" where
  "next_entry now l s =
     \<lparr>le_seq = ts_next_seq s, le_timestamp = now, le_level = ll_level l, le_category = ll_category l,
      le_message = ll_message l, le_data = ll_data l\<rparr>"

definition log_state :: "nat \<Rightarrow> int \<Rightarrow> 'j log_line \<Rightarrow> 'j task_state \<Rightarrow> 'j task_state" where
  "log_state cap now l s =
     s\<lparr>ts_next_seq := ts_next_seq s + 1, ts_logs := push_log cap (ts_logs s) (next_entry now l s)\<rparr>"

definition sink_append ::
  "int \<Rightarrow> task_id \<Rightarrow> 'j log_line \<Rightarrow> ('d, 'j) registry \<Rightarrow> ('d, 'j) registry" where
  "sink_append now i l r =
     (case hm_get (rg_tasks r) i of
        None \<Rightarrow> r
      | Some s \<Rightarrow>
          broadcast (ts_owner s) (TaskLogAppended i (next_entry now l s))
            (r\<lparr>rg_tasks := hm_modify i (log_state (rg_log_ring_capacity r) now l) (rg_tasks r)\<rparr>))"

definition append_log ::
  "int \<Rightarrow> string \<Rightarrow> task_id \<Rightarrow> 'j log_line \<Rightarrow> ('d, 'j) registry \<Rightarrow> ('d, 'j) registry" where
  "append_log now user_id i l r =
     (case hm_get (rg_tasks r) i of
        None \<Rightarrow> r
      | Some s \<Rightarrow>
          if ts_owner s \<noteq> user_id then r
          else broadcast (ts_owner s) (TaskLogAppended i (next_entry now l s))
            (r\<lparr>rg_tasks := hm_modify i (log_state (rg_log_ring_capacity r) now l) (rg_tasks r)\<rparr>))"

definition set_progress_hint ::
  "task_id \<Rightarrow> string option \<Rightarrow> ('d, 'j) registry \<Rightarrow> ('d, 'j) registry" where
  "set_progress_hint i hint r =
     (case hm_get (rg_tasks r) i of
        None \<Rightarrow> r
      | Some s \<Rightarrow>
          broadcast (ts_owner s) (TaskProgress i hint)
            (r\<lparr>rg_tasks := hm_modify i (\<lambda>s. s\<lparr>ts_view := (ts_view s)\<lparr>tv_progress_hint := hint\<rparr>\<rparr>)
                           (rg_tasks r)\<rparr>))"

section \<open>Spawning\<close>

definition add_child :: "task_id \<Rightarrow> 'j task_state \<Rightarrow> 'j task_state" where
  "add_child i s = s\<lparr>ts_view := (ts_view s)\<lparr>tv_children := tv_children (ts_view s) @ [i]\<rparr>\<rparr>"

definition spawn_with_meta ::
  "task_id \<Rightarrow> int \<Rightarrow> string \<Rightarrow> task_kind \<Rightarrow> string \<Rightarrow> spawn_meta \<Rightarrow>
   ('d, 'j) registry \<Rightarrow> ('d, 'j) registry \<times> task_view" where
  "spawn_with_meta i now user_id kind title meta r =
     (let parent = parent_task_id kind;
          view = \<lparr>tv_id = i, tv_kind = kind, tv_status = Running, tv_started_at = now,
                  tv_ended_at = None, tv_last_error = None, tv_parent = parent, tv_children = [],
                  tv_title = title, tv_progress_hint = None, tv_owner_todo = sm_owner_todo meta,
                  tv_spawn_marker = sm_spawn_marker meta\<rparr>;
          state = \<lparr>ts_owner = user_id, ts_view = view, ts_token = False, ts_logs = [],
                   ts_next_seq = 1, ts_completed = False\<rparr>;
          tasks = hm_insert i state (rg_tasks r);
          tasks = (case parent of None \<Rightarrow> tasks | Some p \<Rightarrow> hm_modify p (add_child i) tasks);
          r = broadcast user_id (TaskStarted view) (r\<lparr>rg_tasks := tasks\<rparr>);
          r = sink_append now i \<lparr>ll_level = LogInfo, ll_category = Lifecycle,
                ll_message = ''task started'', ll_data = None\<rparr> r
      in (r, view))"

definition spawn ::
  "task_id \<Rightarrow> int \<Rightarrow> string \<Rightarrow> task_kind \<Rightarrow> string \<Rightarrow> ('d, 'j) registry \<Rightarrow>
   ('d, 'j) registry \<times> task_view" where
  "spawn i now user_id kind title =
     spawn_with_meta i now user_id kind title \<lparr>sm_owner_todo = [], sm_spawn_marker = None\<rparr>"

definition view_to_row :: "('d, 'j) registry_env \<Rightarrow> string \<Rightarrow> task_view \<Rightarrow> 'j task_row option" where
  "view_to_row env user_id view =
     (case re_to_json env (tv_kind view) of None \<Rightarrow> None
      | Some kind_json \<Rightarrow>
          Some \<lparr>row_id = tv_id view, row_user_id = user_id, row_kind_json = kind_json,
                row_status = api_status_to_db (tv_status view), row_parent_task_id = tv_parent view,
                row_title = tv_title view, row_last_error = tv_last_error view,
                row_progress_hint = tv_progress_hint view, row_started_at = tv_started_at view,
                row_ended_at = tv_ended_at view, row_owner_todo = tv_owner_todo view,
                row_spawn_marker = tv_spawn_marker view\<rparr>)"

definition persist_create ::
  "('d, 'j) registry_env \<Rightarrow> string \<Rightarrow> task_view \<Rightarrow> ('d, 'j) registry \<Rightarrow> ('d, 'j) registry" where
  "persist_create env user_id view r =
     (case rg_store r of None \<Rightarrow> r
      | Some store \<Rightarrow>
          (case view_to_row env user_id view of None \<Rightarrow> r
           | Some row \<Rightarrow> r\<lparr>rg_store := Some (fst (re_create_task env row store))\<rparr>))"

definition persist_update ::
  "('d, 'j) registry_env \<Rightarrow> task_id \<Rightarrow> string \<Rightarrow> db_status \<Rightarrow> string option \<Rightarrow> string option \<Rightarrow>
   int option \<Rightarrow> ('d, 'j) registry \<Rightarrow> ('d, 'j) registry" where
  "persist_update env i user_id status last_error progress_hint ended_at r =
     (case rg_store r of None \<Rightarrow> r
      | Some store \<Rightarrow>
          r\<lparr>rg_store := Some (fst (re_update_task env user_id i status last_error progress_hint
                                   ended_at store))\<rparr>)"

definition row_to_view :: "('d, 'j) registry_env \<Rightarrow> 'j task_row \<Rightarrow> task_view option" where
  "row_to_view env row =
     (case re_from_json env (row_kind_json row) of None \<Rightarrow> None
      | Some kind \<Rightarrow>
          Some \<lparr>tv_id = row_id row, tv_kind = kind, tv_status = db_status_to_api (row_status row),
                tv_started_at = row_started_at row, tv_ended_at = row_ended_at row,
                tv_last_error = row_last_error row, tv_parent = row_parent_task_id row,
                tv_children = [], tv_title = row_title row, tv_progress_hint = row_progress_hint row,
                tv_owner_todo = row_owner_todo row, tv_spawn_marker = row_spawn_marker row\<rparr>)"

section \<open>Queries and cancellation\<close>

definition cancel ::
  "string \<Rightarrow> task_id \<Rightarrow> ('d, 'j) registry \<Rightarrow> ('d, 'j) registry \<times> (task_error + unit)" where
  "cancel user_id i r =
     (case hm_get (rg_tasks r) i of
        None \<Rightarrow> (r, Inl TaskNotFound)
      | Some s \<Rightarrow>
          if ts_owner s \<noteq> user_id then (r, Inl TaskNotFound)
          else if is_terminal (tv_status (ts_view s)) then (r, Inl TaskAlreadyTerminal)
          else (r\<lparr>rg_tasks := hm_modify i (\<lambda>s. s\<lparr>ts_token := True\<rparr>) (rg_tasks r)\<rparr>, Inr ()))"

definition list_tasks ::
  "string \<Rightarrow> bool \<Rightarrow> nat option \<Rightarrow> ('d, 'j) registry \<Rightarrow> task_view list" where
  "list_tasks user_id include_finished limit r =
     (let out = map (ts_view \<circ> snd)
                  (filter (\<lambda>(_, s). include_finished \<or> is_live (tv_status (ts_view s)))
                    (filter (\<lambda>(_, s). ts_owner s = user_id) (rg_tasks r)));
          out = sort_key (\<lambda>view. - tv_started_at view) out
      in case limit of None \<Rightarrow> out | Some n \<Rightarrow> take n out)"

definition get_task :: "string \<Rightarrow> task_id \<Rightarrow> ('d, 'j) registry \<Rightarrow> task_view option" where
  "get_task user_id i r =
     (case hm_get (rg_tasks r) i of None \<Rightarrow> None
      | Some s \<Rightarrow> if ts_owner s \<noteq> user_id then None else Some (ts_view s))"

text \<open>\<open>scope\<close> is the caller's \<^verbatim>\<open>current_user_id()\<close> task-local, which the store filters on.\<close>

definition get_or_load ::
  "('d, 'j) registry_env \<Rightarrow> string \<Rightarrow> string \<Rightarrow> task_id \<Rightarrow> ('d, 'j) registry \<Rightarrow> task_view option" where
  "get_or_load env scope user_id i r =
     (case get_task user_id i r of
        Some view \<Rightarrow> Some view
      | None \<Rightarrow>
          (case rg_store r of None \<Rightarrow> None
           | Some store \<Rightarrow>
               (case re_get_task env scope i store of
                  Inr (Some row) \<Rightarrow> if row_user_id row \<noteq> user_id then None else row_to_view env row
                | Inr None \<Rightarrow> None
                | Inl e \<Rightarrow> None)))"

definition any_non_terminal_under_owner_prefix ::
  "string \<Rightarrow> string \<Rightarrow> string \<Rightarrow> ('d, 'j) registry \<Rightarrow> bool" where
  "any_non_terminal_under_owner_prefix user_id session_conversation_id owner_prefix r \<longleftrightarrow>
     list_ex (\<lambda>(_, s). ts_owner s = user_id \<and> is_live (tv_status (ts_view s)) \<and>
         task_session_conversation (tv_kind (ts_view s)) = Some session_conversation_id \<and>
         owner_under_prefix (tv_owner_todo (ts_view s)) owner_prefix)
       (rg_tasks r)"

definition task_logs ::
  "string \<Rightarrow> task_id \<Rightarrow> nat \<Rightarrow> nat \<Rightarrow> ('d, 'j) registry \<Rightarrow>
   task_error + 'j task_log_entry list \<times> nat" where
  "task_logs user_id i after_seq limit r =
     (case hm_get (rg_tasks r) i of
        None \<Rightarrow> Inl TaskNotFound
      | Some s \<Rightarrow>
          if ts_owner s \<noteq> user_id then Inl TaskNotFound
          else (let entries = take limit (filter (\<lambda>e. after_seq < le_seq e) (ts_logs s));
                    next_seq = (if entries = [] then ts_next_seq s else le_seq (last entries) + 1)
                in Inr (entries, next_seq)))"

section \<open>The cold-restart sweep\<close>

fun sweep_error :: "task_kind \<Rightarrow> string" where
  "sweep_error (ConversationKind _) = ''daemon restarted mid-turn''"
| "sweep_error (SubagentKind _ _ _ _ _) = ''daemon restarted mid-turn''"
| "sweep_error (StandaloneKind _ _) = ''daemon restarted; resume not yet implemented''"
| "sweep_error (MaintenanceKind _) = ''daemon restarted; maintenance pass not resumed''"

definition sweep_view :: "int \<Rightarrow> task_kind \<Rightarrow> 'j task_row \<Rightarrow> task_view" where
  "sweep_view now kind row =
     \<lparr>tv_id = row_id row, tv_kind = kind, tv_status = Failed, tv_started_at = row_started_at row,
      tv_ended_at = Some now, tv_last_error = Some (sweep_error kind),
      tv_parent = row_parent_task_id row, tv_children = [], tv_title = row_title row,
      tv_progress_hint = row_progress_hint row, tv_owner_todo = row_owner_todo row,
      tv_spawn_marker = row_spawn_marker row\<rparr>"

definition sweep_row ::
  "('d, 'j) registry_env \<Rightarrow> int \<Rightarrow> 'j task_row \<Rightarrow> ('d, 'j) registry \<times> nat \<Rightarrow>
   ('d, 'j) registry \<times> nat" where
  "sweep_row env now row rc =
     (case rc of (r, count) \<Rightarrow>
        (case re_from_json env (row_kind_json row) of
           None \<Rightarrow> (r, count)
         | Some kind \<Rightarrow>
             (case rg_store r of
                None \<Rightarrow> (r, count)
              | Some store \<Rightarrow>
                  (let last_error = sweep_error kind;
                       (store, res) = re_update_task env (row_user_id row) (row_id row) DbFailed
                                        (Some last_error) (row_progress_hint row) (Some now) store;
                       r = r\<lparr>rg_store := Some store\<rparr>
                   in if isl res then (r, count)
                      else
                        (let view = sweep_view now kind row;
                             entry = \<lparr>le_seq = 1, le_timestamp = now, le_level = LogWarn,
                                      le_category = Lifecycle, le_message = last_error,
                                      le_data = None\<rparr>;
                             state = \<lparr>ts_owner = row_user_id row, ts_view = view, ts_token = False,
                                      ts_logs = [entry], ts_next_seq = 2, ts_completed = True\<rparr>;
                             tasks = hm_insert (row_id row) state (rg_tasks r);
                             tasks = (case tv_parent view of None \<Rightarrow> tasks
                                      | Some p \<Rightarrow> hm_modify p (add_child (row_id row)) tasks);
                             r = broadcast (row_user_id row) (TaskStarted view) (r\<lparr>rg_tasks := tasks\<rparr>);
                             r = broadcast (row_user_id row)
                                   (TaskCompleted (row_id row) Failed (Some last_error)) r
                         in (r, sat_add_u32 count 1))))))"

definition sweep_non_terminal_on_startup ::
  "('d, 'j) registry_env \<Rightarrow> int \<Rightarrow> ('d, 'j) registry \<Rightarrow> ('d, 'j) registry \<times> (string + nat)" where
  "sweep_non_terminal_on_startup env now r =
     (case rg_store r of
        None \<Rightarrow> (r, Inr 0)
      | Some store \<Rightarrow>
          (case re_scan_non_terminal env store of
             Inl e \<Rightarrow> (r, Inl e)
           | Inr rows \<Rightarrow>
               (let rows = sort_key (\<lambda>row. row_parent_task_id row \<noteq> None) rows;
                    (r, count) = fold (sweep_row env now) rows (r, 0)
                in (r, Inr count))))"

section \<open>Finalization\<close>

record fin_snapshot =
  fs_status :: task_status
  fs_last_error :: "string option"
  fs_progress_hint :: "string option"
  fs_ended_at :: int
  fs_parent :: "task_id option"
  fs_kind :: task_kind
  fs_owner_todo :: string

definition finalize_outcome :: "string + unit \<Rightarrow> bool \<Rightarrow> task_status \<times> string option" where
  "finalize_outcome result cancelled =
     (case (result, cancelled) of
        (Inr _, True) \<Rightarrow> (Cancelled, None)
      | (Inl e, True) \<Rightarrow> (Cancelled, Some e)
      | (Inr _, False) \<Rightarrow> (Completed, None)
      | (Inl e, False) \<Rightarrow> (Failed, Some e))"

definition finalize_mark ::
  "int \<Rightarrow> task_id \<Rightarrow> string \<Rightarrow> string + unit \<Rightarrow> ('d, 'j) registry \<Rightarrow>
   ('d, 'j) registry \<times> fin_snapshot option" where
  "finalize_mark now i user_id result r =
     (case hm_get (rg_tasks r) i of
        None \<Rightarrow> (r, None)
      | Some s \<Rightarrow>
          (let (status, err) = finalize_outcome result (ts_token s);
               finish = (\<lambda>s. s\<lparr>ts_view := (ts_view s)\<lparr>tv_status := status, tv_ended_at := Some now,
                            tv_last_error := err, tv_progress_hint := None\<rparr>, ts_completed := True\<rparr>);
               r = r\<lparr>rg_tasks := hm_modify i finish (rg_tasks r)\<rparr>
           in (broadcast user_id (TaskCompleted i status err) r,
               Some \<lparr>fs_status = status, fs_last_error = err, fs_progress_hint = None,
                     fs_ended_at = now, fs_parent = tv_parent (ts_view s),
                     fs_kind = tv_kind (ts_view s), fs_owner_todo = tv_owner_todo (ts_view s)\<rparr>)))"

definition finalize_persist ::
  "('d, 'j) registry_env \<Rightarrow> task_id \<Rightarrow> string \<Rightarrow> fin_snapshot \<Rightarrow> ('d, 'j) registry \<Rightarrow>
   ('d, 'j) registry" where
  "finalize_persist env i user_id f =
     persist_update env i user_id (api_status_to_db (fs_status f)) (fs_last_error f)
       (fs_progress_hint f) (Some (fs_ended_at f))"

definition is_live_sibling :: "task_id \<Rightarrow> 'j task_state \<Rightarrow> bool" where
  "is_live_sibling parent s \<longleftrightarrow>
     \<not> is_terminal (tv_status (ts_view s)) \<and> parent_task_id (tv_kind (ts_view s)) = Some parent"

definition siblings_remaining :: "task_kind \<Rightarrow> (task_id, 'j task_state) hashmap \<Rightarrow> nat" where
  "siblings_remaining kind tasks =
     (case parent_task_id kind of None \<Rightarrow> 0
      | Some p \<Rightarrow> length (filter (\<lambda>(_, s). is_live_sibling p s) tasks))"

definition drop_child :: "task_id \<Rightarrow> 'j task_state \<Rightarrow> 'j task_state" where
  "drop_child i s =
     s\<lparr>ts_view := (ts_view s)\<lparr>tv_children := filter (\<lambda>c. c \<noteq> i) (tv_children (ts_view s))\<rparr>\<rparr>"

definition finalize_evict ::
  "task_id \<Rightarrow> fin_snapshot \<Rightarrow> ('d, 'j) registry \<Rightarrow> ('d, 'j) registry \<times> nat" where
  "finalize_evict i f r =
     (let remaining = siblings_remaining (fs_kind f) (rg_tasks r);
          tasks = hm_remove i (rg_tasks r);
          tasks = (case fs_parent f of None \<Rightarrow> tasks | Some p \<Rightarrow> hm_modify p (drop_child i) tasks)
      in (r\<lparr>rg_tasks := tasks\<rparr>, remaining))"

text \<open>The waiters enrolled with the task's \<^verbatim>\<open>Notify\<close>, all of which \<^verbatim>\<open>notify_waiters\<close> wakes.\<close>

definition finalize_wake :: "task_id \<Rightarrow> ('d, 'j) registry \<Rightarrow> ('d, 'j) registry \<times> nat list" where
  "finalize_wake i r =
     (case hm_get (rg_notify r) i of
        None \<Rightarrow> (r, [])
      | Some ws \<Rightarrow> (r\<lparr>rg_notify := hm_remove i (rg_notify r)\<rparr>, ws))"

definition finalize_signal ::
  "task_id \<Rightarrow> string \<Rightarrow> fin_snapshot \<Rightarrow> nat \<Rightarrow> ('d, 'j) registry \<Rightarrow> ('d, 'j) registry" where
  "finalize_signal i user_id f remaining r =
     (case fs_kind f of
        SubagentKind p conversation_id name session_conversation_id notify_parent \<Rightarrow>
          if rg_observer_set r then
            r\<lparr>rg_signals := rg_signals r @
               [\<lparr>sc_user = user_id, sc_parent_task_id = p, sc_child_conversation_id = conversation_id,
                 sc_session_conversation_id = session_conversation_id, sc_child_task_id = i,
                 sc_child_name = name, sc_owner_todo = fs_owner_todo f, sc_status = fs_status f,
                 sc_siblings_remaining = remaining, sc_notify_parent = notify_parent\<rparr>]\<rparr>
          else r
      | _ \<Rightarrow> r)"

definition finalize ::
  "('d, 'j) registry_env \<Rightarrow> int \<Rightarrow> task_id \<Rightarrow> string \<Rightarrow> string + unit \<Rightarrow> ('d, 'j) registry \<Rightarrow>
   ('d, 'j) registry \<times> nat list" where
  "finalize env now i user_id result r =
     (case finalize_mark now i user_id result r of
        (r, None) \<Rightarrow> (r, [])
      | (r, Some f) \<Rightarrow>
          (let r = finalize_persist env i user_id f r;
               (r, remaining) = finalize_evict i f r;
               (r, woken) = finalize_wake i r
           in (finalize_signal i user_id f remaining r, woken)))"

section \<open>Waiting\<close>

definition wait_check :: "task_id \<Rightarrow> ('d, 'j) registry \<Rightarrow> bool" where
  "wait_check i r =
     (case hm_get (rg_tasks r) i of None \<Rightarrow> True | Some s \<Rightarrow> ts_completed s)"

definition wait_enroll :: "nat \<Rightarrow> task_id \<Rightarrow> ('d, 'j) registry \<Rightarrow> ('d, 'j) registry" where
  "wait_enroll w i r =
     r\<lparr>rg_notify := hm_insert i
         ((case hm_get (rg_notify r) i of None \<Rightarrow> [] | Some ws \<Rightarrow> ws) @ [w]) (rg_notify r)\<rparr>"

section \<open>The shape of the registry\<close>

lemma broadcast_simps [simp]:
  "rg_tasks (broadcast u e r) = rg_tasks r" "rg_notify (broadcast u e r) = rg_notify r"
  "rg_log_ring_capacity (broadcast u e r) = rg_log_ring_capacity r"
  "rg_store (broadcast u e r) = rg_store r" "rg_signals (broadcast u e r) = rg_signals r"
  "rg_observer_set (broadcast u e r) = rg_observer_set r"
  by (simp_all add: broadcast_def split: option.split)

text \<open>
  A well-formed task: stored under its own id, completed exactly when its status is
  terminal, and with a log that is the most recent slice of what was logged, its sequence
  numbers running without a gap up to the next one.
\<close>

definition task_ok :: "nat \<Rightarrow> task_id \<Rightarrow> 'j task_state \<Rightarrow> bool" where
  "task_ok cap i s \<longleftrightarrow>
     tv_id (ts_view s) = i \<and> (ts_completed s \<longleftrightarrow> is_terminal (tv_status (ts_view s))) \<and>
     length (ts_logs s) \<le> cap \<and> length (ts_logs s) < ts_next_seq s \<and>
     map le_seq (ts_logs s) = [ts_next_seq s - length (ts_logs s)..<ts_next_seq s]"

definition reg_ok :: "('d, 'j) registry \<Rightarrow> bool" where
  "reg_ok r \<longleftrightarrow>
     0 < rg_log_ring_capacity r \<and> hm_ok (rg_tasks r) \<and>
     (\<forall>i s. hm_get (rg_tasks r) i = Some s \<longrightarrow> task_ok (rg_log_ring_capacity r) i s)"

lemma push_log_recent:
  "length b \<le> cap \<Longrightarrow> 0 < cap \<Longrightarrow> push_log cap b x = drop (Suc (length b) - cap) (b @ [x])"
  by (cases "length b = cap") (auto simp: push_log_def)

text \<open>With a positive capacity the log ring is a most-recent buffer.\<close>

interpretation ring: recent_buffer "Suc c" "push_log (Suc c)"
  by unfold_locales (simp add: push_log_recent)

lemma task_ok_log:
  assumes "task_ok cap i s" "0 < cap"
  shows "task_ok cap i (log_state cap now l s)"
proof -
  let ?n = "ts_next_seq s" and ?ls = "ts_logs s"
  obtain c where c: "cap = Suc c" using assms(2) by (cases cap) auto
  have le: "length ?ls \<le> cap" "length ?ls < ?n" and seqs: "map le_seq ?ls = [?n - length ?ls..<?n]"
    using assms(1) by (auto simp: task_ok_def)
  let ?ls' = "push_log cap ?ls (next_entry now l s)"
  have "map le_seq ?ls' = drop (Suc (length ?ls) - cap) (map le_seq (?ls @ [next_entry now l s]))"
    by (simp only: push_log_recent[OF le(1) assms(2)] drop_map)
  also have "map le_seq (?ls @ [next_entry now l s]) = [?n - length ?ls..<?n] @ [?n]"
    by (simp add: seqs next_entry_def)
  also have "[?n - length ?ls..<?n] @ [?n] = [?n - length ?ls..<Suc ?n]" by simp
  also have "drop (Suc (length ?ls) - cap) [?n - length ?ls..<Suc ?n] = [Suc ?n - length ?ls'..<Suc ?n]"
    using le push_log_recent[OF le(1) assms(2), of "next_entry now l s"] by (simp add: drop_upt)
  finally have "map le_seq ?ls' = [Suc ?n - length ?ls'..<Suc ?n]" .
  moreover have "length ?ls' \<le> cap" using ring.length_push[of ?ls c] le(1) c by simp
  moreover have "length ?ls' \<le> Suc (length ?ls)" by (simp add: push_log_def)
  ultimately show ?thesis using assms(1) le by (auto simp: task_ok_def log_state_def)
qed

lemma reg_ok_modify:
  assumes "reg_ok r" "\<And>s. task_ok (rg_log_ring_capacity r) i s \<Longrightarrow> task_ok (rg_log_ring_capacity r) i (f s)"
  shows "reg_ok (r\<lparr>rg_tasks := hm_modify i f (rg_tasks r)\<rparr>)"
  using assms by (auto simp: reg_ok_def hm_simps split: if_splits)

lemma reg_ok_broadcast [simp]: "reg_ok (broadcast u e r) = reg_ok r"
  by (simp add: reg_ok_def)

lemma reg_ok_sink_append: "reg_ok r \<Longrightarrow> reg_ok (sink_append now i l r)"
  by (auto simp: sink_append_def reg_ok_def[of r] intro!: reg_ok_modify task_ok_log split: option.split)

lemma reg_ok_append_log: "reg_ok r \<Longrightarrow> reg_ok (append_log now u i l r)"
  by (auto simp: append_log_def reg_ok_def[of r] intro!: reg_ok_modify task_ok_log split: option.split)

lemma reg_ok_progress: "reg_ok r \<Longrightarrow> reg_ok (set_progress_hint i h r)"
  by (auto simp: set_progress_hint_def intro!: reg_ok_modify split: option.split) (simp add: task_ok_def)

lemma reg_ok_cancel: "reg_ok r \<Longrightarrow> reg_ok (fst (cancel u i r))"
  by (auto simp: cancel_def intro!: reg_ok_modify split: option.split) (simp add: task_ok_def)

section \<open>User-scoped access\<close>

text \<open>
  The contract of an operation that names a task on behalf of a user: it looks at that one
  task, and a task of another user gives the answer an unknown id gives. A client of the
  contract cannot tell the two apart.
\<close>

locale user_scoped =
  fixes op :: "string \<Rightarrow> task_id \<Rightarrow> (task_id, 'j task_state) hashmap \<Rightarrow> 'r" and absent :: 'r
  assumes unknown: "hm_get m i = None \<Longrightarrow> op u i m = absent"
    and foreign: "hm_get m i = Some s \<Longrightarrow> ts_owner s \<noteq> u \<Longrightarrow> op u i m = absent"
begin

lemma hidden: "(\<And>s. hm_get m i = Some s \<Longrightarrow> ts_owner s \<noteq> u) \<Longrightarrow> op u i m = absent"
  by (cases "hm_get m i") (auto intro: unknown foreign)

lemma indistinguishable:
  assumes "\<And>s. hm_get m i = Some s \<Longrightarrow> ts_owner s \<noteq> u" "\<And>s. hm_get m' i = Some s \<Longrightarrow> ts_owner s \<noteq> u"
  shows "op u i m = op u i m'"
  using hidden[of m i u] hidden[of m' i u] assms by simp

end

interpretation scoped_get: user_scoped "\<lambda>u i m. get_task u i (r\<lparr>rg_tasks := m\<rparr>)" None for r
  by unfold_locales (simp_all add: get_task_def)

interpretation scoped_cancel:
  user_scoped "\<lambda>u i m. let (r', res) = cancel u i (r\<lparr>rg_tasks := m\<rparr>) in (res, rg_tasks r' = m)"
    "(Inl TaskNotFound, True)" for r
  by unfold_locales (simp_all add: cancel_def)

interpretation scoped_logs:
  user_scoped "\<lambda>u i m. task_logs u i a l (r\<lparr>rg_tasks := m\<rparr>)" "Inl TaskNotFound" for a l r
  by unfold_locales (simp_all add: task_logs_def)

interpretation scoped_append_log:
  user_scoped "\<lambda>u i m. (rg_channels (append_log now u i ln (r\<lparr>rg_tasks := m\<rparr>)),
      rg_tasks (append_log now u i ln (r\<lparr>rg_tasks := m\<rparr>)) = m)" "(rg_channels r, True)" for now ln r
  by unfold_locales (simp_all add: append_log_def)

section \<open>Paging\<close>

lemma filter_seq:
  assumes "map le_seq ls = [k..<k + length ls]"
  shows "filter (\<lambda>e. a < le_seq e) ls = drop (Suc a - k) ls"
  using assms
proof (induction ls arbitrary: k)
  case (Cons e ls)
  have e: "le_seq e = k" and rest: "map le_seq ls = [Suc k..<Suc k + length ls]"
    using Cons.prems by (simp_all add: upt_conv_Cons del: upt_Suc)
  show ?case
    using Cons.IH[OF rest] e by (cases "a < k") (auto simp: Suc_diff_le not_less)
qed simp

lemma task_ok_seq: "task_ok cap i s \<Longrightarrow>
    map le_seq (ts_logs s) = [ts_next_seq s - length (ts_logs s)..<(ts_next_seq s - length (ts_logs s)) + length (ts_logs s)]"
  by (simp add: task_ok_def)

lemma task_logs_page:
  assumes "task_ok cap i s" "hm_get (rg_tasks r) i = Some s" "ts_owner s = u"
  shows "task_logs u i a l r = Inr (let es = take l (drop (Suc a - (ts_next_seq s - length (ts_logs s))) (ts_logs s))
    in (es, if es = [] then ts_next_seq s else le_seq (last es) + 1))"
  using assms(2,3) filter_seq[OF task_ok_seq[OF assms(1)], of a] by (simp add: task_logs_def Let_def)

lemma last_page_seq:
  assumes ok: "task_ok cap i s" and es: "es = take l (drop d (ts_logs s))" "es \<noteq> []"
  shows "le_seq (last es) + 1 = ts_next_seq s - length (ts_logs s) + d + length es"
proof -
  let ?k = "ts_next_seq s - length (ts_logs s)" and ?ls = "ts_logs s"
  have len: "d + length es \<le> length ?ls" "0 < length es" using es by auto
  have "last es = ?ls ! (d + length es - 1)"
    using es len by (simp add: last_conv_nth nth_append add.commute)
  moreover have "[?k..<?k + length ?ls] ! (d + length es - 1) = ?k + (d + length es - 1)"
    by (rule nth_upt) (use len in linarith)
  then have "map le_seq ?ls ! (d + length es - 1) = ?k + (d + length es - 1)"
    using task_ok_seq[OF ok] by simp
  ultimately show ?thesis using len by simp
qed

section \<open>Finalization\<close>

lemma finalize_outcome_status:
  "fst (finalize_outcome result cancelled) = Cancelled \<longleftrightarrow> cancelled"
  "is_terminal (fst (finalize_outcome result cancelled))"
  by (cases result; cases cancelled; simp add: finalize_outcome_def is_terminal_def)+

text \<open>The siblings a finished subagent leaves behind, counted without it.\<close>

lemma siblings_after_mark:
  assumes "hm_ok tasks" "hm_get tasks i = Some s" "is_terminal (tv_status (ts_view (g s)))"
  shows "siblings_remaining kind (hm_modify i g tasks) =
    (case parent_task_id kind of None \<Rightarrow> 0
     | Some p \<Rightarrow> card {j. j \<noteq> i \<and> (\<exists>t. hm_get tasks j = Some t \<and> is_live_sibling p t)})"
proof (cases "parent_task_id kind")
  case (Some p)
  let ?f = "filter (\<lambda>(_, s). is_live_sibling p s) (hm_modify i g tasks)"
  have ok: "hm_ok (hm_modify i g tasks)" using assms(1) by simp
  then have d: "distinct (map fst ?f)" using hm_ok_filter[OF ok] by (simp add: hm_ok_def)
  have "set (map fst ?f) = {j. j \<noteq> i \<and> (\<exists>t. hm_get tasks j = Some t \<and> is_live_sibling p t)}"
    using hm_in_iff_get[OF ok] assms(2,3)
    by (auto simp: hm_simps is_live_sibling_def image_iff split: if_splits)
  then have "length ?f = card {j. j \<noteq> i \<and> (\<exists>t. hm_get tasks j = Some t \<and> is_live_sibling p t)}"
    using distinct_card[OF d] by simp
  then show ?thesis using Some by (simp add: siblings_remaining_def)
qed (simp add: siblings_remaining_def)

lemma finalize_effect:
  assumes "hm_ok (rg_tasks r)" "hm_get (rg_tasks r) i = Some s" "finalize env now i u result r = (r', woken)"
  shows "\<exists>st. (st = Cancelled \<longleftrightarrow> ts_token s) \<and> is_terminal st \<and>
    hm_get (rg_tasks r') i = None \<and> hm_get (rg_notify r') i = None \<and>
    woken = (case hm_get (rg_notify r) i of None \<Rightarrow> [] | Some ws \<Rightarrow> ws) \<and>
    rg_signals r' = rg_signals r @
      (case tv_kind (ts_view s) of
         SubagentKind p c nm sess np \<Rightarrow>
           if rg_observer_set r then
             [\<lparr>sc_user = u, sc_parent_task_id = p, sc_child_conversation_id = c,
               sc_session_conversation_id = sess, sc_child_task_id = i, sc_child_name = nm,
               sc_owner_todo = tv_owner_todo (ts_view s), sc_status = st,
               sc_siblings_remaining =
                 card {j. j \<noteq> i \<and> (\<exists>t. hm_get (rg_tasks r) j = Some t \<and> is_live_sibling p t)},
               sc_notify_parent = np\<rparr>]
           else []
       | _ \<Rightarrow> [])"
proof -
  obtain st err where o: "finalize_outcome result (ts_token s) = (st, err)" by fastforce
  have st: "st = Cancelled \<longleftrightarrow> ts_token s" "is_terminal st"
    using finalize_outcome_status[of result "ts_token s"] o by auto
  define g where "g = (\<lambda>s :: 'a task_state. s\<lparr>ts_view := (ts_view s)\<lparr>tv_status := st, tv_ended_at := Some now,
                            tv_last_error := err, tv_progress_hint := None\<rparr>, ts_completed := True\<rparr>)"
  define f where "f = \<lparr>fs_status = st, fs_last_error = err, fs_progress_hint = None, fs_ended_at = now,
      fs_parent = tv_parent (ts_view s), fs_kind = tv_kind (ts_view s), fs_owner_todo = tv_owner_todo (ts_view s)\<rparr>"
  define r1 where "r1 = broadcast u (TaskCompleted i st err) (r\<lparr>rg_tasks := hm_modify i g (rg_tasks r)\<rparr>)"
  have "finalize_mark now i u result r = (r1, Some f)"
    using assms(2) o by (simp add: finalize_mark_def Let_def r1_def f_def g_def)
  moreover obtain r2 n where r2: "finalize_evict i f (finalize_persist env i u f r1) = (r2, n)" by fastforce
  moreover obtain r3 ws where r3: "finalize_wake i r2 = (r3, ws)" by fastforce
  ultimately have fin: "r' = finalize_signal i u f n r3" "woken = ws" using assms(3) by (auto simp: finalize_def)
  have n: "n = siblings_remaining (tv_kind (ts_view s)) (hm_modify i g (rg_tasks r))"
    and t2: "hm_get (rg_tasks r2) i = None" "rg_notify r2 = rg_notify r" "rg_signals r2 = rg_signals r"
      "rg_observer_set r2 = rg_observer_set r"
    using r2 by (auto simp: finalize_evict_def finalize_persist_def persist_update_def r1_def f_def Let_def
        hm_simps split: option.splits)
  have t3: "rg_tasks r3 = rg_tasks r2" "hm_get (rg_notify r3) i = None" "rg_signals r3 = rg_signals r2"
      "rg_observer_set r3 = rg_observer_set r2" "ws = (case hm_get (rg_notify r2) i of None \<Rightarrow> [] | Some ws \<Rightarrow> ws)"
    using r3 by (auto simp: finalize_wake_def hm_simps split: option.splits)
  have sib: "n = (case parent_task_id (tv_kind (ts_view s)) of None \<Rightarrow> 0
     | Some p \<Rightarrow> card {j. j \<noteq> i \<and> (\<exists>t. hm_get (rg_tasks r) j = Some t \<and> is_live_sibling p t)})"
    unfolding n by (rule siblings_after_mark[OF assms(1,2)]) (simp add: g_def st)
  show ?thesis
    using st t2 t3 by (intro exI[of _ st]) (simp add: fin sib finalize_signal_def f_def split: task_kind.split)
qed

section \<open>Properties\<close>

text \<open>
  C30: existence hiding. Whatever the registry holds under an id that is not the caller's,
  every operation that names it answers as it does for an id that does not exist: no view,
  "not found" for a cancellation and for the logs, and neither a cancellation nor a log line
  changes anything. A listing shows the caller's own tasks only.
\<close>

theorem foreign_tasks_are_hidden:
  assumes "\<And>s. hm_get (rg_tasks r) i = Some s \<Longrightarrow> ts_owner s \<noteq> u"
  shows "get_task u i r = None \<and> cancel u i r = (r, Inl TaskNotFound) \<and>
    task_logs u i a l r = Inl TaskNotFound \<and> append_log now u i ln r = r \<and>
    (\<forall>v\<in>set (list_tasks u fin lim r). \<exists>s\<in>snd ` set (rg_tasks r). ts_owner s = u \<and> v = ts_view s)"
proof -
  have "get_task u i (r\<lparr>rg_tasks := rg_tasks r\<rparr>) = None"
    by (rule scoped_get.hidden) (rule assms)
  moreover have "task_logs u i a l (r\<lparr>rg_tasks := rg_tasks r\<rparr>) = Inl TaskNotFound"
    by (rule scoped_logs.hidden) (rule assms)
  moreover have "cancel u i r = (r, Inl TaskNotFound)" "append_log now u i ln r = r"
    using assms by (auto simp: cancel_def append_log_def split: option.split)
  moreover have "\<exists>s\<in>snd ` set (rg_tasks r). ts_owner s = u \<and> v = ts_view s"
    if "v \<in> set (list_tasks u fin lim r)" for v
    using that by (force simp: list_tasks_def Let_def split: option.splits dest!: in_set_takeD)
  ultimately show ?thesis by simp
qed

definition example_registry :: "(unit, unit) registry" where
  "example_registry = fst (spawn ''t1'' 5 ''dave'' (MaintenanceKind ''dream'') ''Dream'' registry_new)"

lemma example_registry_get:
  "hm_get (rg_tasks example_registry) ''t1'' = Some
     \<lparr>ts_owner = ''dave'', ts_view = \<lparr>tv_id = ''t1'', tv_kind = MaintenanceKind ''dream'', tv_status = Running,
        tv_started_at = 5, tv_ended_at = None, tv_last_error = None, tv_parent = None, tv_children = [],
        tv_title = ''Dream'', tv_progress_hint = None, tv_owner_todo = [], tv_spawn_marker = None\<rparr>,
      ts_token = False, ts_logs = [\<lparr>le_seq = 1, le_timestamp = 5, le_level = LogInfo,
        le_category = Lifecycle, le_message = ''task started'', le_data = None\<rparr>],
      ts_next_seq = 2, ts_completed = False\<rparr>"
  by (simp add: example_registry_def spawn_def spawn_with_meta_def registry_new_def with_config_def
      Let_def broadcast_def sink_append_def hm_simps log_state_def push_log_def next_entry_def)

theorem foreign_tasks_are_hidden_witness:
  "get_task ''dave'' ''t1'' example_registry \<noteq> None \<and> get_task ''eve'' ''t1'' example_registry = None \<and>
   cancel ''eve'' ''t1'' example_registry = (example_registry, Inl TaskNotFound)"
  using foreign_tasks_are_hidden[of example_registry "''t1''" "''eve''"]
  by (simp add: get_task_def example_registry_get)

text \<open>
  paging through a task's log. A page starts at the first retained entry after the
  given sequence number, and resuming at one less than the returned \<open>next_seq\<close> continues
  exactly where the page stopped, without a gap or a repetition. Resuming at \<open>next_seq\<close>
  itself, as the wire contract tells clients to, never returns the entry that carries that
  number.
\<close>

theorem log_paging:
  assumes "task_ok cap i s" "hm_get (rg_tasks r) i = Some s" "ts_owner s = u"
    and "task_logs u i a l r = Inr (es, next_seq)" "es \<noteq> []"
  shows "\<exists>es2 n2. task_logs u i (next_seq - 1) l2 r = Inr (es2, n2) \<and>
      es @ es2 = take (length es + l2) (filter (\<lambda>e. a < le_seq e) (ts_logs s)) \<and>
      (\<forall>l3 es3 n3. task_logs u i next_seq l3 r = Inr (es3, n3) \<longrightarrow>
         (\<forall>e\<in>set (es @ es3). le_seq e \<noteq> next_seq))"
proof -
  let ?ls = "ts_logs s" and ?k = "ts_next_seq s - length (ts_logs s)"
  let ?d = "Suc a - ?k"
  note page = task_logs_page[OF assms(1-3)]
  have es: "es = take l (drop ?d ?ls)" and n: "next_seq = le_seq (last es) + 1"
    using assms(4,5) page[of a l] by (auto simp: Let_def)
  have nx: "next_seq = ?k + ?d + length es" using last_page_seq[OF assms(1) es assms(5)] n by simp
  have kpos: "0 < length es" using assms(5) by simp
  have "Suc (next_seq - 1) - ?k = ?d + length es" using nx kpos by simp
  then have two: "task_logs u i (next_seq - 1) l2 r =
      Inr (let es2 = take l2 (drop (?d + length es) ?ls) in
        (es2, if es2 = [] then ts_next_seq s else le_seq (last es2) + 1))"
    using page[of "next_seq - 1" l2] by simp
  have "es = take (length es) (drop ?d ?ls)" using es by (metis append_eq_conv_conj append_take_drop_id)
  then have "es @ take l2 (drop (?d + length es) ?ls) = take (length es + l2) (drop ?d ?ls)"
    by (metis add.commute drop_drop take_add)
  then have "es @ take l2 (drop (?d + length es) ?ls) = take (length es + l2) (filter (\<lambda>e. a < le_seq e) ?ls)"
    using filter_seq[OF task_ok_seq[OF assms(1)], of a] by simp
  moreover have "\<forall>e\<in>set (es @ es3). le_seq e \<noteq> next_seq"
    if three: "task_logs u i next_seq l3 r = Inr (es3, n3)" for l3 es3 n3
  proof -
    have "set es3 \<subseteq> {e. next_seq < le_seq e}"
      using three assms(2,3) by (auto simp: task_logs_def Let_def dest!: in_set_takeD)
    moreover have "le_seq e < next_seq" if mem: "e \<in> set es" for e
    proof -
      obtain j where j: "j < length es" "e = ?ls ! (?d + j)" "?d + j < length ?ls"
        using mem unfolding es by (auto simp: in_set_conv_nth)
      have "map le_seq ?ls ! (?d + j) = ?k + (?d + j)"
        unfolding task_ok_seq[OF assms(1)] by (rule nth_upt) (use j(3) in simp)
      then show ?thesis using j nx by simp
    qed
    ultimately show ?thesis by fastforce
  qed
  ultimately show ?thesis using two unfolding Let_def by blast
qed

theorem log_paging_witness:
  "\<exists>es2 n2. task_logs ''dave'' ''t1'' (2 - 1) 5 example_registry = Inr (es2, n2) \<and> es2 = []"
proof -
  let ?s = "the (hm_get (rg_tasks example_registry) ''t1'')"
  have ok: "task_ok 1000 ''t1'' ?s"
    by (simp add: example_registry_get task_ok_def is_terminal_def numeral_2_eq_2)
  have p: "task_logs ''dave'' ''t1'' 0 5 example_registry = Inr (ts_logs ?s, 2)"
    by (simp add: task_logs_def example_registry_get Let_def)
  have g: "hm_get (rg_tasks example_registry) ''t1'' = Some ?s" "ts_owner ?s = ''dave''" "ts_logs ?s \<noteq> []"
    by (simp_all add: example_registry_get)
  from log_paging[OF ok g(1,2) p g(3), of 5] show ?thesis
    by (auto simp: example_registry_get)
qed

text \<open>
  finishing a task. Its status is \<open>Cancelled\<close> exactly when cancellation was requested,
  whatever its body returned; it leaves the map, every waiter enrolled for it is woken, and a
  subagent is signalled exactly once, with that status and with the number of its
  parent's other subagents that have not finished.
\<close>

theorem finalize_task:
  assumes "hm_ok (rg_tasks r)" "hm_get (rg_tasks r) i = Some s" "finalize env now i u result r = (r', woken)"
  shows "\<exists>st. (st = Cancelled \<longleftrightarrow> ts_token s) \<and> is_terminal st \<and>
    hm_get (rg_tasks r') i = None \<and> hm_get (rg_notify r') i = None \<and>
    woken = (case hm_get (rg_notify r) i of None \<Rightarrow> [] | Some ws \<Rightarrow> ws) \<and>
    rg_signals r' = rg_signals r @
      (case tv_kind (ts_view s) of
         SubagentKind p c nm sess np \<Rightarrow>
           if rg_observer_set r then
             [\<lparr>sc_user = u, sc_parent_task_id = p, sc_child_conversation_id = c,
               sc_session_conversation_id = sess, sc_child_task_id = i, sc_child_name = nm,
               sc_owner_todo = tv_owner_todo (ts_view s), sc_status = st,
               sc_siblings_remaining =
                 card {j. j \<noteq> i \<and> (\<exists>t. hm_get (rg_tasks r) j = Some t \<and> is_live_sibling p t)},
               sc_notify_parent = np\<rparr>]
           else []
       | _ \<Rightarrow> [])"
  by (rule finalize_effect[OF assms])

definition null_env :: "(unit, unit) registry_env" where
  "null_env = \<lparr>re_to_json = (\<lambda>_. None), re_from_json = (\<lambda>_. None), re_create_task = (\<lambda>_ d. (d, Inr ())),
     re_update_task = (\<lambda>_ _ _ _ _ _ d. (d, Inr ())), re_get_task = (\<lambda>_ _ _. Inr None),
     re_scan_non_terminal = (\<lambda>_. Inr [])\<rparr>"

theorem finalize_task_witness:
  "hm_get (rg_tasks (fst (finalize null_env 9 ''t1'' ''dave'' (Inr ()) example_registry))) ''t1'' = None \<and>
   rg_signals (fst (finalize null_env 9 ''t1'' ''dave'' (Inr ()) example_registry)) = []"
proof -
  have "hm_ok (rg_tasks example_registry)"
    by (simp add: example_registry_def spawn_def spawn_with_meta_def registry_new_def with_config_def
        Let_def broadcast_def sink_append_def hm_ok_def)
  moreover have "rg_signals example_registry = []"
    by (simp add: example_registry_def spawn_def spawn_with_meta_def registry_new_def with_config_def
        Let_def broadcast_def sink_append_def)
  ultimately show ?thesis
    using finalize_task[OF _ example_registry_get prod.collapse[symmetric], of null_env 9 "''dave''" "Inr ()"]
    by auto
qed

end
