(* ===== verification/Task_Machine.thy ===== *)
theory Task_Machine
  imports Task_Registry
begin

text \<open>
  The registry under concurrency: the steps of \<^verbatim>\<open>Task_Registry\<close> interleaved in any order. A
  task that finishes runs \<open>finalize\<close> in five steps, and a caller of \<open>wait\<close> checks, enrolls,
  checks again and only then sleeps; other operations may come in between any two of
  them. The invariant says that the log ring, the links between parents and children and
  the completion flags are right at every moment, and that no waiter sleeps on a task
  nobody will wake it for.
\<close>

section \<open>Steps\<close>

datatype fin_state =
    FinMarked string fin_snapshot
  | FinPersisted string fin_snapshot
  | FinEvicted string fin_snapshot nat
  | FinWoken string fin_snapshot nat

datatype wait_phase = WChecked | WEnrolled | WAwaiting | WDone

record ('d, 'j) mstate =
  ms_reg :: "('d, 'j) registry"
  ms_used :: "task_id set"
  ms_fin :: "task_id \<Rightarrow> fin_state option"
  ms_wait :: "nat \<Rightarrow> (task_id \<times> wait_phase) option"

definition wake_all ::
  "nat list \<Rightarrow> (nat \<Rightarrow> (task_id \<times> wait_phase) option) \<Rightarrow> nat \<Rightarrow> (task_id \<times> wait_phase) option" where
  "wake_all ws wt w =
     (case wt w of Some (i, WAwaiting) \<Rightarrow> if w \<in> set ws then Some (i, WDone) else wt w | x \<Rightarrow> x)"

text \<open>Operations that touch neither the set of tasks nor their completion.\<close>

inductive quiet_op :: "('d, 'j) registry_env \<Rightarrow> ('d, 'j) registry \<Rightarrow> ('d, 'j) registry \<Rightarrow> bool"
  for env where
  "quiet_op env r (sink_append now i l r)"
| "quiet_op env r (append_log now u i l r)"
| "quiet_op env r (set_progress_hint i h r)"
| "quiet_op env r (fst (cancel u i r))"
| "quiet_op env r (subscribe u r)"
| "quiet_op env r (broadcast u e r)"
| "quiet_op env r (persist_create env u view r)"
| "quiet_op env r (set_subagent_observer r)"

inductive mstep :: "('d, 'j) registry_env \<Rightarrow> ('d, 'j) mstate \<Rightarrow> ('d, 'j) mstate \<Rightarrow> bool"
  for env where
  m_quiet: "quiet_op env (ms_reg m) r \<Longrightarrow> mstep env m (m\<lparr>ms_reg := r\<rparr>)"
| m_spawn: "i \<notin> ms_used m \<Longrightarrow> parent_task_id kind \<noteq> Some i \<Longrightarrow>
    mstep env m (m\<lparr>ms_reg := fst (spawn_with_meta i now u kind title meta (ms_reg m)),
                   ms_used := insert i (ms_used m)\<rparr>)"
| m_mark: "hm_get (rg_tasks (ms_reg m)) i = Some s \<Longrightarrow> \<not> ts_completed s \<Longrightarrow>
    finalize_mark now i (ts_owner s) result (ms_reg m) = (r, Some f) \<Longrightarrow>
    mstep env m (m\<lparr>ms_reg := r, ms_fin := (ms_fin m)(i \<mapsto> FinMarked (ts_owner s) f)\<rparr>)"
| m_persist: "ms_fin m i = Some (FinMarked u f) \<Longrightarrow>
    mstep env m (m\<lparr>ms_reg := finalize_persist env i u f (ms_reg m),
                   ms_fin := (ms_fin m)(i \<mapsto> FinPersisted u f)\<rparr>)"
| m_evict: "ms_fin m i = Some (FinPersisted u f) \<Longrightarrow> finalize_evict i f (ms_reg m) = (r, n) \<Longrightarrow>
    mstep env m (m\<lparr>ms_reg := r, ms_fin := (ms_fin m)(i \<mapsto> FinEvicted u f n)\<rparr>)"
| m_wake: "ms_fin m i = Some (FinEvicted u f n) \<Longrightarrow> finalize_wake i (ms_reg m) = (r, ws) \<Longrightarrow>
    mstep env m (m\<lparr>ms_reg := r, ms_fin := (ms_fin m)(i \<mapsto> FinWoken u f n),
                   ms_wait := wake_all ws (ms_wait m)\<rparr>)"
| m_signal: "ms_fin m i = Some (FinWoken u f n) \<Longrightarrow>
    mstep env m (m\<lparr>ms_reg := finalize_signal i u f n (ms_reg m), ms_fin := (ms_fin m)(i := None)\<rparr>)"
| m_wait: "ms_wait m w = None \<Longrightarrow>
    mstep env m (m\<lparr>ms_wait := (ms_wait m)(w \<mapsto> (i, if wait_check i (ms_reg m) then WDone else WChecked))\<rparr>)"
| m_enroll: "ms_wait m w = Some (i, WChecked) \<Longrightarrow>
    mstep env m (m\<lparr>ms_reg := wait_enroll w i (ms_reg m), ms_wait := (ms_wait m)(w \<mapsto> (i, WEnrolled))\<rparr>)"
| m_recheck: "ms_wait m w = Some (i, WEnrolled) \<Longrightarrow>
    mstep env m (m\<lparr>ms_wait := (ms_wait m)(w \<mapsto> (i, if wait_check i (ms_reg m) then WDone else WAwaiting))\<rparr>)"

definition minit :: "('d, 'j) mstate \<Rightarrow> bool" where
  "minit m \<longleftrightarrow>
     rg_tasks (ms_reg m) = [] \<and> rg_notify (ms_reg m) = [] \<and> 0 < rg_log_ring_capacity (ms_reg m) \<and>
     ms_used m = {} \<and> ms_fin m = Map.empty \<and> ms_wait m = Map.empty"

section \<open>The invariant\<close>

definition enrolled :: "('d, 'j) registry \<Rightarrow> task_id \<Rightarrow> nat \<Rightarrow> bool" where
  "enrolled r i w \<longleftrightarrow> (\<exists>ws. hm_get (rg_notify r) i = Some ws \<and> w \<in> set ws)"

definition fin_inv :: "('d, 'j) mstate \<Rightarrow> task_id \<Rightarrow> bool" where
  "fin_inv m i \<longleftrightarrow>
     (case ms_fin m i of
        None \<Rightarrow> (\<forall>s. hm_get (rg_tasks (ms_reg m)) i = Some s \<longrightarrow> \<not> ts_completed s)
      | Some (FinMarked u f) \<Rightarrow> \<exists>s. hm_get (rg_tasks (ms_reg m)) i = Some s \<and> ts_completed s \<and>
          fs_parent f = tv_parent (ts_view s) \<and> fs_kind f = tv_kind (ts_view s)
      | Some (FinPersisted u f) \<Rightarrow> \<exists>s. hm_get (rg_tasks (ms_reg m)) i = Some s \<and> ts_completed s \<and>
          fs_parent f = tv_parent (ts_view s) \<and> fs_kind f = tv_kind (ts_view s)
      | Some (FinEvicted u f n) \<Rightarrow> hm_get (rg_tasks (ms_reg m)) i = None
      | Some (FinWoken u f n) \<Rightarrow> hm_get (rg_tasks (ms_reg m)) i = None)"

definition is_evicted :: "fin_state option \<Rightarrow> bool" where
  "is_evicted x \<longleftrightarrow> (case x of Some (FinEvicted _ _ _) \<Rightarrow> True | _ \<Rightarrow> False)"

definition wait_inv :: "('d, 'j) mstate \<Rightarrow> nat \<Rightarrow> bool" where
  "wait_inv m w \<longleftrightarrow>
     (case ms_wait m w of
        None \<Rightarrow> True
      | Some (i, WDone) \<Rightarrow> True
      | Some (i, WChecked) \<Rightarrow> i \<in> ms_used m
      | Some (i, WEnrolled) \<Rightarrow> i \<in> ms_used m \<and>
          (hm_get (rg_tasks (ms_reg m)) i \<noteq> None \<longrightarrow> enrolled (ms_reg m) i w)
      | Some (i, WAwaiting) \<Rightarrow> i \<in> ms_used m \<and> enrolled (ms_reg m) i w \<and>
          (hm_get (rg_tasks (ms_reg m)) i \<noteq> None \<or> is_evicted (ms_fin m i)))"

definition links_ok :: "(task_id, 'j task_state) hashmap \<Rightarrow> bool" where
  "links_ok tasks \<longleftrightarrow>
     (\<forall>p s. hm_get tasks p = Some s \<longrightarrow> distinct (tv_children (ts_view s)) \<and>
        (\<forall>c\<in>set (tv_children (ts_view s)). \<exists>t. hm_get tasks c = Some t \<and> tv_parent (ts_view t) = Some p))"

definition minv :: "('d, 'j) mstate \<Rightarrow> bool" where
  "minv m \<longleftrightarrow>
     reg_ok (ms_reg m) \<and> links_ok (rg_tasks (ms_reg m)) \<and>
     (\<forall>i. hm_get (rg_tasks (ms_reg m)) i \<noteq> None \<longrightarrow> i \<in> ms_used m) \<and>
     (\<forall>i. ms_fin m i \<noteq> None \<longrightarrow> i \<in> ms_used m) \<and>
     (\<forall>i. fin_inv m i) \<and> (\<forall>w. wait_inv m w)"

text \<open>
  What the invariant reads of a task beyond its own well-formedness; quiet operations
  leave it alone.
\<close>

definition shape :: "'j task_state \<Rightarrow> string \<times> bool \<times> task_id option \<times> task_kind \<times> task_id list" where
  "shape s = (ts_owner s, ts_completed s, tv_parent (ts_view s), tv_kind (ts_view s), tv_children (ts_view s))"

definition same_shape :: "('d, 'j) registry \<Rightarrow> ('d, 'j) registry \<Rightarrow> bool" where
  "same_shape r r' \<longleftrightarrow>
     (\<forall>i. map_option shape (hm_get (rg_tasks r) i) = map_option shape (hm_get (rg_tasks r') i)) \<and>
     rg_notify r = rg_notify r'"

lemma same_shapeD:
  "same_shape r r' \<Longrightarrow> hm_get (rg_tasks r) i = Some s \<Longrightarrow>
   \<exists>s'. hm_get (rg_tasks r') i = Some s' \<and> shape s' = shape s"
  by (auto simp: same_shape_def) (metis map_option_eq_Some)

lemma same_shape_sym: "same_shape r r' \<Longrightarrow> same_shape r' r"
  by (simp add: same_shape_def)

lemma same_shape_None:
  "same_shape r r' \<Longrightarrow> hm_get (rg_tasks r) i = None \<longleftrightarrow> hm_get (rg_tasks r') i = None"
  by (metis option.map_disc_iff same_shape_def)

text \<open>The links read the parent and the children of a task only.\<close>

definition links_of :: "'j task_state \<Rightarrow> task_id option \<times> task_id list" where
  "links_of s = (tv_parent (ts_view s), tv_children (ts_view s))"

lemma links_ok_cong:
  assumes l: "links_ok t" and eq: "\<And>i. map_option links_of (hm_get t' i) = map_option links_of (hm_get t i)"
  shows "links_ok t'"
  unfolding links_ok_def
proof (intro allI impI)
  have some: "\<exists>s'. hm_get t' i = Some s' \<and> links_of s' = links_of s" if "hm_get t i = Some s" for i s
    using eq[of i] that by (cases "hm_get t' i") auto
  fix p s' assume "hm_get t' p = Some s'"
  then obtain s where s: "hm_get t p = Some s" "links_of s = links_of s'"
    using eq[of p] by (cases "hm_get t p") auto
  then have ch: "tv_children (ts_view s') = tv_children (ts_view s)" by (simp add: links_of_def)
  have d: "distinct (tv_children (ts_view s))" and
    c: "\<And>c. c \<in> set (tv_children (ts_view s)) \<Longrightarrow> \<exists>u. hm_get t c = Some u \<and> tv_parent (ts_view u) = Some p"
    using l s(1) unfolding links_ok_def by blast+
  have "\<exists>u. hm_get t' c = Some u \<and> tv_parent (ts_view u) = Some p"
    if mem: "c \<in> set (tv_children (ts_view s))" for c
  proof -
    obtain u where "hm_get t c = Some u" "tv_parent (ts_view u) = Some p" using c[OF mem] by blast
    then show ?thesis using some[of c u] by (auto simp: links_of_def)
  qed
  then show "distinct (tv_children (ts_view s')) \<and>
      (\<forall>c\<in>set (tv_children (ts_view s')). \<exists>t. hm_get t' c = Some t \<and> tv_parent (ts_view t) = Some p)"
    using ch d by simp
qed

lemma links_ok_shape:
  assumes "same_shape r r'" "links_ok (rg_tasks r)"
  shows "links_ok (rg_tasks r')"
proof (rule links_ok_cong[OF assms(2)])
  fix i
  have "map_option shape (hm_get (rg_tasks r') i) = map_option shape (hm_get (rg_tasks r) i)"
    using assms(1) by (simp add: same_shape_def)
  then show "map_option links_of (hm_get (rg_tasks r') i) = map_option links_of (hm_get (rg_tasks r) i)"
    by (cases "hm_get (rg_tasks r') i"; cases "hm_get (rg_tasks r) i") (auto simp: shape_def links_of_def)
qed

lemma fin_inv_shape:
  "same_shape (ms_reg m) r \<Longrightarrow> fin_inv m i \<Longrightarrow> fin_inv (m\<lparr>ms_reg := r\<rparr>) i"
  using same_shapeD[of "ms_reg m" r i] same_shapeD[OF same_shape_sym, of "ms_reg m" r i]
    same_shape_None[of "ms_reg m" r i]
  by (auto simp: fin_inv_def shape_def split: option.splits fin_state.splits)

lemma wait_inv_shape:
  "same_shape (ms_reg m) r \<Longrightarrow> wait_inv m w \<Longrightarrow> wait_inv (m\<lparr>ms_reg := r\<rparr>) w"
  using same_shape_None[of "ms_reg m" r]
  by (auto simp: wait_inv_def enrolled_def same_shape_def split: option.splits prod.splits wait_phase.splits)

lemma minv_shape:
  "minv m \<Longrightarrow> same_shape (ms_reg m) r \<Longrightarrow> reg_ok r \<Longrightarrow> minv (m\<lparr>ms_reg := r\<rparr>)"
  unfolding minv_def
  using links_ok_shape[of "ms_reg m" r] fin_inv_shape[of m r] wait_inv_shape[of m r]
    same_shape_None[of "ms_reg m" r]
  by auto

section \<open>Every step keeps it\<close>

lemma same_shape_modify:
  assumes "rg_notify r' = rg_notify r" "rg_tasks r' = hm_modify i f (rg_tasks r)" "\<And>s. shape (f s) = shape s"
  shows "same_shape r r'"
  using assms by (auto simp: same_shape_def hm_simps option.map_comp comp_def)

lemma same_shape_refl: "rg_tasks r' = rg_tasks r \<Longrightarrow> rg_notify r' = rg_notify r \<Longrightarrow> same_shape r r'"
  by (simp add: same_shape_def)

lemma shape_log [simp]: "shape (log_state cap now l s) = shape s"
  by (simp add: shape_def log_state_def)

lemma persist_simps [simp]:
  "rg_tasks (persist_create env u v r) = rg_tasks r" "rg_notify (persist_create env u v r) = rg_notify r"
  "rg_log_ring_capacity (persist_create env u v r) = rg_log_ring_capacity r"
  "rg_tasks (persist_update env i u st e h en r) = rg_tasks r"
  "rg_notify (persist_update env i u st e h en r) = rg_notify r"
  "rg_log_ring_capacity (persist_update env i u st e h en r) = rg_log_ring_capacity r"
  by (simp_all add: persist_create_def persist_update_def split: option.split)

lemma reg_ok_cong:
  "rg_tasks r' = rg_tasks r \<Longrightarrow> rg_log_ring_capacity r' = rg_log_ring_capacity r \<Longrightarrow> reg_ok r' = reg_ok r"
  by (simp add: reg_ok_def)

lemma quiet_op_shape: "quiet_op env r r' \<Longrightarrow> same_shape r r'"
proof (induction rule: quiet_op.induct)
  case (1 r now i l)
  show ?case
    by (cases "hm_get (rg_tasks r) i")
      (auto simp: sink_append_def intro: same_shape_refl same_shape_modify[where i = i])
next
  case (2 r now u i l)
  show ?case
    by (cases "hm_get (rg_tasks r) i")
      (auto simp: append_log_def intro: same_shape_refl same_shape_modify[where i = i])
next
  case (3 r i h)
  show ?case
    by (cases "hm_get (rg_tasks r) i")
      (auto simp: set_progress_hint_def shape_def intro: same_shape_refl same_shape_modify[where i = i])
next
  case (4 r u i)
  show ?case
    by (cases "hm_get (rg_tasks r) i")
      (auto simp: cancel_def shape_def intro: same_shape_refl same_shape_modify[where i = i])
qed (auto simp: subscribe_def set_subagent_observer_def Let_def intro!: same_shape_refl)

lemma quiet_op_ok: "quiet_op env r r' \<Longrightarrow> reg_ok r \<Longrightarrow> reg_ok r'"
proof (induction rule: quiet_op.induct)
  case (5 r u)
  then show ?case by (simp add: subscribe_def Let_def reg_ok_def)
next
  case (7 r u view)
  then show ?case by (simp add: reg_ok_def)
next
  case (8 r)
  then show ?case by (simp add: set_subagent_observer_def reg_ok_def)
qed (auto intro: reg_ok_sink_append reg_ok_append_log reg_ok_progress reg_ok_cancel)

lemma minv_quiet: "minv m \<Longrightarrow> quiet_op env (ms_reg m) r \<Longrightarrow> minv (m\<lparr>ms_reg := r\<rparr>)"
  using minv_shape quiet_op_shape quiet_op_ok by (metis minv_def)

text \<open>Spawning: the registry after the new task is in place, before its first log line.\<close>

definition spawned_state :: "task_id \<Rightarrow> int \<Rightarrow> string \<Rightarrow> task_kind \<Rightarrow> string \<Rightarrow> spawn_meta \<Rightarrow> 'j task_state" where
  "spawned_state i now u kind title meta =
     \<lparr>ts_owner = u, ts_view = \<lparr>tv_id = i, tv_kind = kind, tv_status = Running, tv_started_at = now,
        tv_ended_at = None, tv_last_error = None, tv_parent = parent_task_id kind, tv_children = [],
        tv_title = title, tv_progress_hint = None, tv_owner_todo = sm_owner_todo meta,
        tv_spawn_marker = sm_spawn_marker meta\<rparr>,
      ts_token = False, ts_logs = [], ts_next_seq = 1, ts_completed = False\<rparr>"

definition link_parent :: "task_id \<Rightarrow> task_id option \<Rightarrow> (task_id, 'j task_state) hashmap \<Rightarrow>
    (task_id, 'j task_state) hashmap" where
  "link_parent i p tasks = (case p of None \<Rightarrow> tasks | Some p \<Rightarrow> hm_modify p (add_child i) tasks)"

lemma spawn_with_meta_split:
  "fst (spawn_with_meta i now u kind title meta r) =
     sink_append now i \<lparr>ll_level = LogInfo, ll_category = Lifecycle, ll_message = ''task started'', ll_data = None\<rparr>
       (broadcast u (TaskStarted (ts_view (spawned_state i now u kind title meta :: 'j task_state)))
         (r\<lparr>rg_tasks := link_parent i (parent_task_id kind)
             (hm_insert i (spawned_state i now u kind title meta) (rg_tasks (r :: ('d, 'j) registry)))\<rparr>))"
  by (simp add: spawn_with_meta_def Let_def spawned_state_def link_parent_def)

lemma hm_get_link_parent:
  "hm_get (link_parent i p tasks) j =
     (if p = Some j then map_option (add_child i) (hm_get tasks j) else hm_get tasks j)"
  by (auto simp: link_parent_def hm_simps split: option.split)

lemma task_ok_spawned: "0 < cap \<Longrightarrow> task_ok cap i (spawned_state i now u kind title meta)"
  by (simp add: task_ok_def spawned_state_def is_terminal_def)

lemma task_ok_add_child [simp]: "task_ok cap i (add_child c s) = task_ok cap i s"
  by (simp add: task_ok_def add_child_def)

lemma reg_ok_spawned:
  assumes "reg_ok r"
  shows "reg_ok (r\<lparr>rg_tasks := link_parent i (parent_task_id kind)
    (hm_insert i (spawned_state i now u kind title meta) (rg_tasks r))\<rparr>)"
proof -
  have "hm_ok (link_parent i (parent_task_id kind) (hm_insert i (spawned_state i now u kind title meta) (rg_tasks r)))"
    using assms by (auto simp: reg_ok_def link_parent_def split: option.split)
  then show ?thesis
    using assms task_ok_spawned by (auto simp: reg_ok_def hm_get_link_parent hm_simps split: if_splits)
qed

lemma links_ok_spawned:
  assumes l: "links_ok tasks" and new: "hm_get tasks i = None" "parent_task_id kind \<noteq> Some i"
  shows "links_ok (link_parent i (parent_task_id kind) (hm_insert i (spawned_state i now u kind title meta) tasks))"
    (is "links_ok ?t")
  unfolding links_ok_def
proof (intro allI impI)
  fix p s assume s: "hm_get ?t p = Some s"
  have get: "hm_get ?t j = (if parent_task_id kind = Some j then map_option (add_child i) (hm_get tasks j)
      else if j = i then Some (spawned_state i now u kind title meta) else hm_get tasks j)" for j
    using new(2) by (auto simp: hm_get_link_parent hm_simps)
  have old: "\<exists>t. hm_get ?t c = Some t \<and> tv_parent (ts_view t) = Some q"
    if "hm_get tasks c = Some t0" "tv_parent (ts_view t0) = Some q" for c t0 q
    using that get[of c] new(1) by (auto simp: add_child_def)
  show "distinct (tv_children (ts_view s)) \<and>
      (\<forall>c\<in>set (tv_children (ts_view s)). \<exists>t. hm_get ?t c = Some t \<and> tv_parent (ts_view t) = Some p)"
  proof (cases "p = i")
    case True
    then show ?thesis using s get[of i] new(2) by (simp add: spawned_state_def)
  next
    case False
    then obtain s0 where s0: "hm_get tasks p = Some s0"
      "s = (if parent_task_id kind = Some p then add_child i s0 else s0)"
      using s get[of p] by (auto split: if_splits)
    have d: "distinct (tv_children (ts_view s0))" and
      c: "\<And>c. c \<in> set (tv_children (ts_view s0)) \<Longrightarrow> \<exists>t. hm_get tasks c = Some t \<and> tv_parent (ts_view t) = Some p"
      using l s0(1) unfolding links_ok_def by blast+
    have "i \<notin> set (tv_children (ts_view s0))" using c new(1) by fastforce
    moreover have "hm_get ?t i = Some (spawned_state i now u kind title meta)" using get[of i] new(2) by simp
    ultimately show ?thesis
      using s0 d c old by (auto simp: add_child_def spawned_state_def) blast+
  qed
qed

lemma minvD:
  assumes "minv m"
  shows "reg_ok (ms_reg m)" "links_ok (rg_tasks (ms_reg m))" "fin_inv m i" "wait_inv m w"
    "hm_get (rg_tasks (ms_reg m)) i \<noteq> None \<Longrightarrow> i \<in> ms_used m" "ms_fin m i \<noteq> None \<Longrightarrow> i \<in> ms_used m"
  using assms by (auto simp: minv_def)

text \<open>\<open>fin_inv\<close> and \<open>wait_inv\<close> look at one task and one waiter only.\<close>

definition core :: "'j task_state \<Rightarrow> bool \<times> task_id option \<times> task_kind" where
  "core s = (ts_completed s, tv_parent (ts_view s), tv_kind (ts_view s))"

lemma core_simps [simp]: "core (add_child c s) = core s" "core (drop_child c s) = core s"
  by (simp_all add: core_def add_child_def drop_child_def)

lemma fin_inv_cong:
  assumes "fin_inv m i" "ms_fin m' i = ms_fin m i"
    and "map_option core (hm_get (rg_tasks (ms_reg m')) i) = map_option core (hm_get (rg_tasks (ms_reg m)) i)"
  shows "fin_inv m' i"
  using assms
  by (cases "hm_get (rg_tasks (ms_reg m')) i"; cases "hm_get (rg_tasks (ms_reg m)) i")
    (auto simp: fin_inv_def core_def split: option.splits fin_state.splits)

lemma wait_inv_cong:
  assumes "wait_inv m w" "ms_wait m' w = ms_wait m w" "ms_used m \<subseteq> ms_used m'"
    and "\<And>i ph. ms_wait m w = Some (i, ph) \<Longrightarrow> ph \<noteq> WDone \<Longrightarrow> i \<in> ms_used m \<Longrightarrow>
      (hm_get (rg_tasks (ms_reg m')) i = None \<longleftrightarrow> hm_get (rg_tasks (ms_reg m)) i = None) \<and>
      (enrolled (ms_reg m) i w \<longrightarrow> enrolled (ms_reg m') i w) \<and>
      (is_evicted (ms_fin m i) \<longrightarrow> is_evicted (ms_fin m' i))"
  shows "wait_inv m' w"
proof (cases "ms_wait m w")
  case (Some x)
  obtain i ph where x: "x = (i, ph)" by (cases x)
  show ?thesis
    using assms(1,2,3) assms(4)[of i ph] Some x
    by (cases ph) (auto simp: wait_inv_def)
qed (use assms(2) in \<open>simp add: wait_inv_def\<close>)

lemma minv_spawn:
  assumes inv: "minv m" and i: "i \<notin> ms_used m" and p: "parent_task_id kind \<noteq> Some i"
  shows "minv (m\<lparr>ms_reg := fst (spawn_with_meta i now u kind title meta (ms_reg m)),
    ms_used := insert i (ms_used m)\<rparr>)"
proof -
  let ?r = "ms_reg m"
  let ?st = "spawned_state i now u kind title meta"
  let ?t = "link_parent i (parent_task_id kind) (hm_insert i ?st (rg_tasks ?r))"
  let ?m = "m\<lparr>ms_reg := ?r\<lparr>rg_tasks := ?t\<rparr>, ms_used := insert i (ms_used m)\<rparr>"
  have new: "hm_get (rg_tasks ?r) i = None" "ms_fin m i = None"
    using i minvD(5,6)[OF inv, of i] by blast+
  have get: "hm_get ?t j = (if parent_task_id kind = Some j then map_option (add_child i) (hm_get (rg_tasks ?r) j)
      else if j = i then Some ?st else hm_get (rg_tasks ?r) j)" for j
    using p by (auto simp: hm_get_link_parent hm_simps)
  have "fin_inv ?m j" for j
  proof (cases "j = i")
    case True
    then show ?thesis using new(2) get[of i] p by (simp add: fin_inv_def spawned_state_def)
  next
    case False
    show ?thesis
      by (rule fin_inv_cong[OF minvD(3)[OF inv]])
        (use get[of j] False in \<open>simp_all add: option.map_comp comp_def\<close>)
  qed
  moreover have "wait_inv ?m w" for w
    by (rule wait_inv_cong[OF minvD(4)[OF inv]]) (use get i in \<open>auto simp: enrolled_def\<close>)
  moreover have "reg_ok (?r\<lparr>rg_tasks := ?t\<rparr>)" using reg_ok_spawned minvD(1)[OF inv] by blast
  moreover have "links_ok ?t" using links_ok_spawned[OF minvD(2)[OF inv] new(1) p] .
  moreover have "j \<in> insert i (ms_used m)" if "hm_get ?t j \<noteq> None" for j
    using that get[of j] minvD(5)[OF inv, of j] by (auto split: if_splits)
  moreover have "j \<in> insert i (ms_used m)" if "ms_fin m j \<noteq> None" for j
    using that minvD(6)[OF inv, of j] by blast
  ultimately have "minv ?m" by (simp add: minv_def)
  from minv_quiet[OF minv_quiet[OF this quiet_op.intros(6)] quiet_op.intros(1)]
  have "minv (m\<lparr>ms_used := insert i (ms_used m),
      ms_reg := fst (spawn_with_meta i now u kind title meta ?r)\<rparr>)"
    unfolding spawn_with_meta_split by simp
  moreover have "m\<lparr>ms_used := insert i (ms_used m), ms_reg := r\<rparr> =
      m\<lparr>ms_reg := r, ms_used := insert i (ms_used m)\<rparr>" for r by simp
  ultimately show ?thesis by simp
qed

lemma minv_mark:
  assumes inv: "minv m" and s: "hm_get (rg_tasks (ms_reg m)) i = Some s" "\<not> ts_completed s"
    and mark: "finalize_mark now i (ts_owner s) result (ms_reg m) = (r, Some f)"
  shows "minv (m\<lparr>ms_reg := r, ms_fin := (ms_fin m)(i \<mapsto> FinMarked (ts_owner s) f)\<rparr>)"
proof -
  let ?r = "ms_reg m"
  obtain st err where o: "finalize_outcome result (ts_token s) = (st, err)" by fastforce
  have tm: "is_terminal st"
    using o by (auto simp: finalize_outcome_def is_terminal_def split: sum.splits bool.splits)
  define fin where "fin = (\<lambda>s :: 'b task_state. s\<lparr>ts_view := (ts_view s)\<lparr>tv_status := st, tv_ended_at := Some now,
                            tv_last_error := err, tv_progress_hint := None\<rparr>, ts_completed := True\<rparr>)"
  have r: "r = broadcast (ts_owner s) (TaskCompleted i st err) (?r\<lparr>rg_tasks := hm_modify i fin (rg_tasks ?r)\<rparr>)"
    and f: "fs_parent f = tv_parent (ts_view s)" "fs_kind f = tv_kind (ts_view s)"
    using mark s(1) o by (auto simp: finalize_mark_def fin_def)
  let ?m = "m\<lparr>ms_reg := r, ms_fin := (ms_fin m)(i \<mapsto> FinMarked (ts_owner s) f)\<rparr>"
  have get: "hm_get (rg_tasks r) j = (if j = i then Some (fin s) else hm_get (rg_tasks ?r) j)" for j
    using s(1) by (simp add: r hm_simps)
  have "reg_ok r"
    unfolding r reg_ok_broadcast
    by (rule reg_ok_modify[OF minvD(1)[OF inv]]) (use tm in \<open>simp add: fin_def task_ok_def\<close>)
  moreover have "links_ok (rg_tasks r)"
    by (rule links_ok_cong[OF minvD(2)[OF inv]]) (simp add: get s(1) links_of_def fin_def)
  moreover have "fin_inv ?m j" for j
  proof (cases "j = i")
    case True
    then show ?thesis using get[of i] f by (simp add: fin_inv_def fin_def)
  next
    case False
    then show ?thesis by (intro fin_inv_cong[OF minvD(3)[OF inv]]) (simp_all add: get)
  qed
  moreover have "wait_inv ?m w" for w
  proof (rule wait_inv_cong[OF minvD(4)[OF inv]])
    fix j ph assume "ms_wait m w = Some (j, ph)"
    have "\<not> is_evicted (ms_fin m i)"
      using minvD(3)[OF inv, of i] s(1) by (auto simp: is_evicted_def fin_inv_def split: option.splits fin_state.splits)
    then show "(hm_get (rg_tasks (ms_reg ?m)) j = None \<longleftrightarrow> hm_get (rg_tasks ?r) j = None) \<and>
      (enrolled ?r j w \<longrightarrow> enrolled (ms_reg ?m) j w) \<and> (is_evicted (ms_fin m j) \<longrightarrow> is_evicted (ms_fin ?m j))"
      using s(1) by (auto simp: get enrolled_def) (simp_all add: r)
  qed simp_all
  moreover have "i \<in> ms_used m" using minvD(5)[OF inv] s(1) by blast
  ultimately show ?thesis
    using minvD(5,6)[OF inv] by (auto simp: minv_def get)
qed

lemma minv_persist:
  assumes inv: "minv m" and fin: "ms_fin m i = Some (FinMarked u f)"
  shows "minv (m\<lparr>ms_reg := finalize_persist env i u f (ms_reg m), ms_fin := (ms_fin m)(i \<mapsto> FinPersisted u f)\<rparr>)"
    (is "minv ?m")
proof -
  have t: "rg_tasks (ms_reg ?m) = rg_tasks (ms_reg m)" "rg_notify (ms_reg ?m) = rg_notify (ms_reg m)"
    "rg_log_ring_capacity (ms_reg ?m) = rg_log_ring_capacity (ms_reg m)"
    by (simp_all add: finalize_persist_def)
  have "fin_inv ?m j" for j
  proof (cases "j = i")
    case True
    then show ?thesis using minvD(3)[OF inv, of i] fin by (simp add: fin_inv_def finalize_persist_def)
  next
    case False
    then show ?thesis by (intro fin_inv_cong[OF minvD(3)[OF inv]]) (simp_all add: finalize_persist_def)
  qed
  moreover have "wait_inv ?m w" for w
    by (rule wait_inv_cong[OF minvD(4)[OF inv]])
      (use fin in \<open>auto simp: finalize_persist_def enrolled_def is_evicted_def\<close>)
  moreover have "reg_ok (ms_reg ?m)" using minvD(1)[OF inv] reg_ok_cong[OF t(1,3)] by simp
  ultimately show ?thesis
    using minvD(2,5,6)[OF inv] fin by (simp add: minv_def t(1)[simplified])
qed

lemma links_ok_evict:
  assumes l: "links_ok tasks" and s: "hm_get tasks i = Some s" and p: "p = tv_parent (ts_view s)"
  shows "links_ok (case p of None \<Rightarrow> hm_remove i tasks | Some q \<Rightarrow> hm_modify q (drop_child i) (hm_remove i tasks))"
    (is "links_ok ?t")
  unfolding links_ok_def
proof (intro allI impI)
  have get: "hm_get ?t j = (if j = i then None
      else if p = Some j then map_option (drop_child i) (hm_get tasks j) else hm_get tasks j)" for j
    by (auto simp: hm_simps split: option.split)
  fix q s' assume "hm_get ?t q = Some s'"
  then have "q \<noteq> i" using get[of q] by auto
  then obtain s0 where s0: "hm_get tasks q = Some s0" "s' = (if p = Some q then drop_child i s0 else s0)"
    using \<open>hm_get ?t q = Some s'\<close> get[of q] by (auto split: if_splits)
  have d: "distinct (tv_children (ts_view s0))" and
    c: "\<And>c. c \<in> set (tv_children (ts_view s0)) \<Longrightarrow> \<exists>t. hm_get tasks c = Some t \<and> tv_parent (ts_view t) = Some q"
    using l s0(1) unfolding links_ok_def by blast+
  have "set (tv_children (ts_view s')) \<subseteq> set (tv_children (ts_view s0)) - {i}"
    using c[of i] s p s0(2) by (auto simp: drop_child_def)
  moreover have "distinct (tv_children (ts_view s'))" using d s0(2) by (simp add: drop_child_def)
  moreover have "\<exists>t. hm_get ?t c = Some t \<and> tv_parent (ts_view t) = Some q"
    if mem: "c \<in> set (tv_children (ts_view s0))" "c \<noteq> i" for c
  proof -
    obtain t where "hm_get tasks c = Some t" "tv_parent (ts_view t) = Some q" using c[OF mem(1)] by blast
    then show ?thesis using mem(2) get[of c] by (auto simp: drop_child_def)
  qed
  ultimately show "distinct (tv_children (ts_view s')) \<and>
      (\<forall>c\<in>set (tv_children (ts_view s')). \<exists>t. hm_get ?t c = Some t \<and> tv_parent (ts_view t) = Some q)"
    by blast
qed

lemma minv_evict:
  assumes inv: "minv m" and fin: "ms_fin m i = Some (FinPersisted u f)"
    and ev: "finalize_evict i f (ms_reg m) = (r, n)"
  shows "minv (m\<lparr>ms_reg := r, ms_fin := (ms_fin m)(i \<mapsto> FinEvicted u f n)\<rparr>)" (is "minv ?m")
proof -
  let ?t = "rg_tasks (ms_reg m)"
  obtain s where s: "hm_get ?t i = Some s" "fs_parent f = tv_parent (ts_view s)"
    using minvD(3)[OF inv, of i] fin by (auto simp: fin_inv_def)
  have r: "r = (ms_reg m)\<lparr>rg_tasks := (case fs_parent f of None \<Rightarrow> hm_remove i ?t
      | Some q \<Rightarrow> hm_modify q (drop_child i) (hm_remove i ?t))\<rparr>"
    using ev by (auto simp: finalize_evict_def Let_def)
  have get: "hm_get (rg_tasks r) j = (if j = i then None
      else if fs_parent f = Some j then map_option (drop_child i) (hm_get ?t j) else hm_get ?t j)" for j
    by (auto simp: r hm_simps split: option.split)
  have "reg_ok r"
    using minvD(1)[OF inv] get
    by (auto simp: reg_ok_def) (auto simp: r task_ok_def drop_child_def split: option.split if_splits)
  moreover have "links_ok (rg_tasks r)" using links_ok_evict[OF minvD(2)[OF inv] s] by (simp add: r)
  moreover have "fin_inv ?m j" for j
  proof (cases "j = i")
    case False
    then show ?thesis
      by (intro fin_inv_cong[OF minvD(3)[OF inv]]) (simp_all add: get option.map_comp comp_def)
  qed (simp add: fin_inv_def get)
  moreover have "wait_inv ?m w" for w
  proof (cases "\<exists>ph. ms_wait m w = Some (i, ph)")
    case True
    then obtain ph where "ms_wait m w = Some (i, ph)" by blast
    then show ?thesis
      using minvD(4)[OF inv, of w]
      by (cases ph) (auto simp: wait_inv_def get is_evicted_def enrolled_def, simp_all add: r)
  next
    case False
    then show ?thesis
      by (intro wait_inv_cong[OF minvD(4)[OF inv]]) (auto simp: get enrolled_def, simp_all add: r)
  qed
  ultimately show ?thesis
    using minvD(5,6)[OF inv] fin by (auto simp: minv_def get split: if_splits)
qed

lemma minv_wake:
  assumes inv: "minv m" and fin: "ms_fin m i = Some (FinEvicted u f n)"
    and wk: "finalize_wake i (ms_reg m) = (r, ws)"
  shows "minv (m\<lparr>ms_reg := r, ms_fin := (ms_fin m)(i \<mapsto> FinWoken u f n), ms_wait := wake_all ws (ms_wait m)\<rparr>)"
    (is "minv ?m")
proof -
  have t: "rg_tasks r = rg_tasks (ms_reg m)" "rg_log_ring_capacity r = rg_log_ring_capacity (ms_reg m)"
    and no: "hm_get (rg_notify r) j = (if j = i then None else hm_get (rg_notify (ms_reg m)) j)"
    and ws: "hm_get (rg_notify (ms_reg m)) i = Some ws' \<Longrightarrow> ws' = ws" for j ws'
    using wk by (auto simp: finalize_wake_def hm_simps split: option.splits)
  have gone: "hm_get (rg_tasks (ms_reg m)) i = None" using minvD(3)[OF inv, of i] fin by (simp add: fin_inv_def)
  have "fin_inv ?m j" for j
  proof (cases "j = i")
    case False
    then show ?thesis by (intro fin_inv_cong[OF minvD(3)[OF inv]]) (simp_all add: t)
  qed (simp add: fin_inv_def t gone)
  moreover have "wait_inv ?m w" for w
  proof (cases "ms_wait m w")
    case (Some x)
    then obtain j ph where x: "ms_wait m w = Some (j, ph)" by (cases x) auto
    show ?thesis
    proof (cases "j = i")
      case True
      then show ?thesis
        using minvD(4)[OF inv, of w] x gone ws
        by (cases ph) (auto simp: wait_inv_def wake_all_def enrolled_def t)
    next
      case False
      then show ?thesis
        using minvD(4)[OF inv, of w] x
        by (cases ph) (auto simp: wait_inv_def wake_all_def enrolled_def t no)
    qed
  qed (simp add: wait_inv_def wake_all_def)
  moreover have "reg_ok r" using minvD(1)[OF inv] reg_ok_cong[OF t] by simp
  ultimately show ?thesis using minvD(2,5,6)[OF inv] fin by (simp add: minv_def t)
qed

lemma finalize_signal_simps [simp]:
  "rg_tasks (finalize_signal i u f n r) = rg_tasks r" "rg_notify (finalize_signal i u f n r) = rg_notify r"
  "rg_log_ring_capacity (finalize_signal i u f n r) = rg_log_ring_capacity r"
  by (simp_all add: finalize_signal_def split: task_kind.split)

lemma minv_signal:
  assumes inv: "minv m" and fin: "ms_fin m i = Some (FinWoken u f n)"
  shows "minv (m\<lparr>ms_reg := finalize_signal i u f n (ms_reg m), ms_fin := (ms_fin m)(i := None)\<rparr>)" (is "minv ?m")
proof -
  have gone: "hm_get (rg_tasks (ms_reg m)) i = None" using minvD(3)[OF inv, of i] fin by (simp add: fin_inv_def)
  have "fin_inv ?m j" for j
  proof (cases "j = i")
    case False
    then show ?thesis by (intro fin_inv_cong[OF minvD(3)[OF inv]]) simp_all
  qed (simp add: fin_inv_def gone)
  moreover have "wait_inv ?m w" for w
    by (rule wait_inv_cong[OF minvD(4)[OF inv]]) (use fin in \<open>auto simp: enrolled_def is_evicted_def\<close>)
  moreover have "reg_ok (ms_reg ?m)" using minvD(1)[OF inv] by (simp add: reg_ok_def)
  ultimately show ?thesis using minvD(2,5,6)[OF inv] by (simp add: minv_def)
qed

lemma minv_waiter:
  assumes inv: "minv m" and new: "wait_inv (m\<lparr>ms_wait := (ms_wait m)(w \<mapsto> x)\<rparr>) w"
  shows "minv (m\<lparr>ms_wait := (ms_wait m)(w \<mapsto> x)\<rparr>)" (is "minv ?m")
proof -
  have "wait_inv ?m v" for v
  proof (cases "v = w")
    case False
    then show ?thesis by (intro wait_inv_cong[OF minvD(4)[OF inv]]) simp_all
  qed (use new in simp)
  moreover have "fin_inv ?m j" for j by (rule fin_inv_cong[OF minvD(3)[OF inv]]) simp_all
  ultimately show ?thesis using minvD(1,2,5,6)[OF inv] by (simp add: minv_def)
qed

lemma minv_enroll:
  assumes inv: "minv m" and w: "ms_wait m w = Some (i, WChecked)"
  shows "minv (m\<lparr>ms_reg := wait_enroll w i (ms_reg m), ms_wait := (ms_wait m)(w \<mapsto> (i, WEnrolled))\<rparr>)"
    (is "minv ?m")
proof -
  have t: "rg_tasks (ms_reg ?m) = rg_tasks (ms_reg m)"
    "rg_log_ring_capacity (ms_reg ?m) = rg_log_ring_capacity (ms_reg m)"
    by (simp_all add: wait_enroll_def)
  have mono: "enrolled (ms_reg m) j v \<Longrightarrow> enrolled (ms_reg ?m) j v" for j v
    by (auto simp: enrolled_def wait_enroll_def hm_simps)
  have "wait_inv ?m v" for v
  proof (cases "v = w")
    case True
    have "enrolled (ms_reg ?m) i w" by (auto simp: enrolled_def wait_enroll_def hm_simps)
    then show ?thesis using True minvD(4)[OF inv, of w] w by (simp add: wait_inv_def)
  next
    case False
    then show ?thesis by (intro wait_inv_cong[OF minvD(4)[OF inv]]) (use t mono in auto)
  qed
  moreover have "fin_inv ?m j" for j by (rule fin_inv_cong[OF minvD(3)[OF inv]]) (simp_all add: wait_enroll_def)
  moreover have "reg_ok (ms_reg ?m)" using minvD(1)[OF inv] reg_ok_cong[OF t] by simp
  ultimately show ?thesis using minvD(2,5,6)[OF inv] by (simp add: minv_def t[simplified])
qed

lemma minv_step: "mstep env m m' \<Longrightarrow> minv m \<Longrightarrow> minv m'"
proof (induction rule: mstep.induct)
  case (m_wait m w i)
  have "i \<in> ms_used m" if "\<not> wait_check i (ms_reg m)"
    using that minvD(5)[OF m_wait(2), of i] by (auto simp: wait_check_def split: option.splits)
  then show ?case by (intro minv_waiter[OF m_wait(2)]) (simp add: wait_inv_def)
next
  case (m_recheck m w i)
  then show ?case
    using minvD(4)[OF m_recheck(2), of w]
    by (intro minv_waiter[OF m_recheck(2)])
      (auto simp: wait_inv_def wait_check_def enrolled_def split: option.splits)
qed (auto intro: minv_quiet minv_spawn minv_mark minv_persist minv_evict minv_wake minv_signal minv_enroll)

interpretation tm: invariant_system minit "mstep env" minv for env
proof
  fix m assume "minit m"
  then show "minv m"
    by (simp add: minit_def minv_def reg_ok_def links_ok_def fin_inv_def wait_inv_def)
next
  fix m m' assume "minv m" "mstep env m m'"
  then show "minv m'" using minv_step by blast
qed

section \<open>Properties\<close>

text \<open>
  C6: at every moment of every interleaving, each task in the registry is stored under its
  own id, is marked completed exactly when its status is terminal, and keeps at most
  \<open>log_ring_capacity\<close> log entries, which are the most recent ones, numbered without a gap up to
  the next number; and the children a task lists are distinct tasks of the registry that
  name it as their parent.
\<close>

theorem registry_always_consistent:
  assumes "reachable minit (mstep env) m" "hm_get (rg_tasks (ms_reg m)) i = Some s"
  shows "tv_id (ts_view s) = i \<and> (ts_completed s \<longleftrightarrow> is_terminal (tv_status (ts_view s))) \<and>
    length (ts_logs s) \<le> rg_log_ring_capacity (ms_reg m) \<and>
    map le_seq (ts_logs s) = [ts_next_seq s - length (ts_logs s)..<ts_next_seq s] \<and>
    distinct (tv_children (ts_view s)) \<and>
    (\<forall>c\<in>set (tv_children (ts_view s)). \<exists>t. hm_get (rg_tasks (ms_reg m)) c = Some t \<and>
       tv_parent (ts_view t) = Some i)"
proof -
  have inv: "minv m" by (rule tm.reachable_inv[OF assms(1)])
  have "task_ok (rg_log_ring_capacity (ms_reg m)) i s"
    using minvD(1)[OF inv] assms(2) by (simp add: reg_ok_def)
  moreover have "distinct (tv_children (ts_view s)) \<and>
      (\<forall>c\<in>set (tv_children (ts_view s)). \<exists>t. hm_get (rg_tasks (ms_reg m)) c = Some t \<and> tv_parent (ts_view t) = Some i)"
    using minvD(2)[OF inv] assms(2) unfolding links_ok_def by blast
  ultimately show ?thesis by (simp add: task_ok_def)
qed

definition example_m0 :: "(unit, unit) mstate" where
  "example_m0 = \<lparr>ms_reg = registry_new, ms_used = {}, ms_fin = Map.empty, ms_wait = Map.empty\<rparr>"

definition example_m1 :: "(unit, unit) mstate" where
  "example_m1 = example_m0\<lparr>ms_reg := example_registry, ms_used := {''t1''}\<rparr>"

lemma example_m1_reachable: "reachable minit (mstep null_env) example_m1"
proof -
  have i: "minit example_m0"
    by (simp add: minit_def example_m0_def registry_new_def with_config_def)
  have st: "mstep null_env example_m0
      (example_m0\<lparr>ms_reg := fst (spawn_with_meta ''t1'' 5 ''dave'' (MaintenanceKind ''dream'') ''Dream''
        \<lparr>sm_owner_todo = [], sm_spawn_marker = None\<rparr> (ms_reg example_m0)),
        ms_used := insert ''t1'' (ms_used example_m0)\<rparr>)"
    by (rule m_spawn) (simp_all add: example_m0_def)
  have "reachable minit (mstep null_env) (example_m0\<lparr>ms_reg := fst (spawn_with_meta ''t1'' 5 ''dave''
        (MaintenanceKind ''dream'') ''Dream'' \<lparr>sm_owner_todo = [], sm_spawn_marker = None\<rparr> (ms_reg example_m0)),
        ms_used := insert ''t1'' (ms_used example_m0)\<rparr>)"
    by (rule reach_step[of minit "mstep null_env", OF reach_init[of minit, OF i] st])
  then show ?thesis by (simp add: example_m1_def example_m0_def example_registry_def spawn_def)
qed

theorem registry_always_consistent_witness:
  "length (ts_logs (the (hm_get (rg_tasks (ms_reg example_m1)) ''t1''))) \<le> rg_log_ring_capacity (ms_reg example_m1)"
proof -
  have "hm_get (rg_tasks (ms_reg example_m1)) ''t1'' = Some (the (hm_get (rg_tasks (ms_reg example_m1)) ''t1''))"
    by (simp add: example_m1_def example_registry_get)
  from registry_always_consistent[OF example_m1_reachable this] show ?thesis by blast
qed

text \<open>
  C7: no lost wake-up. Whatever is interleaved with the two checks and the enrolment of
  \<open>wait\<close>, a caller that sleeps on a task is enrolled for it, and either the task has not
  finished or its finalization is under way and has not reached the wake; once the task has
  been taken off the map, that very wake releases the caller.
\<close>

theorem no_lost_wakeup:
  assumes "reachable minit (mstep env) m" "ms_wait m w = Some (i, WAwaiting)"
  shows "enrolled (ms_reg m) i w \<and>
    (ms_fin m i = None \<longrightarrow> (\<exists>s. hm_get (rg_tasks (ms_reg m)) i = Some s \<and> \<not> ts_completed s)) \<and>
    (\<forall>u f n. ms_fin m i \<noteq> Some (FinWoken u f n)) \<and>
    (is_evicted (ms_fin m i) \<longrightarrow>
       wake_all (snd (finalize_wake i (ms_reg m))) (ms_wait m) w = Some (i, WDone))"
proof -
  have inv: "minv m" by (rule tm.reachable_inv[OF assms(1)])
  have w: "enrolled (ms_reg m) i w" "hm_get (rg_tasks (ms_reg m)) i \<noteq> None \<or> is_evicted (ms_fin m i)"
    using minvD(4)[OF inv, of w] assms(2) by (simp_all add: wait_inv_def)
  moreover have "wake_all (snd (finalize_wake i (ms_reg m))) (ms_wait m) w = Some (i, WDone)"
    using w(1) assms(2) by (auto simp: enrolled_def finalize_wake_def wake_all_def)
  ultimately show ?thesis
    using minvD(3)[OF inv, of i]
    by (auto simp: fin_inv_def is_evicted_def split: option.splits fin_state.splits)
qed

definition example_m4 :: "(unit, unit) mstate" where
  "example_m4 = example_m1\<lparr>ms_reg := wait_enroll 7 ''t1'' (ms_reg example_m1),
     ms_wait := [7 \<mapsto> (''t1'', WAwaiting)]\<rparr>"

lemma example_m4_reachable: "reachable minit (mstep null_env) example_m4"
proof -
  let ?m2 = "example_m1\<lparr>ms_wait := (ms_wait example_m1)(7 \<mapsto> (''t1'', WChecked))\<rparr>"
  let ?m3 = "?m2\<lparr>ms_reg := wait_enroll 7 ''t1'' (ms_reg ?m2), ms_wait := (ms_wait ?m2)(7 \<mapsto> (''t1'', WEnrolled))\<rparr>"
  have run: "\<not> wait_check ''t1'' (ms_reg example_m1)"
    by (simp add: wait_check_def example_m1_def example_registry_get)
  have s2: "mstep null_env example_m1 ?m2"
    using m_wait[of example_m1 7 null_env "''t1''"] run by (simp add: example_m1_def example_m0_def)
  have s3: "mstep null_env ?m2 ?m3" by (rule m_enroll) simp
  have s4: "mstep null_env ?m3 (?m3\<lparr>ms_wait := (ms_wait ?m3)(7 \<mapsto> (''t1'', WAwaiting))\<rparr>)"
    using m_recheck[of ?m3 7 "''t1''" null_env] run by (simp add: wait_check_def wait_enroll_def)
  have r2: "reachable minit (mstep null_env) ?m2"
    using reach_step[of minit "mstep null_env" example_m1 ?m2] example_m1_reachable s2 by blast
  have r3: "reachable minit (mstep null_env) ?m3"
    using reach_step[of minit "mstep null_env" ?m2 ?m3] r2 s3 by blast
  have "reachable minit (mstep null_env) (?m3\<lparr>ms_wait := (ms_wait ?m3)(7 \<mapsto> (''t1'', WAwaiting))\<rparr>)"
    using reach_step[of minit "mstep null_env" ?m3] r3 s4 by blast
  then show ?thesis by (simp add: example_m4_def example_m1_def example_m0_def)
qed

theorem no_lost_wakeup_witness: "enrolled (ms_reg example_m4) ''t1'' 7"
  using no_lost_wakeup[OF example_m4_reachable, of 7 "''t1''"] by (simp add: example_m4_def)

end
