(* ===== verification/Parent_Wake.thy ===== *)
theory Parent_Wake
  imports Task_Registry
begin

text \<open>
  Parent wake-up (\<^verbatim>\<open>crates/application/src/parent_wake.rs\<close>): a finished detached subagent
  re-engages its parent conversation. Completions that arrive while a wake turn runs are
  batched for the next one, and wake turns of one conversation never overlap.

  \<open>on_completion\<close> and the two lock scopes of \<open>drain\<close> are functions on the coordinator. The
  machine below runs any number of drain tasks: a drain takes a batch, runs the wake turn of
  the \<^verbatim>\<open>ParentWaker\<close>, and takes again. The waker is held weakly; \<open>pm_waker\<close> says whether it is
  still there.
\<close>

section \<open>The coordinator\<close>

record per_conversation =
  pc_running :: bool
  pc_pending :: "subagent_completion list"

record coordinator =
  pw_enabled :: bool
  pw_state :: "(string, per_conversation) hashmap"

definition coordinator_new :: "bool \<Rightarrow> coordinator" where
  "coordinator_new enabled = \<lparr>pw_enabled = enabled, pw_state = []\<rparr>"

definition pc_default :: per_conversation where
  "pc_default = \<lparr>pc_running = False, pc_pending = []\<rparr>"

definition entry_of :: "coordinator \<Rightarrow> string \<Rightarrow> per_conversation" where
  "entry_of co session = (case hm_get (pw_state co) session of Some e \<Rightarrow> e | None \<Rightarrow> pc_default)"

text \<open>The result says which session a drain has to be spawned for, if any.\<close>

definition on_completion :: "subagent_completion \<Rightarrow> coordinator \<Rightarrow> coordinator \<times> string option" where
  "on_completion c co =
     (if \<not> pw_enabled co then (co, None)
      else if \<not> sc_notify_parent c then (co, None)
      else if sc_session_conversation_id c = sc_child_conversation_id c then (co, None)
      else
        (let session = sc_session_conversation_id c;
             entry = entry_of co session;
             entry = entry\<lparr>pc_pending := pc_pending entry @ [c]\<rparr>;
             start = \<not> pc_running entry;
             entry = entry\<lparr>pc_running := True\<rparr>
         in (co\<lparr>pw_state := hm_insert session entry (pw_state co)\<rparr>,
             if start then Some session else None)))"

definition drain_take :: "string \<Rightarrow> coordinator \<Rightarrow> coordinator \<times> subagent_completion list option" where
  "drain_take session co =
     (case hm_get (pw_state co) session of
        None \<Rightarrow> (co, None)
      | Some entry \<Rightarrow>
          if pc_pending entry \<noteq> [] then
            (co\<lparr>pw_state := hm_insert session (entry\<lparr>pc_pending := []\<rparr>) (pw_state co)\<rparr>,
             Some (pc_pending entry))
          else (co\<lparr>pw_state := hm_insert session (entry\<lparr>pc_running := False\<rparr>) (pw_state co)\<rparr>, None))"

definition drain_release :: "string \<Rightarrow> coordinator \<Rightarrow> coordinator" where
  "drain_release session co =
     co\<lparr>pw_state := hm_modify session (\<lambda>e. e\<lparr>pc_running := False\<rparr>) (pw_state co)\<rparr>"

fun status_phrase :: "task_status \<Rightarrow> string" where
  "status_phrase Completed = ''completed''"
| "status_phrase Failed = ''failed''"
| "status_phrase Cancelled = ''was cancelled''"
| "status_phrase Pending = ''is pending''"
| "status_phrase Running = ''is still running''"

abbreviation qt :: string where "qt \<equiv> [CHR 0x22]"
abbreviation nl :: string where "nl \<equiv> [CHR 0x0A]"
abbreviation em_dash :: string where "em_dash \<equiv> [CHR 0xE2, CHR 0x80, CHR 0x94]"

definition wake_line :: "subagent_completion \<Rightarrow> string" where
  "wake_line c =
     ''- '' @ qt @ sc_child_name c @ qt @ '' '' @ status_phrase (sc_status c) @
     ''. Its result is saved in your scratchpad as a `result` note under owner_todo '' @
     qt @ sc_owner_todo c @ qt @ ''; retrieve it with get_subagent_status('' @
     qt @ sc_child_task_id c @ qt @ '').'' @ nl"

definition wake_header :: "nat \<Rightarrow> string" where
  "wake_header n =
     ''[automatic] '' @ show_nat n @ '' '' @ (if n = 1 then ''subagent'' else ''subagents'') @
     '' you dispatched just finished:'' @ nl @ nl"

definition wake_footer :: "nat \<Rightarrow> string" where
  "wake_footer remaining =
     nl @
     (if remaining = 0 then
        ''All of the subagents you dispatched have now finished. Review the full set of '' @
        ''results against the original request and produce your consolidated answer. The '' @
        ''results are already saved '' @ em_dash @ '' decide what to do with them.''
      else
        show_nat remaining @ '' more '' @ (if remaining = 1 then ''is'' else ''are'') @
        '' still running. Review the finished one(s) now and act if useful '' @ em_dash @
        '' you'll be woken again as the rest complete, so you don't have to wait for all of them.'')"

definition build_wake_prompt :: "subagent_completion list \<Rightarrow> string" where
  "build_wake_prompt batch =
     (let remaining = (case map sc_siblings_remaining batch of [] \<Rightarrow> 0 | x # xs \<Rightarrow> Min (set (x # xs)))
      in wake_header (length batch) @ concat (map wake_line batch) @ wake_footer remaining)"

section \<open>Drains as a state machine\<close>

datatype drain_phase = DTake | DTaken "subagent_completion list" | DWaking | DAbandon

record wake_turn =
  wt_user :: string
  wt_session :: string
  wt_batch :: "subagent_completion list"
  wt_prompt :: string

record pmachine =
  pm_co :: coordinator
  pm_drains :: "nat \<Rightarrow> (string \<times> drain_phase) option"
  pm_waker :: bool
  pm_seen :: "subagent_completion list"
  pm_wakes :: "wake_turn list"

definition accepts :: "bool \<Rightarrow> subagent_completion \<Rightarrow> bool" where
  "accepts enabled c \<longleftrightarrow>
     enabled \<and> sc_notify_parent c \<and> sc_session_conversation_id c \<noteq> sc_child_conversation_id c"

inductive pstep :: "pmachine \<Rightarrow> pmachine \<Rightarrow> bool" where
  p_complete: "on_completion c (pm_co m) = (co, start) \<Longrightarrow> pm_drains m d = None \<Longrightarrow>
    pstep m (m\<lparr>pm_co := co, pm_seen := pm_seen m @ [c],
              pm_drains := (case start of None \<Rightarrow> pm_drains m
                            | Some session \<Rightarrow> (pm_drains m)(d \<mapsto> (session, DTake)))\<rparr>)"
| p_take: "pm_drains m d = Some (session, DTake) \<Longrightarrow> drain_take session (pm_co m) = (co, Some batch) \<Longrightarrow>
    pstep m (m\<lparr>pm_co := co, pm_drains := (pm_drains m)(d \<mapsto> (session, DTaken batch))\<rparr>)"
| p_stop: "pm_drains m d = Some (session, DTake) \<Longrightarrow> drain_take session (pm_co m) = (co, None) \<Longrightarrow>
    pstep m (m\<lparr>pm_co := co, pm_drains := (pm_drains m)(d := None)\<rparr>)"
| p_wake: "pm_drains m d = Some (session, DTaken batch) \<Longrightarrow> pm_waker m \<Longrightarrow>
    pstep m (m\<lparr>pm_drains := (pm_drains m)(d \<mapsto> (session, DWaking)),
              pm_wakes := pm_wakes m @ [\<lparr>wt_user = sc_user (hd batch), wt_session = session,
                wt_batch = batch, wt_prompt = build_wake_prompt batch\<rparr>]\<rparr>)"
| p_gone: "pm_drains m d = Some (session, DTaken batch) \<Longrightarrow> \<not> pm_waker m \<Longrightarrow>
    pstep m (m\<lparr>pm_drains := (pm_drains m)(d \<mapsto> (session, DAbandon))\<rparr>)"
| p_release: "pm_drains m d = Some (session, DAbandon) \<Longrightarrow>
    pstep m (m\<lparr>pm_co := drain_release session (pm_co m), pm_drains := (pm_drains m)(d := None)\<rparr>)"
| p_turn_ended: "pm_drains m d = Some (session, DWaking) \<Longrightarrow>
    pstep m (m\<lparr>pm_drains := (pm_drains m)(d \<mapsto> (session, DTake))\<rparr>)"
| p_shutdown: "pstep m (m\<lparr>pm_waker := False\<rparr>)"

definition pinit :: "pmachine \<Rightarrow> bool" where
  "pinit m \<longleftrightarrow> (\<exists>enabled. pm_co m = coordinator_new enabled) \<and> pm_drains m = Map.empty \<and>
     pm_seen m = [] \<and> pm_wakes m = []"

section \<open>The invariant\<close>

definition seen_for :: "pmachine \<Rightarrow> string \<Rightarrow> subagent_completion list" where
  "seen_for m session =
     filter (\<lambda>c. accepts (pw_enabled (pm_co m)) c \<and> sc_session_conversation_id c = session) (pm_seen m)"

definition woken_for :: "pmachine \<Rightarrow> string \<Rightarrow> subagent_completion list list" where
  "woken_for m session = map wt_batch (filter (\<lambda>t. wt_session t = session) (pm_wakes m))"

text \<open>What a drain has taken off the queue and not yet handed to a wake turn.\<close>

definition in_hand :: "pmachine \<Rightarrow> string \<Rightarrow> subagent_completion list \<Rightarrow> bool" where
  "in_hand m session b \<longleftrightarrow>
     (\<exists>d. pm_drains m d = Some (session, DTaken b)) \<or>
     (b = [] \<and> (\<forall>d b'. pm_drains m d \<noteq> Some (session, DTaken b')))"

definition drain_inv :: "pmachine \<Rightarrow> string \<Rightarrow> bool" where
  "drain_inv m session \<longleftrightarrow>
     (pc_running (entry_of (pm_co m) session) \<longleftrightarrow> (\<exists>d ph. pm_drains m d = Some (session, ph))) \<and>
     (\<forall>d d' ph ph'. pm_drains m d = Some (session, ph) \<longrightarrow> pm_drains m d' = Some (session, ph') \<longrightarrow> d = d') \<and>
     (\<forall>d b. pm_drains m d = Some (session, DTaken b) \<longrightarrow> b \<noteq> [])"

definition queue_inv :: "pmachine \<Rightarrow> string \<Rightarrow> bool" where
  "queue_inv m session \<longleftrightarrow>
     (pc_pending (entry_of (pm_co m) session) \<noteq> [] \<longrightarrow> pc_running (entry_of (pm_co m) session)) \<and>
     (\<forall>d. pm_drains m d \<noteq> Some (session, DAbandon)) \<and>
     (\<forall>b. in_hand m session b \<longrightarrow>
        seen_for m session = concat (woken_for m session) @ b @ pc_pending (entry_of (pm_co m) session))"

definition turn_ok :: "wake_turn \<Rightarrow> bool" where
  "turn_ok t \<longleftrightarrow> wt_batch t \<noteq> [] \<and> wt_user t = sc_user (hd (wt_batch t)) \<and>
     wt_prompt t = build_wake_prompt (wt_batch t)"

definition pinv :: "pmachine \<Rightarrow> bool" where
  "pinv m \<longleftrightarrow>
     (\<forall>session. drain_inv m session) \<and> (pm_waker m \<longrightarrow> (\<forall>session. queue_inv m session)) \<and>
     (\<forall>t\<in>set (pm_wakes m). turn_ok t)"

lemma entry_of_insert [simp]:
  "entry_of (co\<lparr>pw_state := hm_insert s e (pw_state co)\<rparr>) s' = (if s' = s then e else entry_of co s')"
  by (simp add: entry_of_def hm_simps)

lemma on_completion_cases:
  assumes "on_completion c co = (co', start)"
  obtains (skip) "co' = co" "start = None" "\<not> accepts (pw_enabled co) c"
  | (queue) e where "accepts (pw_enabled co) c" "e = entry_of co (sc_session_conversation_id c)"
      "co' = co\<lparr>pw_state := hm_insert (sc_session_conversation_id c)
        (e\<lparr>pc_pending := pc_pending e @ [c], pc_running := True\<rparr>) (pw_state co)\<rparr>"
      "start = (if pc_running e then None else Some (sc_session_conversation_id c))"
proof (cases "accepts (pw_enabled co) c")
  case True
  let ?e = "entry_of co (sc_session_conversation_id c)"
  show ?thesis
    by (rule queue[of ?e]) (use True assms in \<open>auto simp: on_completion_def accepts_def Let_def\<close>)
next
  case False
  show ?thesis
    by (rule skip) (use False assms in \<open>auto simp: on_completion_def accepts_def split: if_splits\<close>)
qed

lemma drain_take_cases:
  assumes "drain_take s co = (co', r)"
  obtains (batch) "pc_pending (entry_of co s) \<noteq> []" "r = Some (pc_pending (entry_of co s))"
      "co' = co\<lparr>pw_state := hm_insert s ((entry_of co s)\<lparr>pc_pending := []\<rparr>) (pw_state co)\<rparr>"
  | (empty) "pc_pending (entry_of co s) = []" "r = None"
      "\<And>s'. entry_of co' s' = (if s' = s then (entry_of co s)\<lparr>pc_running := False\<rparr> else entry_of co s')"
      "pw_enabled co' = pw_enabled co"
proof (cases "hm_get (pw_state co) s")
  case None
  then have "entry_of co s = pc_default" "co' = co" "r = None"
    using assms by (auto simp: drain_take_def entry_of_def)
  then show ?thesis by (intro empty) (simp_all add: pc_default_def)
next
  case (Some e)
  then have "entry_of co s = e" by (simp add: entry_of_def)
  note e = this
  show ?thesis
  proof (cases "pc_pending e = []")
    case True
    then have co: "co' = co\<lparr>pw_state := hm_insert s (e\<lparr>pc_running := False\<rparr>) (pw_state co)\<rparr>" "r = None"
      using Some assms by (auto simp: drain_take_def)
    show ?thesis by (rule empty) (use True e co in \<open>simp_all split: if_split\<close>)
  next
    case False
    then show ?thesis by (intro batch) (use Some assms e in \<open>auto simp: drain_take_def\<close>)
  qed
qed

lemma entry_of_release:
  "entry_of (drain_release s co) s' =
     (if s' = s then (entry_of co s)\<lparr>pc_running := False\<rparr> else entry_of co s')"
  by (simp add: entry_of_def drain_release_def hm_simps pc_default_def split: option.split)

lemma pw_enabled_release [simp]: "pw_enabled (drain_release s co) = pw_enabled co"
  by (simp add: drain_release_def)

text \<open>A step that leaves a conversation alone keeps its part of the invariant.\<close>

definition drains_on :: "pmachine \<Rightarrow> string \<Rightarrow> (nat \<times> drain_phase) set" where
  "drains_on m s = {(d, ph). pm_drains m d = Some (s, ph)}"

lemma drain_inv_alt:
  "drain_inv m s \<longleftrightarrow>
     (pc_running (entry_of (pm_co m) s) \<longleftrightarrow> drains_on m s \<noteq> {}) \<and>
     (\<forall>x\<in>drains_on m s. \<forall>y\<in>drains_on m s. fst x = fst y) \<and>
     (\<forall>d b. (d, DTaken b) \<in> drains_on m s \<longrightarrow> b \<noteq> [])"
  by (auto simp: drain_inv_def drains_on_def)

lemma in_hand_alt:
  "in_hand m s b \<longleftrightarrow> (\<exists>d. (d, DTaken b) \<in> drains_on m s) \<or> (b = [] \<and> (\<forall>d b'. (d, DTaken b') \<notin> drains_on m s))"
  by (simp add: in_hand_def drains_on_def)

lemma queue_inv_alt:
  "queue_inv m s \<longleftrightarrow>
     (pc_pending (entry_of (pm_co m) s) \<noteq> [] \<longrightarrow> pc_running (entry_of (pm_co m) s)) \<and>
     (\<forall>d. (d, DAbandon) \<notin> drains_on m s) \<and>
     (\<forall>b. in_hand m s b \<longrightarrow> seen_for m s = concat (woken_for m s) @ b @ pc_pending (entry_of (pm_co m) s))"
  by (simp add: queue_inv_def drains_on_def)

lemma drain_inv_cong:
  assumes "drain_inv m s" and eqs: "drains_on m' s = drains_on m s"
    "pc_running (entry_of (pm_co m') s) = pc_running (entry_of (pm_co m) s)"
  shows "drain_inv m' s"
  using assms(1) unfolding drain_inv_alt eqs .

lemma drain_unique:
  "drain_inv m s \<Longrightarrow> pm_drains m d = Some (s, ph) \<Longrightarrow> pm_drains m d' = Some (s, ph') \<Longrightarrow> d' = d"
  unfolding drain_inv_def by meson

lemma queue_inv_cong:
  assumes "queue_inv m s" and eqs: "drains_on m' s = drains_on m s" "entry_of (pm_co m') s = entry_of (pm_co m) s"
    "seen_for m' s = seen_for m s" "woken_for m' s = woken_for m s"
  shows "queue_inv m' s"
  using assms(1) unfolding queue_inv_alt in_hand_alt eqs .

lemma single_drain:
  assumes "drain_inv m s" "pm_drains m d = Some (s, ph)"
  shows "drains_on m s = {(d, ph)}"
proof -
  have "(d', ph') \<in> drains_on m s \<longleftrightarrow> d' = d \<and> ph' = ph" for d' ph'
    using drain_unique[OF assms, of d' ph'] assms(2) by (auto simp: drains_on_def)
  then show ?thesis by auto
qed

text \<open>One drain of the session \<open>s\<close> moves on or ends.\<close>

lemma drains_on_move:
  assumes "drain_inv m s" "pm_drains m d = Some (s, ph)" "pm_drains m' = (pm_drains m)(d := map_option (Pair s) x)"
  shows "drains_on m' s' = (if s' = s then (case x of None \<Rightarrow> {} | Some ph' \<Rightarrow> {(d, ph')}) else drains_on m s')"
proof -
  have "(d', ph') \<in> drains_on m' s' \<longleftrightarrow>
      (d', ph') \<in> (if s' = s then (case x of None \<Rightarrow> {} | Some ph' \<Rightarrow> {(d, ph')}) else drains_on m s')" for d' ph'
  proof (cases "d' = d")
    case True
    then show ?thesis using assms(2,3) by (cases x; cases "s' = s"; simp add: drains_on_def eq_commute)
  next
    case False
    then have "pm_drains m d' \<noteq> Some (s, ph')" using drain_unique[OF assms(1,2)] by blast
    then show ?thesis using False assms(3) by (cases x; cases "s' = s"; simp add: drains_on_def)
  qed
  then show ?thesis by auto
qed

text \<open>Completions reach the queue.\<close>

lemma seen_for_snoc:
  "pw_enabled co = pw_enabled (pm_co m) \<Longrightarrow>
   seen_for (m\<lparr>pm_co := co, pm_seen := pm_seen m @ [c], pm_drains := ds\<rparr>) s =
     seen_for m s @ (if accepts (pw_enabled (pm_co m)) c \<and> sc_session_conversation_id c = s then [c] else [])"
  by (simp add: seen_for_def)

lemma pinv_complete:
  assumes inv: "pinv m" and oc: "on_completion c (pm_co m) = (co, start)" and d: "pm_drains m d = None"
  shows "pinv (m\<lparr>pm_co := co, pm_seen := pm_seen m @ [c],
    pm_drains := (case start of None \<Rightarrow> pm_drains m | Some s \<Rightarrow> (pm_drains m)(d \<mapsto> (s, DTake)))\<rparr>)" (is "pinv ?m")
  using oc
proof (cases rule: on_completion_cases)
  case skip
  have on: "drains_on ?m s = drains_on m s" for s by (simp add: drains_on_def skip)
  have "seen_for ?m s = seen_for m s" "woken_for ?m s = woken_for m s" for s
    using skip by (simp_all add: seen_for_def woken_for_def)
  moreover have "pm_co ?m = pm_co m" "pm_waker ?m = pm_waker m" "pm_wakes ?m = pm_wakes m" using skip by simp_all
  ultimately show ?thesis
    using inv drain_inv_cong[OF _ on] queue_inv_cong[OF _ on] by (simp add: pinv_def)
next
  case (queue e)
  let ?s = "sc_session_conversation_id c"
  have di: "drain_inv m s" for s using inv by (simp add: pinv_def)
  have en: "entry_of co s = (if s = ?s then e\<lparr>pc_pending := pc_pending e @ [c], pc_running := True\<rparr>
      else entry_of (pm_co m) s)" for s using queue(3) by simp
  have seen: "seen_for ?m s = seen_for m s @ (if s = ?s then [c] else [])" for s
    using seen_for_snoc[of co m _ c s] queue(1,3) by auto
  have woken: "woken_for ?m s = woken_for m s" for s by (simp add: woken_for_def)
  have on: "drains_on ?m s = (if s = ?s \<and> \<not> pc_running e then {(d, DTake)} else drains_on m s)" for s
  proof -
    have "drains_on m ?s = {}" if "\<not> pc_running e" using di[of ?s] that queue(2) by (simp add: drain_inv_alt)
    then show ?thesis using d queue(4) by (auto simp: drains_on_def split: if_splits)
  qed
  have "drain_inv ?m s" for s
  proof (cases "s = ?s \<and> \<not> pc_running e")
    case True
    then show ?thesis by (simp add: drain_inv_alt on en)
  next
    case False
    then show ?thesis using queue(2) by (intro drain_inv_cong[OF di]) (auto simp: on en)
  qed
  moreover have "queue_inv ?m s" if "pm_waker m" for s
  proof -
    have qi: "queue_inv m s" using inv that by (simp add: pinv_def)
    show ?thesis
    proof (cases "s = ?s")
      case False
      then show ?thesis by (intro queue_inv_cong[OF qi]) (simp_all add: on en seen woken)
    next
      case True
      have "seen_for ?m s = concat (woken_for ?m s) @ b @ pc_pending (entry_of co s)" if h: "in_hand ?m s b" for b
      proof -
        have "drains_on m s = {}" if "\<not> pc_running e" using di[of s] that queue(2) True by (simp add: drain_inv_alt)
        then have "in_hand m s b" using h True by (cases "pc_running e") (auto simp: in_hand_alt on)
        then have "seen_for m s = concat (woken_for m s) @ b @ pc_pending e"
          using qi queue(2) True unfolding queue_inv_alt by blast
        then show ?thesis using True by (simp add: seen woken en)
      qed
      moreover have "(d', DAbandon) \<notin> drains_on ?m s" for d' using qi by (simp add: on queue_inv_alt)
      ultimately show ?thesis using True unfolding queue_inv_alt by (simp add: en)
    qed
  qed
  moreover have "turn_ok t" if "t \<in> set (pm_wakes m)" for t using inv that by (simp add: pinv_def)
  ultimately show ?thesis by (simp add: pinv_def)
qed

text \<open>
  A drain of the session \<open>s\<close> moves on or ends; the rest of the machine is as it was. What is
  left to show is the part of the invariant that belongs to \<open>s\<close>.
\<close>

lemma pinv_move:
  assumes inv: "pinv m" and d: "pm_drains m d = Some (s, ph)"
    and m': "pm_drains m' = (pm_drains m)(d := map_option (Pair s) x)" "pm_waker m' = pm_waker m"
      "pm_seen m' = pm_seen m" "pw_enabled (pm_co m') = pw_enabled (pm_co m)"
    and other: "\<And>s'. s' \<noteq> s \<Longrightarrow> entry_of (pm_co m') s' = entry_of (pm_co m) s' \<and> woken_for m' s' = woken_for m s'"
    and own: "pc_running (entry_of (pm_co m') s) \<longleftrightarrow> x \<noteq> None" "\<And>b. x = Some (DTaken b) \<Longrightarrow> b \<noteq> []"
    and queue: "pm_waker m \<Longrightarrow> queue_inv m s \<Longrightarrow> queue_inv m' s"
    and turns: "\<And>t. t \<in> set (pm_wakes m') \<Longrightarrow> t \<notin> set (pm_wakes m) \<Longrightarrow> turn_ok t"
  shows "pinv m'"
proof -
  have di: "drain_inv m s'" for s' using inv by (simp add: pinv_def)
  note on = drains_on_move[OF di d m'(1)]
  have seen: "seen_for m' s' = seen_for m s'" for s' using m' by (simp add: seen_for_def)
  have "drain_inv m' s'" for s'
  proof (cases "s' = s")
    case True
    then show ?thesis using own by (cases x) (auto simp: drain_inv_alt on)
  next
    case False
    then show ?thesis using other by (intro drain_inv_cong[OF di]) (simp_all add: on)
  qed
  moreover have "queue_inv m' s'" if w: "pm_waker m" for s'
  proof (cases "s' = s")
    case True
    then show ?thesis using queue[OF w] inv w by (simp add: pinv_def)
  next
    case False
    have "queue_inv m s'" using inv w by (simp add: pinv_def)
    then show ?thesis using other[OF False] False by (intro queue_inv_cong[of m s' m']) (simp_all add: on seen)
  qed
  moreover have "turn_ok t" if "t \<in> set (pm_wakes m')" for t
    using turns[OF that] inv by (cases "t \<in> set (pm_wakes m)") (auto simp: pinv_def)
  ultimately show ?thesis using m'(2) by (simp add: pinv_def)
qed

lemma queue_invD:
  "queue_inv m s \<Longrightarrow> in_hand m s b \<Longrightarrow>
   seen_for m s = concat (woken_for m s) @ b @ pc_pending (entry_of (pm_co m) s)"
  unfolding queue_inv_def by blast

lemma in_hand_single:
  "drains_on m s = {(d, ph)} \<Longrightarrow> in_hand m s b \<longleftrightarrow> ph = DTaken b \<or> (b = [] \<and> (\<forall>b'. ph \<noteq> DTaken b'))"
  "drains_on m s = {} \<Longrightarrow> in_hand m s b \<longleftrightarrow> b = []"
  by (auto simp: in_hand_alt)

lemma pinv_take:
  assumes inv: "pinv m" and d: "pm_drains m d = Some (s, DTake)"
    and t: "drain_take s (pm_co m) = (co, Some batch)"
  shows "pinv (m\<lparr>pm_co := co, pm_drains := (pm_drains m)(d \<mapsto> (s, DTaken batch))\<rparr>)" (is "pinv ?m")
  using t
proof (cases rule: drain_take_cases)
  case batch
  have di: "drain_inv m s" using inv by (simp add: pinv_def)
  have run: "pc_running (entry_of (pm_co m) s)" using di d by (auto simp: drain_inv_def)
  show ?thesis
  proof (rule pinv_move[OF inv d, of _ "Some (DTaken batch)"])
    assume qi: "queue_inv m s"
    have "in_hand m s []" using in_hand_single(1)[OF single_drain[OF di d]] by simp
    from queue_invD[OF qi this]
    have "seen_for m s = concat (woken_for m s) @ batch" using batch(2) by simp
    moreover have on: "drains_on ?m s = {(d, DTaken batch)}"
      using drains_on_move[OF di d, of ?m "Some (DTaken batch)" s] by simp
    ultimately show "queue_inv ?m s"
      using batch(3) in_hand_single(1)[OF on] by (simp add: queue_inv_alt on seen_for_def woken_for_def)
  qed (use batch run in \<open>simp_all add: woken_for_def\<close>)
qed simp

lemma pinv_stop:
  assumes inv: "pinv m" and d: "pm_drains m d = Some (s, DTake)"
    and t: "drain_take s (pm_co m) = (co, None)"
  shows "pinv (m\<lparr>pm_co := co, pm_drains := (pm_drains m)(d := None)\<rparr>)" (is "pinv ?m")
  using t
proof (cases rule: drain_take_cases)
  case empty
  have di: "drain_inv m s" using inv by (simp add: pinv_def)
  show ?thesis
  proof (rule pinv_move[OF inv d, of _ None])
    assume qi: "queue_inv m s"
    have "in_hand m s []" using in_hand_single(1)[OF single_drain[OF di d]] by simp
    from queue_invD[OF qi this]
    have "seen_for m s = concat (woken_for m s)" using empty(1) by simp
    moreover have on: "drains_on ?m s = {}" using drains_on_move[OF di d, of ?m None s] by simp
    ultimately show "queue_inv ?m s"
      using empty in_hand_single(2)[OF on] by (simp add: queue_inv_alt on seen_for_def woken_for_def)
  qed (use empty in \<open>simp_all add: woken_for_def\<close>)
qed simp

lemma pinv_wake:
  assumes inv: "pinv m" and d: "pm_drains m d = Some (s, DTaken batch)"
  shows "pinv (m\<lparr>pm_drains := (pm_drains m)(d \<mapsto> (s, DWaking)),
    pm_wakes := pm_wakes m @ [\<lparr>wt_user = sc_user (hd batch), wt_session = s, wt_batch = batch,
      wt_prompt = build_wake_prompt batch\<rparr>]\<rparr>)" (is "pinv ?m")
proof -
  have di: "drain_inv m s" using inv by (simp add: pinv_def)
  have run: "pc_running (entry_of (pm_co m) s)" and ne: "batch \<noteq> []" using di d by (auto simp: drain_inv_def)
  show ?thesis
  proof (rule pinv_move[OF inv d, of _ "Some DWaking"])
    assume qi: "queue_inv m s"
    have "in_hand m s batch" using in_hand_single(1)[OF single_drain[OF di d]] by simp
    note seen = queue_invD[OF qi this]
    have on: "drains_on ?m s = {(d, DWaking)}" using drains_on_move[OF di d, of ?m "Some DWaking" s] by simp
    show "queue_inv ?m s"
      using seen qi run in_hand_single(1)[OF on] by (simp add: queue_inv_alt on seen_for_def woken_for_def)
  qed (use run ne in \<open>auto simp: woken_for_def turn_ok_def\<close>)
qed

lemma pinv_turn_ended:
  assumes inv: "pinv m" and d: "pm_drains m d = Some (s, DWaking)"
  shows "pinv (m\<lparr>pm_drains := (pm_drains m)(d \<mapsto> (s, DTake))\<rparr>)" (is "pinv ?m")
proof -
  have di: "drain_inv m s" using inv by (simp add: pinv_def)
  have run: "pc_running (entry_of (pm_co m) s)" using di d by (auto simp: drain_inv_def)
  show ?thesis
  proof (rule pinv_move[OF inv d, of _ "Some DTake"])
    assume qi: "queue_inv m s"
    have "in_hand m s []" using in_hand_single(1)[OF single_drain[OF di d]] by simp
    note seen = queue_invD[OF qi this]
    have on: "drains_on ?m s = {(d, DTake)}" using drains_on_move[OF di d, of ?m "Some DTake" s] by simp
    show "queue_inv ?m s"
      using seen qi run in_hand_single(1)[OF on] by (simp add: queue_inv_alt on seen_for_def woken_for_def)
  qed (use run in \<open>auto simp: woken_for_def\<close>)
qed

lemma pinv_step: "pstep m m' \<Longrightarrow> pinv m \<Longrightarrow> pinv m'"
proof (induction rule: pstep.induct)
  case (p_gone m d s batch)
  have di: "drain_inv m s" using p_gone by (simp add: pinv_def)
  have run: "pc_running (entry_of (pm_co m) s)" using di p_gone(1) by (auto simp: drain_inv_def)
  show ?case
    by (rule pinv_move[OF p_gone(3,1), of _ "Some DAbandon"]) (use run p_gone(2) in \<open>auto simp: woken_for_def\<close>)
next
  case (p_release m d s)
  have nw: "\<not> pm_waker m"
    using p_release by (auto simp: pinv_def queue_inv_def)
  show ?case
    by (rule pinv_move[OF p_release(2,1), of _ None]) (use nw in \<open>auto simp: woken_for_def entry_of_release\<close>)
next
  case (p_shutdown m)
  have "drain_inv (m\<lparr>pm_waker := False\<rparr>) s" for s
    by (rule drain_inv_cong[of m]) (use p_shutdown in \<open>simp_all add: pinv_def drains_on_def\<close>)
  then show ?case using p_shutdown by (simp add: pinv_def)
qed (auto intro: pinv_complete pinv_take pinv_stop pinv_wake pinv_turn_ended)

interpretation pw: invariant_system pinit pstep pinv
proof
  fix m assume "pinit m"
  then show "pinv m"
    by (auto simp: pinit_def pinv_def drain_inv_def queue_inv_def in_hand_def seen_for_def woken_for_def
        entry_of_def coordinator_new_def pc_default_def)
next
  fix m m' assume "pinv m" "pstep m m'"
  then show "pinv m'" using pinv_step by blast
qed

lemma length_concat_nonempty: "list_all (\<lambda>xs. xs \<noteq> []) xss \<Longrightarrow> length xss \<le> length (concat xss)"
proof (induction xss)
  case (Cons xs xss)
  then show ?case by (cases xs) auto
qed simp

lemma in_hand_exists: "\<exists>b. in_hand m s b"
  by (auto simp: in_hand_def)

text \<open>Every finished child of a batch is named in the prompt, with its line whole.\<close>

lemma wake_prompt_names_child:
  "c \<in> set batch \<Longrightarrow> \<exists>before after. build_wake_prompt batch = before @ wake_line c @ after"
proof -
  assume "c \<in> set batch"
  then obtain xs ys where b: "batch = xs @ c # ys" by (auto simp: in_set_conv_decomp)
  obtain pre post where p: "build_wake_prompt batch = pre @ concat (map wake_line batch) @ post"
    unfolding build_wake_prompt_def Let_def by blast
  then have "build_wake_prompt batch =
      (pre @ concat (map wake_line xs)) @ wake_line c @ concat (map wake_line ys) @ post" using b by simp
  then show ?thesis by blast
qed

section \<open>Properties\<close>

text \<open>
  C20: no completion is lost, repeated or reordered. While the waker is there, the detached
  completions a conversation was sent are, in order, those of its wake turns so far, then those
  a drain has just taken, then those pending; whenever some are pending a drain is at work for
  the conversation, never more than one, so wake turns do not overlap; once no drain is at
  work, every completion has been delivered. Coalescing only ever saves turns.
\<close>

theorem every_completion_wakes_parent_once:
  assumes "reachable pinit pstep m" "pm_waker m"
  shows "(\<exists>b. in_hand m s b \<and>
      seen_for m s = concat (woken_for m s) @ b @ pc_pending (entry_of (pm_co m) s)) \<and>
    (pc_pending (entry_of (pm_co m) s) \<noteq> [] \<longrightarrow> (\<exists>d ph. pm_drains m d = Some (s, ph))) \<and>
    (\<forall>d d' ph ph'. pm_drains m d = Some (s, ph) \<longrightarrow> pm_drains m d' = Some (s, ph') \<longrightarrow> d = d') \<and>
    ((\<forall>d ph. pm_drains m d \<noteq> Some (s, ph)) \<longrightarrow> seen_for m s = concat (woken_for m s)) \<and>
    length (woken_for m s) \<le> length (seen_for m s)"
proof -
  have inv: "pinv m" by (rule pw.reachable_inv[OF assms(1)])
  have di: "drain_inv m s" and qi: "queue_inv m s" using inv assms(2) by (simp_all add: pinv_def)
  obtain b where b: "in_hand m s b" using in_hand_exists by blast
  note seen = queue_invD[OF qi b]
  have run: "pc_pending (entry_of (pm_co m) s) \<noteq> [] \<longrightarrow> (\<exists>d ph. pm_drains m d = Some (s, ph))"
    using di qi unfolding drain_inv_def queue_inv_def by blast
  have "list_all (\<lambda>xs. xs \<noteq> []) (woken_for m s)"
    using inv by (auto simp: pinv_def woken_for_def turn_ok_def list_all_iff)
  then have "length (woken_for m s) \<le> length (seen_for m s)"
    using length_concat_nonempty seen by fastforce
  moreover have "seen_for m s = concat (woken_for m s)" if "\<forall>d ph. pm_drains m d \<noteq> Some (s, ph)"
    using that run b seen by (auto simp: in_hand_def)
  ultimately show ?thesis using b seen run drain_unique[OF di] by blast
qed

definition example_completion :: subagent_completion where
  "example_completion = \<lparr>sc_user = ''dave'', sc_parent_task_id = ''p'', sc_child_conversation_id = ''child'',
     sc_session_conversation_id = ''main'', sc_child_task_id = ''t'', sc_child_name = ''scout'',
     sc_owner_todo = ''1.1'', sc_status = Completed, sc_siblings_remaining = 0, sc_notify_parent = True\<rparr>"

definition example_p0 :: pmachine where
  "example_p0 = \<lparr>pm_co = coordinator_new True, pm_drains = Map.empty, pm_waker = True, pm_seen = [], pm_wakes = []\<rparr>"

definition example_p1 :: pmachine where
  "example_p1 = example_p0\<lparr>pm_co := fst (on_completion example_completion (coordinator_new True)),
     pm_seen := [example_completion], pm_drains := [3 \<mapsto> (''main'', DTake)]\<rparr>"

lemma example_p1_reachable: "reachable pinit pstep example_p1"
proof -
  have oc: "on_completion example_completion (pm_co example_p0) =
      (fst (on_completion example_completion (coordinator_new True)), Some ''main'')"
    by (simp add: on_completion_def example_completion_def example_p0_def coordinator_new_def entry_of_def
        pc_default_def Let_def)
  have "pinit example_p0" unfolding pinit_def example_p0_def by fastforce
  then have "reachable pinit pstep example_p0" by (rule reach_init)
  moreover have "pstep example_p0 example_p1"
    using p_complete[OF oc, of 3] by (simp add: example_p1_def) (simp add: example_p0_def)
  ultimately show ?thesis by (rule reach_step)
qed

theorem every_completion_wakes_parent_once_witness:
  "\<exists>b. in_hand example_p1 ''main'' b \<and>
    seen_for example_p1 ''main'' = concat (woken_for example_p1 ''main'') @ b @ [example_completion]"
proof -
  have w: "pm_waker example_p1" by (simp add: example_p1_def example_p0_def)
  have p: "pc_pending (entry_of (pm_co example_p1) ''main'') = [example_completion]"
    by (simp add: example_p1_def on_completion_def coordinator_new_def entry_of_def pc_default_def Let_def
        example_completion_def)
  show ?thesis using every_completion_wakes_parent_once[OF example_p1_reachable w, of "''main''"] p by simp
qed

end
