(* ===== verification/Inflight.thy ===== *)
theory Inflight
  imports Conversation_Subs "HOL-Library.Sublist"
begin

text \<open>
  Re-attaching to a live turn (\<^verbatim>\<open>crates/application/src/inflight.rs\<close>). A keyed turn emits
  through a tee: to its caller, and into a hub that keeps the most recent events and
  broadcasts each one. A retry of the same request finds the live turn, replays the kept
  events and follows the rest under its own request id.

  The hub's broadcast channel is the list of the events sent; a receiver is the position it
  reads from, and reading more than the capacity behind yields one \<open>Lagged\<close> and skips to the
  oldest event still there, as \<^verbatim>\<open>tokio::sync::broadcast\<close> documents. The buffer lock makes
  \<open>emit_event\<close> and \<open>snapshot_and_subscribe\<close> atomic.
\<close>

section \<open>The hub\<close>

definition INFLIGHT_BROADCAST_CAP :: nat where
  "INFLIGHT_BROADCAST_CAP = 256"

definition INFLIGHT_BUFFER_CAP :: nat where
  "INFLIGHT_BUFFER_CAP = INFLIGHT_BROADCAST_CAP"

record 'j inflight_turn =
  ift_buffer :: "'j event list"
  ift_sent :: "'j event list"

definition inflight_new :: "'j inflight_turn" where
  "inflight_new = \<lparr>ift_buffer = [], ift_sent = []\<rparr>"

text \<open>\<^verbatim>\<open>while buffer.len() > INFLIGHT_BUFFER_CAP { buffer.pop_front(); }\<close>\<close>

fun pop_to_cap :: "'a list \<Rightarrow> 'a list" where
  "pop_to_cap [] = []"
| "pop_to_cap (x # b) = (if INFLIGHT_BUFFER_CAP < length (x # b) then pop_to_cap b else x # b)"

definition push_recent :: "'a list \<Rightarrow> 'a \<Rightarrow> 'a list" where
  "push_recent buffer event = pop_to_cap (buffer @ [event])"

definition emit_event :: "'j event \<Rightarrow> 'j inflight_turn \<Rightarrow> 'j inflight_turn" where
  "emit_event event t =
     t\<lparr>ift_buffer := push_recent (ift_buffer t) event, ift_sent := ift_sent t @ [event]\<rparr>"

definition snapshot_and_subscribe :: "'j inflight_turn \<Rightarrow> 'j event list \<times> nat" where
  "snapshot_and_subscribe t = (ift_buffer t, length (ift_sent t))"

datatype 'j recv = RecvOk "'j event" | RecvLagged nat | RecvClosed | RecvPending

text \<open>
  One \<^verbatim>\<open>recv\<close> of a receiver at a position. With the sender gone, what is left in the channel is
  read out and then the channel is closed; while the turn runs, the receiver waits.
\<close>

definition recv :: "bool \<Rightarrow> 'j inflight_turn \<Rightarrow> nat \<Rightarrow> 'j recv \<times> nat" where
  "recv ended t pos =
     (let n = length (ift_sent t)
      in if n \<le> pos then (if ended then RecvClosed else RecvPending, pos)
         else if INFLIGHT_BROADCAST_CAP < n - pos then
           (RecvLagged (n - pos - INFLIGHT_BROADCAST_CAP), n - INFLIGHT_BROADCAST_CAP)
         else (RecvOk (ift_sent t ! pos), Suc pos))"

definition emit_events :: "'j event list \<Rightarrow> 'j inflight_turn \<Rightarrow> 'j inflight_turn" where
  "emit_events es t = foldl (\<lambda>t e. emit_event e t) t es"

lemma emit_events_sent [simp]: "ift_sent (emit_events es t) = ift_sent t @ es"
  by (induction es arbitrary: t) (simp_all add: emit_events_def emit_event_def)

lemma emit_events_buffer: "ift_buffer (emit_events es t) = foldl push_recent (ift_buffer t) es"
  by (induction es arbitrary: t) (simp_all add: emit_events_def emit_event_def)

definition tee_emit ::
  "('k, 'j, 'w) emitter \<Rightarrow> 'k \<Rightarrow> 'j event \<Rightarrow> 'j inflight_turn \<times> 'w \<Rightarrow> ('j inflight_turn \<times> 'w) \<times> bool" where
  "tee_emit emit primary event tw =
     (case tw of (t, w) \<Rightarrow>
        (let t = emit_event event t; (w, ok) = emit primary event w in ((t, w), ok)))"

section \<open>Following a turn\<close>

fun restamp_request_id :: "'j event \<Rightarrow> string \<Rightarrow> 'j event" where
  "restamp_request_id (AssistantDelta c _ ch) r = AssistantDelta c r ch"
| "restamp_request_id (AssistantStatus c _ m cc) r = AssistantStatus c r m cc"
| "restamp_request_id (ContextUsage c _ u b ca) r = ContextUsage c r u b ca"
| "restamp_request_id (AssistantCompleted c _ f) r = AssistantCompleted c r f"
| "restamp_request_id (AssistantError c _ e) r = AssistantError c r e"
| "restamp_request_id e r = e"

fun forward_replay ::
  "('k, 'j, 'w) emitter \<Rightarrow> string \<Rightarrow> 'k \<Rightarrow> 'j event list \<Rightarrow> 'w \<Rightarrow> 'w \<times> bool" where
  "forward_replay emit rid sink [] w = (w, True)"
| "forward_replay emit rid sink (e # es) w =
     (case emit sink (restamp_request_id e rid) w of
        (w, ok) \<Rightarrow> if \<not> ok then (w, False) else forward_replay emit rid sink es w)"

lemma recv_progress:
  "recv ended t pos = (RecvOk e, pos') \<Longrightarrow> pos < pos' \<and> pos' \<le> length (ift_sent t)"
  "recv ended t pos = (RecvLagged n, pos') \<Longrightarrow> pos < pos' \<and> pos' \<le> length (ift_sent t)"
  "recv ended t pos = (RecvPending, pos') \<Longrightarrow> \<not> ended"
  by (auto simp: recv_def Let_def INFLIGHT_BROADCAST_CAP_def split: if_splits)

definition live_left :: "'j inflight_turn \<Rightarrow> nat \<Rightarrow> 'j event list list \<Rightarrow> nat" where
  "live_left t pos batches = length (ift_sent t) + length (concat batches) - pos + length batches"

lemma live_left_step:
  assumes "pos' = pos \<and> batches \<noteq> [] \<or> pos < pos' \<and> pos' \<le> length (ift_sent t)"
  shows "live_left (emit_events (concat (take 1 batches)) t) pos' (drop 1 batches) < live_left t pos batches"
  using assms by (cases batches) (auto simp: live_left_def)

lemmas recv_progress_sym = recv_progress[OF sym]

text \<open>
  The forwarding loop beside the running turn: \<open>batches\<close> says what the turn emits while the loop
  waits, delivers or skips, one batch per iteration; the turn has ended when none is left.
\<close>

function forward_live ::
  "('k, 'j, 'w) emitter \<Rightarrow> string \<Rightarrow> 'k \<Rightarrow> 'j inflight_turn \<Rightarrow> nat \<Rightarrow> 'j event list list \<Rightarrow> 'w \<Rightarrow> 'w" where
  "forward_live emit rid sink t pos batches w =
     (let t' = emit_events (concat (take 1 batches)) t; later = drop 1 batches
      in case recv (batches = []) t pos of
           (RecvOk event, pos') \<Rightarrow>
             (case emit sink (restamp_request_id event rid) w of
                (w', ok) \<Rightarrow> if \<not> ok then w' else forward_live emit rid sink t' pos' later w')
         | (RecvClosed, pos') \<Rightarrow> w
         | (RecvLagged n, pos') \<Rightarrow> forward_live emit rid sink t' pos' later w
         | (RecvPending, pos') \<Rightarrow> forward_live emit rid sink t' pos later w)"
  by pat_completeness auto
termination
  by (relation "measure (\<lambda>(emit, rid, sink, t, pos, batches, w). live_left t pos batches)")
    (auto simp del: One_nat_def dest!: recv_progress_sym intro!: live_left_step)

declare forward_live.simps [simp del]

definition forward_inflight ::
  "('k, 'j, 'w) emitter \<Rightarrow> 'j event list \<Rightarrow> 'j inflight_turn \<Rightarrow> nat \<Rightarrow> 'j event list list \<Rightarrow>
    string \<Rightarrow> 'k \<Rightarrow> 'w \<Rightarrow> 'w" where
  "forward_inflight emit replay t pos batches rid sink w =
     (case forward_replay emit rid sink replay w of
        (w, False) \<Rightarrow> w
      | (w, True) \<Rightarrow> forward_live emit rid sink t pos batches w)"

section \<open>The index of live turns\<close>

type_synonym turn_key = "string \<times> string \<times> string"

definition turn_key :: "string \<Rightarrow> string \<Rightarrow> string \<Rightarrow> turn_key" where
  "turn_key user_id conversation_id idempotency_key = (user_id, conversation_id, idempotency_key)"

text \<open>\<open>fresh\<close> is the hub the claim would create.\<close>

definition inflight_register ::
  "string \<Rightarrow> string \<Rightarrow> string \<Rightarrow> 'h \<Rightarrow> (turn_key, 'h) hashmap \<Rightarrow> (turn_key, 'h) hashmap \<times> 'h option" where
  "inflight_register u c k fresh m =
     (if hm_get m (turn_key u c k) \<noteq> None then (m, None)
      else (hm_insert (turn_key u c k) fresh m, Some fresh))"

definition inflight_get :: "string \<Rightarrow> string \<Rightarrow> string \<Rightarrow> (turn_key, 'h) hashmap \<Rightarrow> 'h option" where
  "inflight_get u c k m = hm_get m (turn_key u c k)"

definition inflight_remove ::
  "string \<Rightarrow> string \<Rightarrow> string \<Rightarrow> (turn_key, 'h) hashmap \<Rightarrow> (turn_key, 'h) hashmap" where
  "inflight_remove u c k m = hm_remove (turn_key u c k) m"

section \<open>Facts\<close>

lemma pop_to_cap_drop: "pop_to_cap b = drop (length b - INFLIGHT_BUFFER_CAP) b"
  by (induction b) (auto simp: Suc_diff_le)

interpretation hub: recent_buffer INFLIGHT_BUFFER_CAP push_recent
  by unfold_locales (simp add: push_recent_def pop_to_cap_drop del: drop_append)

lemma forward_replay_log:
  "forward_replay log_emit rid k es w = (w @ map (\<lambda>e. (k, restamp_request_id e rid)) es, True)"
  by (induction es arbitrary: w) (simp_all add: log_emit_def)

definition turn_events :: "'j inflight_turn \<Rightarrow> 'j event list list \<Rightarrow> 'j event list" where
  "turn_events t batches = ift_sent t @ concat batches"

lemma turn_events_step [simp]:
  "turn_events (emit_events (concat (take 1 batches)) t) (drop 1 batches) = turn_events t batches"
  by (cases batches) (simp_all add: turn_events_def)

text \<open>
  What the loop delivers: some of the events from its position on, in order; always the last
  ones that the channel holds; and every one of them when fewer than a capacity are left.
\<close>

definition delivers_tail :: "'j event list \<Rightarrow> nat \<Rightarrow> 'j event list \<Rightarrow> bool" where
  "delivers_tail es pos ds \<longleftrightarrow>
     subseq ds (drop pos es)
     \<and> suffix (drop (max pos (length es - INFLIGHT_BROADCAST_CAP)) es) ds
     \<and> (length es \<le> pos + INFLIGHT_BROADCAST_CAP \<longrightarrow> ds = drop pos es)"

lemma delivers_tail_done: "length es \<le> pos \<Longrightarrow> delivers_tail es pos []"
  by (simp add: delivers_tail_def)

lemma delivers_tail_ok:
  assumes "delivers_tail es (Suc pos) ds" "pos < length es"
  shows "delivers_tail es pos (es ! pos # ds)"
proof -
  have "drop pos es = es ! pos # drop (Suc pos) es"
    using assms(2) by (simp add: Cons_nth_drop_Suc)
  then show ?thesis
  proof (cases "length es - INFLIGHT_BROADCAST_CAP \<le> pos")
    case True
    then have "ds = drop (Suc pos) es" using assms(1) by (simp add: delivers_tail_def)
    then show ?thesis using True \<open>drop pos es = _\<close> by (simp add: delivers_tail_def max_def)
  next
    case False
    then have "max pos (length es - INFLIGHT_BROADCAST_CAP) = max (Suc pos) (length es - INFLIGHT_BROADCAST_CAP)"
      by simp
    then show ?thesis
      using assms(1) False \<open>drop pos es = _\<close> by (simp add: delivers_tail_def suffix_ConsI)
  qed
qed

lemma delivers_tail_lagged:
  assumes "delivers_tail es pos' ds" "pos < pos'" "pos' + INFLIGHT_BROADCAST_CAP \<le> length es"
  shows "delivers_tail es pos ds"
proof -
  have "drop pos' es = drop (pos' - pos) (drop pos es)" using assms(2) by simp
  then have "subseq (drop pos' es) (drop pos es)" by (metis suffix_drop suffix_imp_subseq)
  then show ?thesis using assms
    by (auto simp: delivers_tail_def max_def intro: subseq_order.trans split: if_splits)
qed

lemma forward_live_log:
  "\<exists>ds. forward_live log_emit rid k t pos batches w = w @ map (\<lambda>e. (k, restamp_request_id e rid)) ds
     \<and> delivers_tail (turn_events t batches) pos ds"
    (is "?P t pos batches w")
proof (induction "live_left t pos batches" arbitrary: t pos batches w rule: less_induct)
  case less
  define t' where "t' = emit_events (concat (take 1 batches)) t"
  have IH: "\<exists>ds. forward_live log_emit rid k t' pos' (drop 1 batches) w'
        = w' @ map (\<lambda>e. (k, restamp_request_id e rid)) ds \<and> delivers_tail (turn_events t batches) pos' ds"
    if "pos' = pos \<and> batches \<noteq> [] \<or> pos < pos' \<and> pos' \<le> length (ift_sent t)" for pos' w'
    using less[OF live_left_step[OF that]] unfolding t'_def turn_events_step .
  consider (wait) "length (ift_sent t) \<le> pos" | (lag) "pos + INFLIGHT_BROADCAST_CAP < length (ift_sent t)"
    | (ok) "pos < length (ift_sent t)" "length (ift_sent t) \<le> pos + INFLIGHT_BROADCAST_CAP"
    by linarith
  then show ?case
  proof cases
    case wait
    then show ?thesis
      using IH[of pos w] delivers_tail_done[of "turn_events t batches" pos]
      by (subst forward_live.simps)
        (cases "batches = []"; simp add: recv_def Let_def t'_def turn_events_def)
  next
    case lag
    let ?pos = "length (ift_sent t) - INFLIGHT_BROADCAST_CAP"
    have "recv (batches = []) t pos = (RecvLagged (length (ift_sent t) - pos - INFLIGHT_BROADCAST_CAP), ?pos)"
      using lag by (auto simp: recv_def Let_def)
    then have "forward_live log_emit rid k t pos batches w = forward_live log_emit rid k t' ?pos (drop 1 batches) w"
      by (subst forward_live.simps) (simp add: t'_def)
    moreover have "delivers_tail (turn_events t batches) pos ds" if "delivers_tail (turn_events t batches) ?pos ds" for ds
      using lag by (intro delivers_tail_lagged[OF that]) (simp_all add: turn_events_def)
    ultimately show ?thesis using IH[of ?pos w] lag by fastforce
  next
    case ok
    let ?e = "ift_sent t ! pos"
    have "recv (batches = []) t pos = (RecvOk ?e, Suc pos)"
      using ok by (auto simp: recv_def Let_def)
    then have "forward_live log_emit rid k t pos batches w =
        forward_live log_emit rid k t' (Suc pos) (drop 1 batches) (w @ [(k, restamp_request_id ?e rid)])"
      by (subst forward_live.simps) (simp add: t'_def log_emit_def)
    moreover have "delivers_tail (turn_events t batches) pos (?e # ds)"
      if "delivers_tail (turn_events t batches) (Suc pos) ds" for ds
      using delivers_tail_ok[OF that] ok by (simp add: turn_events_def nth_append)
    moreover obtain ds where "forward_live log_emit rid k t' (Suc pos) (drop 1 batches)
          (w @ [(k, restamp_request_id ?e rid)])
        = (w @ [(k, restamp_request_id ?e rid)]) @ map (\<lambda>e. (k, restamp_request_id e rid)) ds"
      and "delivers_tail (turn_events t batches) (Suc pos) ds"
      using IH[of "Suc pos" "w @ [(k, restamp_request_id ?e rid)]"] ok by auto
    ultimately show ?thesis by (intro exI[of _ "?e # ds"]) simp
  qed
qed

lemma snapshot_emit_events:
  "snapshot_and_subscribe (emit_events es inflight_new) = (drop (length es - INFLIGHT_BUFFER_CAP) es, length es)"
  using hub.pushes_suffix[of "[]" es]
  by (simp add: snapshot_and_subscribe_def emit_events_buffer inflight_new_def)

text \<open>Replaying the snapshot and following the rest joins up without a gap or an overlap.\<close>

lemma suffix_drop_mono: "p \<le> q \<Longrightarrow> suffix (drop q xs) (drop p xs)"
  using suffix_drop[of "q - p" "drop p xs"] by simp

lemma replay_then_tail:
  fixes es1 es2 ds :: "'j event list"
  assumes tail: "delivers_tail (es1 @ es2) (length es1) ds"
  defines "got \<equiv> drop (length es1 - INFLIGHT_BUFFER_CAP) es1 @ ds"
  shows "subseq got (es1 @ es2)"
    and "suffix (drop (length (es1 @ es2) - INFLIGHT_BROADCAST_CAP) (es1 @ es2)) got"
    and "length es2 \<le> INFLIGHT_BROADCAST_CAP \<Longrightarrow> got = drop (length es1 - INFLIGHT_BUFFER_CAP) (es1 @ es2)"
proof -
  have "subseq ds es2" using tail by (simp add: delivers_tail_def)
  then show "subseq got (es1 @ es2)"
    unfolding got_def by (intro list_emb_append_mono suffix_imp_subseq[OF suffix_drop])
  show exact: "got = drop (length es1 - INFLIGHT_BUFFER_CAP) (es1 @ es2)"
    if "length es2 \<le> INFLIGHT_BROADCAST_CAP"
    using tail that by (simp add: got_def delivers_tail_def)
  show "suffix (drop (length (es1 @ es2) - INFLIGHT_BROADCAST_CAP) (es1 @ es2)) got"
  proof (cases "length es2 \<le> INFLIGHT_BROADCAST_CAP")
    case True
    then show ?thesis unfolding exact[OF True]
      by (intro suffix_drop_mono) (simp add: INFLIGHT_BUFFER_CAP_def)
  next
    case False
    then have "suffix (drop (length (es1 @ es2) - INFLIGHT_BROADCAST_CAP) (es1 @ es2)) ds"
      using tail by (simp add: delivers_tail_def max_def split: if_splits)
    then show ?thesis unfolding got_def by (rule suffix_appendI)
  qed
qed

lemma forward_inflight_log:
  assumes "snapshot_and_subscribe (emit_events es1 inflight_new) = (replay, pos)"
  obtains ds where
    "forward_inflight log_emit replay (emit_events es1 inflight_new) pos batches rid k w
       = w @ map (\<lambda>e. (k, restamp_request_id e rid)) (replay @ ds)"
    "delivers_tail (es1 @ concat batches) (length es1) ds" "replay = drop (length es1 - INFLIGHT_BUFFER_CAP) es1"
proof -
  let ?w = "w @ map (\<lambda>e. (k, restamp_request_id e rid)) replay"
  obtain ds where "forward_live log_emit rid k (emit_events es1 inflight_new) (length es1) batches ?w
      = ?w @ map (\<lambda>e. (k, restamp_request_id e rid)) ds" "delivers_tail (es1 @ concat batches) (length es1) ds"
    using forward_live_log[of rid k "emit_events es1 inflight_new" "length es1" batches ?w]
    by (auto simp: turn_events_def inflight_new_def)
  then show thesis
    using assms by (intro that[of ds]) (auto simp: snapshot_emit_events forward_inflight_def forward_replay_log)
qed

text \<open>
  C31: a retry that re-attaches to a live turn sees the turn's own events, in order, each once, under
  the retry's request id. However far it falls behind, the last \<open>INFLIGHT_BROADCAST_CAP\<close> events of
  the turn all reach it; and when the turn emits no more than that after the re-attach, it sees
  everything from the first event the hub still held.
\<close>

theorem reattach_delivers:
  assumes "snapshot_and_subscribe (emit_events es1 inflight_new) = (replay, pos)"
  shows "\<exists>got. forward_inflight log_emit replay (emit_events es1 inflight_new) pos batches rid k []
              = map (\<lambda>e. (k, restamp_request_id e rid)) got
     \<and> subseq got (es1 @ concat batches)
     \<and> suffix (drop (length (es1 @ concat batches) - INFLIGHT_BROADCAST_CAP) (es1 @ concat batches)) got
     \<and> (length (concat batches) \<le> INFLIGHT_BROADCAST_CAP \<longrightarrow>
          got = drop (length es1 - INFLIGHT_BUFFER_CAP) (es1 @ concat batches))"
proof -
  obtain ds where ds: "forward_inflight log_emit replay (emit_events es1 inflight_new) pos batches rid k []
      = [] @ map (\<lambda>e. (k, restamp_request_id e rid)) (replay @ ds)"
    "delivers_tail (es1 @ concat batches) (length es1) ds" "replay = drop (length es1 - INFLIGHT_BUFFER_CAP) es1"
    by (rule forward_inflight_log[OF assms])
  show ?thesis
    using ds(1) replay_then_tail[OF ds(2)] unfolding ds(3)
    by (intro exI[of _ "drop (length es1 - INFLIGHT_BUFFER_CAP) es1 @ ds"]) simp
qed

theorem reattach_delivers_witness:
  "snapshot_and_subscribe (emit_events [AssistantDelta ''c'' ''r'' ''a'' :: nat event] inflight_new)
     = ([AssistantDelta ''c'' ''r'' ''a''], 1)
   \<and> forward_inflight log_emit [AssistantDelta ''c'' ''r'' ''a'' :: nat event]
       (emit_events [AssistantDelta ''c'' ''r'' ''a''] inflight_new) 1 [[], [AssistantDelta ''c'' ''r'' ''b'']] ''retry'' (0 :: nat) []
     = [(0, AssistantDelta ''c'' ''retry'' ''a''), (0, AssistantDelta ''c'' ''retry'' ''b'')]"
proof -
  have snap: "snapshot_and_subscribe (emit_events [AssistantDelta ''c'' ''r'' ''a'' :: nat event] inflight_new)
      = ([AssistantDelta ''c'' ''r'' ''a''], 1)"
    by (simp add: snapshot_emit_events INFLIGHT_BUFFER_CAP_def INFLIGHT_BROADCAST_CAP_def)
  show ?thesis
    using reattach_delivers[OF snap, of "[[], [AssistantDelta ''c'' ''r'' ''b'']]" "''retry''" "0 :: nat"] snap
    by (auto simp: INFLIGHT_BUFFER_CAP_def INFLIGHT_BROADCAST_CAP_def)
qed

end
