(* ===== verification/Json_Bytes.thy ===== *)
theory Json_Bytes
  imports Prelude
begin

text \<open>
  The compact JSON that \<^verbatim>\<open>serde_json\<close> writes for the response types, byte by byte, and the
  search that cuts a text to a serialized-byte budget
  (\<^verbatim>\<open>serialized_len\<close> and the loops of \<^verbatim>\<open>crates/application/src/lib.rs\<close>).

  \<open>cut_search\<close> is the loop that the heading functions share. It is judged against a
  specification in the locale \<open>byte_cut\<close>: the fitting predicate is closed under shorter
  cuts, and boundary-free runs have bounded length.
\<close>

section \<open>JSON text\<close>

definition hex_digit :: "nat \<Rightarrow> char" where
  "hex_digit n = (if n < 10 then char_of (48 + n) else char_of (87 + n))"

definition json_escape :: "char \<Rightarrow> string" where
  "json_escape c =
     (let b = byte_of c
      in if b = 34 then [CHR 0x5C, CHR 0x22]
         else if b = 92 then [CHR 0x5C, CHR 0x5C]
         else if b = 8 then [CHR 0x5C, CHR ''b'']
         else if b = 12 then [CHR 0x5C, CHR ''f'']
         else if b = 10 then [CHR 0x5C, CHR ''n'']
         else if b = 13 then [CHR 0x5C, CHR ''r'']
         else if b = 9 then [CHR 0x5C, CHR ''t'']
         else if b < 32 then
           [CHR 0x5C, CHR ''u'', CHR ''0'', CHR ''0'', hex_digit (b div 16), hex_digit (b mod 16)]
         else [c])"

definition json_body :: "string \<Rightarrow> string" where
  "json_body s = concat (map json_escape s)"

definition json_str :: "string \<Rightarrow> string" where
  "json_str s = [CHR 0x22] @ json_body s @ [CHR 0x22]"

fun json_commas :: "string list \<Rightarrow> string" where
  "json_commas [] = []"
| "json_commas [x] = x"
| "json_commas (x # y # xs) = x @ '','' @ json_commas (y # xs)"

definition json_array :: "string list \<Rightarrow> string" where
  "json_array xs = ''['' @ json_commas xs @ '']''"

definition json_field :: "string \<Rightarrow> string \<Rightarrow> string" where
  "json_field name v = json_str name @ '':'' @ v"

definition json_object :: "string list \<Rightarrow> string" where
  "json_object fields = ''{'' @ json_commas fields @ ''}''"

definition json_bool :: "bool \<Rightarrow> string" where
  "json_bool b = (if b then ''true'' else ''false'')"

fun json_opt_str :: "string option \<Rightarrow> string" where
  "json_opt_str None = ''null''"
| "json_opt_str (Some s) = json_str s"

lemma json_body_Cons: "json_body (c # s) = json_escape c @ json_body s"
  by (simp add: json_body_def)

lemma json_body_append [simp]:
  "json_body [] = []" "json_body (s @ t) = json_body s @ json_body t"
  by (simp_all add: json_body_def)

lemma length_json_str: "length (json_str s) = length (json_body s) + 2"
  by (simp add: json_str_def)

lemma length_json_escape: "1 \<le> length (json_escape c) \<and> length (json_escape c) \<le> 6"
  by (simp add: json_escape_def Let_def)

lemma length_json_body_ge: "length s \<le> length (json_body s)"
proof (induction s)
  case (Cons c s)
  then show ?case using length_json_escape[of c] by (simp add: json_body_Cons)
qed simp

lemma length_json_body_take: "m \<le> n \<Longrightarrow> length (json_body (take m s)) \<le> length (json_body (take n s))"
proof -
  assume "m \<le> n"
  then have "take n s = take m s @ take (n - m) (drop m s)"
    by (metis le_add_diff_inverse take_add)
  then show ?thesis by simp
qed

text \<open>What an array costs: every element with the comma after it, and the brackets.\<close>

lemma length_json_commas: "length (json_commas xs) \<le> sum_list (map (\<lambda>x. length x + 1) xs)"
  by (induction xs rule: json_commas.induct) auto

lemma length_json_commas_eq:
  "xs \<noteq> [] \<Longrightarrow> length (json_commas xs) + 1 = sum_list (map (\<lambda>x. length x + 1) xs)"
  by (induction xs rule: json_commas.induct) auto

lemma length_json_object:
  "fields \<noteq> [] \<Longrightarrow> length (json_object fields) = sum_list (map (\<lambda>x. length x + 1) fields) + 1"
  using length_json_commas_eq[of fields] by (simp add: json_object_def)

section \<open>Cutting to a budget\<close>

text \<open>\<^verbatim>\<open>while n > low && !is_char_boundary(n) { n -= 1; }\<close>\<close>

fun walk_back :: "(nat \<Rightarrow> bool) \<Rightarrow> nat \<Rightarrow> nat \<Rightarrow> nat" where
  "walk_back boundary low 0 = 0"
| "walk_back boundary low (Suc n) =
     (if low < Suc n \<and> \<not> boundary (Suc n) then walk_back boundary low n else Suc n)"

lemma walk_back_bounds: "low \<le> n \<Longrightarrow> low \<le> walk_back boundary low n \<and> walk_back boundary low n \<le> n"
  by (induction n) auto

lemma walk_back_boundary: "low < walk_back boundary low n \<Longrightarrow> boundary (walk_back boundary low n)"
  by (induction n) (auto split: if_splits)

lemma walk_back_skips: "walk_back boundary low n < k \<Longrightarrow> k \<le> n \<Longrightarrow> \<not> boundary k"
  by (induction n) (auto simp: le_Suc_eq split: if_splits)

definition cut_mid :: "(nat \<Rightarrow> bool) \<Rightarrow> nat \<Rightarrow> nat \<Rightarrow> nat" where
  "cut_mid boundary low high = walk_back boundary low (low + (high - low + 1) div 2)"

lemma cut_mid_bounds:
  assumes "low < high"
  shows "low \<le> cut_mid boundary low high" "cut_mid boundary low high \<le> high"
  using assms walk_back_bounds[of low "low + (high - low + 1) div 2" boundary]
  unfolding cut_mid_def by linarith+

lemma cut_back_bounds:
  assumes "low < mid"
  shows "low \<le> walk_back boundary low (mid - 1)" "walk_back boundary low (mid - 1) < mid"
  using assms walk_back_bounds[of low "mid - 1" boundary] by linarith+

lemma cut_mid_cases:
  assumes "low < high"
  obtains (stop) "cut_mid boundary low high = low"
  | (go) "low < cut_mid boundary low high" "cut_mid boundary low high \<le> high"
  using cut_mid_bounds[OF assms, of boundary] by (cases "cut_mid boundary low high = low") auto

function cut_search :: "(nat \<Rightarrow> bool) \<Rightarrow> (nat \<Rightarrow> bool) \<Rightarrow> nat \<Rightarrow> nat \<Rightarrow> nat" where
  "cut_search boundary fits low high =
     (if low < high then
        let mid = cut_mid boundary low high
        in if mid = low then low
           else if fits mid then cut_search boundary fits mid high
           else cut_search boundary fits low (walk_back boundary low (mid - 1))
      else low)"
  by pat_completeness auto
termination
proof (relation "measure (\<lambda>(boundary, fits, low, high). high - low)", goal_cases)
  case (2 boundary fits low high mid)
  then show ?case using cut_mid_bounds[of low high boundary] by auto
next
  case (3 boundary fits low high mid)
  then have "low < mid" "mid \<le> high" using cut_mid_bounds[of low high boundary] by auto
  then show ?case using cut_back_bounds[of low mid boundary] by auto
qed simp

declare cut_search.simps [simp del]

lemma cut_search_step:
  "low < high \<Longrightarrow> cut_search boundary fits low high =
     (if cut_mid boundary low high = low then low
      else if fits (cut_mid boundary low high) then cut_search boundary fits (cut_mid boundary low high) high
      else cut_search boundary fits low (walk_back boundary low (cut_mid boundary low high - 1)))"
  "\<not> low < high \<Longrightarrow> cut_search boundary fits low high = low"
  by (simp_all add: cut_search.simps[of boundary fits low high] Let_def)

lemma cut_search_bounds:
  "low \<le> cut_search boundary fits low high \<and> cut_search boundary fits low high \<le> max low high"
proof (induction boundary fits low high rule: cut_search.induct)
  case (1 boundary fits low high)
  show ?case
  proof (cases "low < high")
    case True
    from True show ?thesis
    proof (cases rule: cut_mid_cases[of low high boundary, consumes 1])
      case go
      then show ?thesis
        using 1 True cut_back_bounds[of low "cut_mid boundary low high" boundary]
        by (fastforce simp: cut_search_step)
    qed (use True in \<open>simp add: cut_search_step\<close>)
  qed (simp add: cut_search_step)
qed

lemma cut_search_boundary: "boundary low \<Longrightarrow> boundary (cut_search boundary fits low high)"
proof (induction boundary fits low high rule: cut_search.induct)
  case (1 boundary fits low high)
  show ?case
  proof (cases "low < high")
    case True
    then show ?thesis
      using 1 cut_mid_bounds(1)[OF True, of boundary]
        walk_back_boundary[of low boundary "low + (high - low + 1) div 2", folded cut_mid_def]
      by (auto simp: cut_search_step)
  qed (simp add: cut_search_step 1)
qed

lemma cut_search_fits: "cut_search boundary fits low high = low \<or> fits (cut_search boundary fits low high)"
proof (induction boundary fits low high rule: cut_search.induct)
  case (1 boundary fits low high)
  then show ?case
    by (cases "low < high") (auto simp: cut_search_step)
qed

text \<open>
  How close the cut comes to the best one. A run of \<open>gap\<close> positions without a boundary can end
  the search early, and no fitting boundary lies more than twice the run beyond the result.
\<close>

locale byte_cut =
  fixes boundary fits :: "nat \<Rightarrow> bool" and gap limit :: nat
  assumes fits_shorter: "fits n \<Longrightarrow> m \<le> n \<Longrightarrow> fits m"
    and runs: "a < b \<Longrightarrow> b \<le> limit \<Longrightarrow> (\<And>i. a < i \<Longrightarrow> i \<le> b \<Longrightarrow> \<not> boundary i) \<Longrightarrow> b \<le> a + gap"
begin

lemma search_step_high:
  assumes "boundary n" "fits n" "n \<le> high" "\<not> fits mid"
  shows "n \<le> walk_back boundary low (mid - 1)"
proof -
  have "n \<le> mid - 1" using fits_shorter[OF assms(2), of mid] assms(4) by (cases "n < mid") auto
  then show ?thesis using walk_back_skips[of boundary low "mid - 1" n] assms(1) by linarith
qed

lemma near_best:
  "boundary n \<Longrightarrow> fits n \<Longrightarrow> n \<le> high \<Longrightarrow> high \<le> limit \<Longrightarrow> n \<le> cut_search boundary fits low high + 2 * gap"
proof (induction "high - low" arbitrary: low high rule: less_induct)
  case less
  show ?case
  proof (cases "low < high")
    case True
    let ?mid = "cut_mid boundary low high"
    from True show ?thesis
    proof (cases rule: cut_mid_cases[of low high boundary, consumes 1])
      case stop
      then have "low + (high - low + 1) div 2 \<le> low + gap"
        using walk_back_skips[of boundary low "low + (high - low + 1) div 2"] True less.prems
        by (intro runs) (auto simp: cut_mid_def)
      then have "n \<le> low + 2 * gap" using less.prems True by linarith
      then show ?thesis using True stop by (simp add: cut_search_step)
    next
      case go
      show ?thesis
      proof (cases "fits ?mid")
        case True
        then show ?thesis using \<open>low < high\<close> go less.prems less.hyps[of high ?mid]
          by (simp add: cut_search_step)
      next
        case False
        let ?high = "walk_back boundary low (?mid - 1)"
        have "n \<le> ?high" using search_step_high[OF less.prems(1,2,3) False] .
        moreover have "?high \<le> limit" "?high - low < high - low"
          using cut_back_bounds[OF go(1), of boundary] go less.prems(4) by linarith+
        ultimately show ?thesis using \<open>low < high\<close> go False less.prems less.hyps[of ?high low]
          by (simp add: cut_search_step)
      qed
    qed
  next
    case False
    then show ?thesis using less.prems by (simp add: cut_search_step)
  qed
qed

end

text \<open>Well-formed UTF-8 has a character boundary in every four consecutive positions.\<close>

lemma utf8_valid_head: "utf8_valid s \<Longrightarrow> s \<noteq> [] \<Longrightarrow> \<not> is_cont_byte (hd s)"
  by (cases s) (auto simp: utf8_valid.simps[of "_ # _"] is_cont_byte_def byte_in_def split: if_splits option.splits)

lemma is_char_boundary_undrop:
  "n \<le> length s \<Longrightarrow> 0 < j \<Longrightarrow> is_char_boundary (drop n s) j \<Longrightarrow> is_char_boundary s (n + j)"
  by (auto simp: is_char_boundary_def)

lemma utf8_first_le_4: "utf8_first s = Some n \<Longrightarrow> n \<le> 4"
  by (cases s) (auto split: if_splits list.splits)

lemma utf8_boundary_near:
  "utf8_valid s \<Longrightarrow> i + 4 \<le> length s \<Longrightarrow> \<exists>j. i < j \<and> j \<le> i + 4 \<and> is_char_boundary s j"
proof (induction s arbitrary: i rule: utf8_valid.induct)
  case (1 s)
  then have "s \<noteq> []" by auto
  then obtain n where n: "utf8_first s = Some n" and v: "utf8_valid (drop n s)"
    using "1.prems"(1) utf8_valid.simps[of s] by (auto split: option.splits)
  have le: "0 < n" "n \<le> length s" "n \<le> 4" using utf8_first_bounds[OF n] utf8_first_le_4[OF n] by auto
  show ?case
  proof (cases "i < n")
    case True
    have "is_char_boundary s n"
      using utf8_valid_head[OF v] le by (cases "n = length s") (auto simp: is_char_boundary_def hd_drop_conv_nth)
    then show ?thesis using True le by (intro exI[of _ n]) simp
  next
    case False
    then obtain j where "i - n < j" "j \<le> i - n + 4" "is_char_boundary (drop n s) j"
      using "1.IH"[of n "i - n"] \<open>s \<noteq> []\<close> n v "1.prems"(2) le(2) by (auto simp: le_diff_conv2)
    then show ?thesis
      using False is_char_boundary_undrop[of n s j] le by (intro exI[of _ "n + j"]) auto
  qed
qed

lemma utf8_runs:
  assumes "utf8_valid s" "a < b" "b \<le> length s" "\<And>i. a < i \<Longrightarrow> i \<le> b \<Longrightarrow> \<not> is_char_boundary s i"
  shows "b \<le> a + 3"
  using utf8_boundary_near[OF assms(1), of a] assms(2-4) by fastforce

lemma ascii_boundary: "is_ascii s \<Longrightarrow> n \<le> length s \<Longrightarrow> is_char_boundary s n"
  by (auto simp: is_char_boundary_def is_ascii_def is_cont_byte_def list_all_length order_le_less)

end
