(* ===== verification/Response_Bounds.thy ===== *)
theory Response_Bounds
  imports Json_Bytes
begin

text \<open>
  Answers that fit a transport frame (\<^verbatim>\<open>crates/application/src/lib.rs\<close>): titles, message
  windows and conversation lists cut to a budget of serialized bytes.

  The views have the fields of \<^verbatim>\<open>crates/api-model/src/lib.rs\<close>, written in the order and with the
  \<^verbatim>\<open>skip_serializing_if\<close> rules of the source. A \<^verbatim>\<open>usize\<close> is a \<open>nat\<close>; its saturating additions
  never saturate here, because every length is that of a value in memory.
\<close>

section \<open>Views\<close>

definition MAX_RESPONSE_BYTES :: nat where
  "MAX_RESPONSE_BYTES = 3 * 1024 * 1024"

definition MAX_TITLE_BYTES :: nat where
  "MAX_TITLE_BYTES = 4096"

record message_view =
  mv_id :: string
  mv_role :: string
  mv_content :: string
  mv_idempotency_key :: "string option"
  mv_content_total_bytes :: "nat option"

definition json_message_view :: "message_view \<Rightarrow> string" where
  "json_message_view m = json_object
     ([json_field ''id'' (json_str (mv_id m)),
       json_field ''role'' (json_str (mv_role m)),
       json_field ''content'' (json_str (mv_content m)),
       json_field ''idempotency_key'' (json_opt_str (mv_idempotency_key m))] @
      (case mv_content_total_bytes m of None \<Rightarrow> []
       | Some n \<Rightarrow> [json_field ''content_total_bytes'' (show_nat n)]))"

record messages_view =
  mw_total_raw_count :: nat
  mw_truncated :: bool
  mw_messages :: "message_view list"
  mw_size_capped :: bool
  mw_next_after_count :: nat

definition json_messages_view :: "messages_view \<Rightarrow> string" where
  "json_messages_view v = json_object
     ([json_field ''total_raw_count'' (show_nat (mw_total_raw_count v)),
       json_field ''truncated'' (json_bool (mw_truncated v)),
       json_field ''messages'' (json_array (map json_message_view (mw_messages v)))] @
      (if mw_size_capped v then [json_field ''size_capped'' (json_bool True)] else []) @
      [json_field ''next_after_count'' (show_nat (mw_next_after_count v))])"

record conversation_summary =
  cs_id :: string
  cs_title :: string
  cs_message_count :: nat
  cs_updated_at :: string
  cs_archived :: bool
  cs_tags :: "string list"
  cs_title_total_bytes :: "nat option"
  cs_omitted_trailing :: nat
  cs_omitted_tags :: nat

definition json_conversation_summary :: "conversation_summary \<Rightarrow> string" where
  "json_conversation_summary s = json_object
     ([json_field ''id'' (json_str (cs_id s)),
       json_field ''title'' (json_str (cs_title s)),
       json_field ''message_count'' (show_nat (cs_message_count s)),
       json_field ''updated_at'' (json_str (cs_updated_at s)),
       json_field ''archived'' (json_bool (cs_archived s))] @
      (if cs_tags s = [] then [] else [json_field ''tags'' (json_array (map json_str (cs_tags s)))]) @
      (case cs_title_total_bytes s of None \<Rightarrow> []
       | Some n \<Rightarrow> [json_field ''title_total_bytes'' (show_nat n)]) @
      (if cs_omitted_trailing s = 0 then []
       else [json_field ''omitted_trailing_conversations'' (show_nat (cs_omitted_trailing s))]) @
      (if cs_omitted_tags s = 0 then []
       else [json_field ''omitted_tags'' (show_nat (cs_omitted_tags s))]))"

definition json_conversations :: "conversation_summary list \<Rightarrow> string" where
  "json_conversations ss =
     json_object [json_field ''conversations'' (json_array (map json_conversation_summary ss))]"

section \<open>Heading a text\<close>

definition over_budget_message_notice :: "nat \<Rightarrow> string" where
  "over_budget_message_notice total_bytes =
     ''<message too large to send whole: it is '' @ show_nat total_bytes @
     '' bytes, which is more than one response can carry. What follows is the beginning of it. Nothing was deleted - the whole message is still stored.>'' @
     [CHR 0x0A, CHR 0x0A]"

definition over_budget_title_notice :: "nat \<Rightarrow> string" where
  "over_budget_title_notice total_bytes =
     '' <title cut here: it is '' @ show_nat total_bytes @
     '' bytes, which is more than a response carries. Nothing was deleted - the whole title is still stored.>''"

definition head_string_to_bytes :: "string \<Rightarrow> nat \<Rightarrow> string" where
  "head_string_to_bytes s budget =
     (if length (json_str s) \<le> budget then s
      else take (cut_search (is_char_boundary s) (\<lambda>mid. length (json_str (take mid s)) \<le> budget)
                   0 (min (length s) budget)) s)"

record bounded_title =
  bt_text :: string
  bt_total_bytes :: "nat option"

definition bound_title :: "string \<Rightarrow> bounded_title" where
  "bound_title title =
     (if length (json_str title) \<le> MAX_TITLE_BYTES then \<lparr>bt_text = title, bt_total_bytes = None\<rparr>
      else let notice = over_budget_title_notice (length title);
               room = MAX_TITLE_BYTES - length (json_str notice)
           in \<lparr>bt_text = head_string_to_bytes title room @ notice, bt_total_bytes = Some (length title)\<rparr>)"

definition head_candidate :: "message_view \<Rightarrow> nat \<Rightarrow> message_view" where
  "head_candidate message k =
     message\<lparr>mv_content := over_budget_message_notice (length (mv_content message)) @ take k (mv_content message),
             mv_content_total_bytes := Some (length (mv_content message))\<rparr>"

definition head_message_to_bytes :: "message_view \<Rightarrow> nat \<Rightarrow> message_view" where
  "head_message_to_bytes message budget =
     head_candidate message
       (cut_search (is_char_boundary (mv_content message))
          (\<lambda>mid. length (json_message_view (head_candidate message mid)) \<le> budget)
          0 (min (length (mv_content message)) budget))"

section \<open>Message windows\<close>

definition as_u32 :: "nat \<Rightarrow> nat" where
  "as_u32 n = n mod 2 ^ 32"

datatype keep_end = Newest | Oldest

text \<open>
  The counting loop: the messages in the order they are charged, until one no longer fits.
\<close>

fun count_fits :: "message_view list \<Rightarrow> nat \<Rightarrow> nat \<Rightarrow> nat" where
  "count_fits [] used budget = 0"
| "count_fits (m # ms) used budget =
     (let cost = length (json_message_view m) + 1
      in if budget < used + cost then 0 else Suc (count_fits ms (used + cost) budget))"

definition bound_messages_to_bytes ::
  "message_view list \<Rightarrow> nat \<Rightarrow> keep_end \<Rightarrow> message_view list \<times> nat" where
  "bound_messages_to_bytes messages budget keep =
     (let total = length messages;
          fits = count_fits (case keep of Newest \<Rightarrow> rev messages | Oldest \<Rightarrow> messages) 0 budget
      in if fits = 0 then
           (if messages = [] then ([], 0)
            else let boundary = (case keep of Newest \<Rightarrow> last messages | Oldest \<Rightarrow> hd messages)
                 in ([head_message_to_bytes boundary (budget - 1)], as_u32 (total - 1)))
         else (case keep of Newest \<Rightarrow> drop (total - fits) messages | Oldest \<Rightarrow> take fits messages,
               as_u32 (total - fits)))"

definition messages_envelope_reservation :: nat where
  "messages_envelope_reservation =
     foldl max 0
       [length (json_messages_view \<lparr>mw_total_raw_count = u32_max, mw_truncated = truncated,
                  mw_messages = [], mw_size_capped = size_capped, mw_next_after_count = u32_max\<rparr>).
          truncated \<leftarrow> [False, True], size_capped \<leftarrow> [False, True]]"

text \<open>
  \<open>after_count\<close> and \<open>tail\<close> are \<^verbatim>\<open>i32\<close> values; the role filter and the raw indexes are kept beside
  the messages as in the source.
\<close>

definition window_rows ::
  "message_view list \<Rightarrow> int \<Rightarrow> int \<Rightarrow> string list \<Rightarrow> bool \<times> (nat \<times> message_view) list" where
  "window_rows all tail after_count include_roles =
     (let start = (if 0 \<le> after_count then min (nat after_count) (length all) else 0);
          indexed = filter (\<lambda>(_, m). include_roles = [] \<or> mv_role m \<in> set include_roles)
                      (drop start (enumerate 0 all))
      in if \<not> 0 \<le> after_count \<and> 0 < tail \<and> nat tail < length indexed
         then (True, drop (length indexed - nat tail) indexed) else (False, indexed))"

definition window_messages ::
  "message_view list \<Rightarrow> int \<Rightarrow> int \<Rightarrow> string list \<Rightarrow> nat \<Rightarrow> messages_view" where
  "window_messages all tail after_count include_roles budget =
     (let total = as_u32 (length all);
          use_after = 0 \<le> after_count;
          (truncated, indexed) = window_rows all tail after_count include_roles;
          raw_indexes = map fst indexed;
          keep = (if use_after then Oldest else Newest);
          (messages, dropped) =
            bound_messages_to_bytes (map snd indexed) (budget - messages_envelope_reservation) keep;
          last_raw = (case keep of
              Newest \<Rightarrow> (if raw_indexes = [] then None else Some (last raw_indexes))
            | Oldest \<Rightarrow> (if messages = [] then None
                         else if length messages - 1 < length raw_indexes
                              then Some (raw_indexes ! (length messages - 1)) else None))
      in \<lparr>mw_total_raw_count = total, mw_truncated = truncated \<or> (0 < dropped \<and> \<not> use_after),
          mw_messages = messages, mw_size_capped = (0 < dropped),
          mw_next_after_count = (case last_raw of None \<Rightarrow> total | Some i \<Rightarrow> as_u32 i + 1)\<rparr>)"

section \<open>Conversation lists\<close>

definition conversations_envelope_reservation :: nat where
  "conversations_envelope_reservation = length (json_conversations [])"

definition summary_charge :: "conversation_summary \<Rightarrow> nat" where
  "summary_charge summary =
     length (json_conversation_summary (summary\<lparr>cs_omitted_trailing := u32_max, cs_omitted_tags := u32_max\<rparr>)) + 1"

text \<open>The tag search has no boundaries to respect: every cut is one.\<close>

definition fit_summary :: "conversation_summary \<Rightarrow> nat \<Rightarrow> conversation_summary option" where
  "fit_summary summary room =
     (if summary_charge summary \<le> room then Some summary
      else let tags = cs_tags summary
           in if room < summary_charge (summary\<lparr>cs_tags := []\<rparr>) then None
              else let low = cut_search (\<lambda>_. True)
                               (\<lambda>mid. summary_charge (summary\<lparr>cs_tags := take mid tags\<rparr>) \<le> room) 0 (length tags)
                   in Some (summary\<lparr>cs_tags := take low tags, cs_omitted_tags := as_u32 (length tags - low)\<rparr>))"

fun bound_summaries_loop ::
  "conversation_summary list \<Rightarrow> nat \<Rightarrow> nat \<Rightarrow> conversation_summary list \<times> nat" where
  "bound_summaries_loop [] used budget = ([], 0)"
| "bound_summaries_loop (s # ss) used budget =
     (case fit_summary s (budget - used) of
        None \<Rightarrow> ([], as_u32 (length (s # ss)))
      | Some row \<Rightarrow>
          (case bound_summaries_loop ss (used + summary_charge row) budget of
             (kept, dropped) \<Rightarrow> (row # kept, dropped)))"

definition bound_summaries_to_bytes ::
  "conversation_summary list \<Rightarrow> nat \<Rightarrow> conversation_summary list \<times> nat" where
  "bound_summaries_to_bytes summaries budget = bound_summaries_loop summaries 0 budget"

text \<open>The \<^verbatim>\<open>ListConversations\<close> arm, from the stored summaries.\<close>

record stored_summary =
  ss_id :: string
  ss_title :: string
  ss_message_count :: nat
  ss_updated_at :: string
  ss_archived :: bool
  ss_tags :: "string list"

definition summary_row :: "stored_summary \<Rightarrow> conversation_summary" where
  "summary_row s =
     (let title = bound_title (ss_title s)
      in \<lparr>cs_id = ss_id s, cs_title = bt_text title, cs_message_count = as_u32 (ss_message_count s),
          cs_updated_at = ss_updated_at s, cs_archived = ss_archived s, cs_tags = ss_tags s,
          cs_title_total_bytes = bt_total_bytes title, cs_omitted_trailing = 0, cs_omitted_tags = 0\<rparr>)"

definition list_conversations :: "stored_summary list \<Rightarrow> conversation_summary list" where
  "list_conversations stored =
     (case bound_summaries_to_bytes (map summary_row stored)
             (MAX_RESPONSE_BYTES - conversations_envelope_reservation) of
        (summaries, dropped) \<Rightarrow> map (\<lambda>s. s\<lparr>cs_omitted_trailing := dropped\<rparr>) summaries)"

section \<open>Heading\<close>

lemma json_str_take_mono: "m \<le> n \<Longrightarrow> length (json_str (take m s)) \<le> length (json_str (take n s))"
  using length_json_body_take by (simp add: length_json_str)

interpretation text_cut: byte_cut "is_char_boundary s" "\<lambda>n. length (json_str (take n s)) \<le> budget"
  "if is_ascii s then 0 else if utf8_valid s then 3 else length s" "length s" for s budget
proof
  fix a b
  assume run: "a < b" "b \<le> length s" "\<And>i. a < i \<Longrightarrow> i \<le> b \<Longrightarrow> \<not> is_char_boundary s i"
  then show "b \<le> a + (if is_ascii s then 0 else if utf8_valid s then 3 else length s)"
    using ascii_boundary[of s b] utf8_runs[of s a b] by auto
qed (meson json_str_take_mono order_trans)

lemma head_string_cases:
  obtains k where "head_string_to_bytes s budget = take k s" "is_char_boundary s k" "k \<le> length s"
    "k = 0 \<or> length (json_str (take k s)) \<le> budget"
    "\<And>n. is_char_boundary s n \<Longrightarrow> length (json_str (take n s)) \<le> budget \<Longrightarrow>
       n \<le> k + 2 * (if is_ascii s then 0 else if utf8_valid s then 3 else length s)"
proof (cases "length (json_str s) \<le> budget")
  case True
  then show thesis
    by (intro that[of "length s"]) (auto simp: head_string_to_bytes_def dest: is_char_boundary_le)
next
  case False
  let ?fits = "\<lambda>n. length (json_str (take n s)) \<le> budget"
  let ?k = "cut_search (is_char_boundary s) ?fits 0 (min (length s) budget)"
  have near: "n \<le> ?k + 2 * (if is_ascii s then 0 else if utf8_valid s then 3 else length s)"
    if "is_char_boundary s n" "?fits n" for n
  proof -
    have "n \<le> length s" using is_char_boundary_le[OF that(1)] .
    moreover have "n \<le> budget"
      using that(2) length_json_body_ge[of "take n s"] \<open>n \<le> length s\<close> by (simp add: length_json_str)
    ultimately show ?thesis using text_cut.near_best[OF that] by simp
  qed
  have "head_string_to_bytes s budget = take ?k s" using False by (simp add: head_string_to_bytes_def)
  then show thesis
    using near cut_search_boundary[of "is_char_boundary s" 0 ?fits] cut_search_bounds[of 0 _ ?fits]
      cut_search_fits[of "is_char_boundary s" ?fits 0]
    by (intro that[of ?k]) (auto dest: is_char_boundary_le)
qed

lemma head_string_fits: "2 \<le> budget \<Longrightarrow> length (json_str (head_string_to_bytes s budget)) \<le> budget"
  by (rule head_string_cases[of s budget]) (auto simp: json_str_def)

lemma head_string_valid: "utf8_valid s \<Longrightarrow> utf8_valid (head_string_to_bytes s budget)"
  by (rule head_string_cases[of s budget]) (auto intro: utf8_valid_take)

text \<open>
  a headed text is a prefix that ends on a character boundary and fits the budget, and it is
  the longest such prefix up to the last six bytes: the search can stop short inside a
  multi-byte character, and never does on ASCII text, where the cut is the best one.
\<close>

theorem head_string_near_longest:
  assumes "utf8_valid s" "2 \<le> budget"
  shows "prefix (head_string_to_bytes s budget) s
     \<and> utf8_valid (head_string_to_bytes s budget)
     \<and> length (json_str (head_string_to_bytes s budget)) \<le> budget
     \<and> (\<forall>n. is_char_boundary s n \<and> length (json_str (take n s)) \<le> budget \<longrightarrow>
          n \<le> length (head_string_to_bytes s budget) + (if is_ascii s then 0 else 6))"
  using assms head_string_fits[OF assms(2), of s] head_string_valid[OF assms(1), of budget]
  by (cases rule: head_string_cases[of s budget]) (auto simp: take_is_prefix split: if_splits)

text \<open>The shortfall is real: two of these three characters fit the budget, and one is kept.\<close>

definition three_emoji :: string where
  "three_emoji = concat (replicate 3 [CHR 0xF0, CHR 0x9F, CHR 0x98, CHR 0x80])"

lemma three_emoji_valid: "utf8_valid three_emoji"
  by code_simp

theorem head_string_near_longest_witness:
  "utf8_valid three_emoji \<and> prefix (head_string_to_bytes three_emoji 10) three_emoji
   \<and> length (json_str (head_string_to_bytes three_emoji 10)) \<le> 10"
  using head_string_near_longest[OF three_emoji_valid, of 10] three_emoji_valid by simp

text \<open>
  The documented promise of \<^verbatim>\<open>head_string_to_bytes\<close>, the longest fitting prefix, does not hold
  for multi-byte text: of three four-byte characters and a budget that holds two, one is kept.
\<close>

lemma head_string_not_longest:
  "head_string_to_bytes three_emoji 10 = take 4 three_emoji
   \<and> is_char_boundary three_emoji 8 \<and> length (json_str (take 8 three_emoji)) \<le> 10"
  by code_simp

section \<open>Titles\<close>

lemma show_nat_u64: "n < 2 ^ 64 \<Longrightarrow> length (show_nat n) \<le> 20"
proof -
  assume "n < 2 ^ 64"
  then have "length (show_nat n) \<le> length (show_nat 18446744073709551615)"
    by (intro length_show_nat_mono) simp
  also have "\<dots> = 20" by (simp add: show_nat_step show_nat_small)
  finally show ?thesis .
qed

lemma json_body_plain: "(\<And>c. c \<in> set s \<Longrightarrow> json_escape c = [c]) \<Longrightarrow> json_body s = s"
  by (induction s) (simp_all add: json_body_Cons)

lemma json_body_show_nat [simp]: "json_body (show_nat n) = show_nat n"
  by (rule json_body_plain) (fastforce simp: json_escape_def Let_def dest: show_nat_digits)

lemma title_notice_length:
  assumes "n < 2 ^ 64"
  shows "length (json_str (over_budget_title_notice n)) \<le> 150"
proof -
  have "length (json_body '' <title cut here: it is '') = 24" by code_simp
  moreover have "length (json_body '' bytes, which is more than a response carries. Nothing was deleted - the whole title is still stored.>'') = 102"
    by code_simp
  ultimately have "length (json_str (over_budget_title_notice n)) = length (show_nat n) + 128"
    unfolding over_budget_title_notice_def length_json_str json_body_append length_append json_body_show_nat
    by linarith
  then show ?thesis using show_nat_u64[OF assms] by simp
qed

lemma title_notice_valid: "utf8_valid (over_budget_title_notice n)"
proof -
  have "utf8_valid '' <title cut here: it is ''"
    "utf8_valid '' bytes, which is more than a response carries. Nothing was deleted - the whole title is still stored.>''"
    by (rule utf8_valid_ascii, code_simp)+
  then show ?thesis
    unfolding over_budget_title_notice_def by (intro utf8_valid_append utf8_valid_ascii[OF show_nat_ascii])
qed

text \<open>
  a served title is well-formed text of at most \<open>MAX_TITLE_BYTES\<close> serialized bytes, whatever is
  stored. It is marked with the stored size exactly when it is not the stored title, and what
  it then shows is a prefix of the stored title followed by the notice.
\<close>

theorem bound_title_fits:
  assumes "utf8_valid title" "length title < 2 ^ 64"
  shows "length (json_str (bt_text (bound_title title))) \<le> MAX_TITLE_BYTES
     \<and> utf8_valid (bt_text (bound_title title))
     \<and> (bt_total_bytes (bound_title title) = None \<longrightarrow> bt_text (bound_title title) = title)
     \<and> (\<forall>n. bt_total_bytes (bound_title title) = Some n \<longrightarrow>
          n = length title \<and> MAX_TITLE_BYTES < length (json_str title) \<and>
          (\<exists>head. prefix head title \<and> bt_text (bound_title title) = head @ over_budget_title_notice n))"
proof (cases "length (json_str title) \<le> MAX_TITLE_BYTES")
  case True
  then show ?thesis using assms(1) by (simp add: bound_title_def)
next
  case False
  let ?notice = "over_budget_title_notice (length title)"
  let ?head = "head_string_to_bytes title (MAX_TITLE_BYTES - length (json_str ?notice))"
  have cut_title: "bound_title title = \<lparr>bt_text = ?head @ ?notice, bt_total_bytes = Some (length title)\<rparr>"
    using False by (simp add: bound_title_def Let_def)
  have notice: "length (json_str ?notice) \<le> 150" using title_notice_length[OF assms(2)] .
  then have "length (json_str ?head) + length (json_str ?notice) \<le> MAX_TITLE_BYTES"
    using head_string_fits[of "MAX_TITLE_BYTES - length (json_str ?notice)" title]
    unfolding MAX_TITLE_BYTES_def by linarith
  moreover have "length (json_str (?head @ ?notice)) \<le> length (json_str ?head) + length (json_str ?notice)"
    by (simp add: length_json_str)
  moreover have "utf8_valid (?head @ ?notice)"
    by (intro utf8_valid_append head_string_valid assms title_notice_valid)
  moreover have "prefix ?head title"
    by (rule head_string_cases[of title "MAX_TITLE_BYTES - length (json_str ?notice)"]) (simp add: take_is_prefix)
  ultimately show ?thesis using False by (auto simp: cut_title)
qed

theorem bound_title_fits_witness:
  "length (json_str (bt_text (bound_title (replicate 5000 CHR ''a'')))) \<le> MAX_TITLE_BYTES
   \<and> bt_total_bytes (bound_title (replicate 5000 CHR ''a'')) = Some 5000"
proof -
  have esc: "json_escape CHR ''a'' = ''a''" "byte_of CHR ''a'' < 128" by code_simp+
  then have "utf8_valid (replicate 5000 CHR ''a'')"
    by (intro utf8_valid_ascii) (simp add: is_ascii_def list_all_length)
  moreover have "json_body (replicate 5000 CHR ''a'') = replicate 5000 CHR ''a''"
    by (rule json_body_plain) (simp add: esc)
  ultimately show ?thesis
    using bound_title_fits[of "replicate 5000 CHR ''a''"]
    by (simp add: bound_title_def length_json_str MAX_TITLE_BYTES_def Let_def)
qed

section \<open>Message windows fit\<close>

text \<open>What a headed message costs beside the text it keeps: the fields around it and the notice.\<close>

definition head_overhead :: "message_view \<Rightarrow> nat" where
  "head_overhead m = length (json_message_view (head_candidate m 0))"

lemma length_head_candidate:
  "length (json_message_view (head_candidate m k)) =
     head_overhead m + length (json_body (take k (mv_content m)))"
  by (simp add: head_overhead_def json_message_view_def head_candidate_def length_json_object json_field_def length_json_str)

lemma head_message_fits:
  "head_overhead m \<le> budget \<Longrightarrow> length (json_message_view (head_message_to_bytes m budget)) \<le> budget"
  using cut_search_fits[of "is_char_boundary (mv_content m)"
      "\<lambda>mid. length (json_message_view (head_candidate m mid)) \<le> budget" 0 "min (length (mv_content m)) budget"]
  by (auto simp: head_message_to_bytes_def head_overhead_def)

lemma head_message_cut:
  "\<exists>k. head_message_to_bytes m budget = head_candidate m k \<and> is_char_boundary (mv_content m) k"
  unfolding head_message_to_bytes_def
  by (rule exI, rule conjI, rule refl, rule cut_search_boundary, simp)

abbreviation charged :: "message_view list \<Rightarrow> nat" where
  "charged ms \<equiv> sum_list (map (\<lambda>m. length (json_message_view m) + 1) ms)"

lemma count_fits_charged: "used \<le> budget \<Longrightarrow> used + charged (take (count_fits ms used budget) ms) \<le> budget"
  by (induction ms used budget rule: count_fits.induct) (auto simp: Let_def)

lemma count_fits_le: "count_fits ms used budget \<le> length ms"
  by (induction ms used budget rule: count_fits.induct) (auto simp: Let_def)

lemma count_fits_maximal:
  "count_fits ms used budget < length ms \<Longrightarrow>
     budget < used + charged (take (Suc (count_fits ms used budget)) ms)"
  by (induction ms used budget rule: count_fits.induct) (auto simp: Let_def split: if_splits)

lemma sum_list_map_rev [simp]: "sum_list (map f (rev xs)) = sum_list (map f xs)" for f :: "'a \<Rightarrow> nat"
  by (simp add: rev_map[symmetric])

text \<open>Which messages are charged first, and what is kept of them.\<close>

fun charge_order :: "keep_end \<Rightarrow> 'a list \<Rightarrow> 'a list" where
  "charge_order Newest ms = rev ms"
| "charge_order Oldest ms = ms"

lemma bound_messages_cases:
  assumes "bound_messages_to_bytes ms budget keep = (kept, dropped)" "length ms < 2 ^ 32"
  obtains (empty) "ms = []" "kept = []" "dropped = 0"
  | (headed) m where "m = hd (charge_order keep ms)" "ms \<noteq> []" "budget < length (json_message_view m) + 1"
      "kept = [head_message_to_bytes m (budget - 1)]" "dropped = length ms - 1"
  | (whole) n where "0 < n" "n \<le> length ms" "kept = charge_order keep (take n (charge_order keep ms))"
      "dropped = length ms - n" "charged kept \<le> budget"
      "n < length ms \<Longrightarrow> budget < charged (take (Suc n) (charge_order keep ms))"
proof -
  let ?n = "count_fits (charge_order keep ms) 0 budget"
  have order: "(case keep of Newest \<Rightarrow> rev ms | Oldest \<Rightarrow> ms) = charge_order keep ms"
    by (cases keep) simp_all
  have bound: "(k :: nat) \<le> length ms \<Longrightarrow> as_u32 k = k" for k using assms(2) by (simp add: as_u32_def)
  consider "ms = []" | "ms \<noteq> []" "?n = 0" | "ms \<noteq> []" "0 < ?n" by blast
  then show thesis
  proof cases
    case 1
    then show thesis using assms(1) empty by (auto simp: bound_messages_to_bytes_def split: keep_end.splits)
  next
    case 2
    have "hd (charge_order keep ms) = (case keep of Newest \<Rightarrow> last ms | Oldest \<Rightarrow> hd ms)"
      using 2(1) by (cases keep) (simp_all add: hd_rev)
    moreover have "budget < length (json_message_view (hd (charge_order keep ms))) + 1"
      using 2 count_fits_maximal[of "charge_order keep ms" 0 budget]
      by (cases "charge_order keep ms"; cases keep) auto
    ultimately show thesis
      using 2 assms(1) bound by (intro headed[of "hd (charge_order keep ms)"])
        (auto simp: bound_messages_to_bytes_def order Let_def)
  next
    case 3
    have len: "length (charge_order keep ms) = length ms" by (cases keep) simp_all
    have n: "?n \<le> length ms" using count_fits_le[of "charge_order keep ms" 0 budget] len by simp
    have kept: "kept = charge_order keep (take ?n (charge_order keep ms))" "dropped = length ms - ?n"
      using 3 assms(1) n bound
      by (cases keep; auto simp: bound_messages_to_bytes_def Let_def take_rev rev_drop)+
    moreover have "charged kept \<le> budget"
      using count_fits_charged[of 0 budget "charge_order keep ms"] unfolding kept(1)
      by (cases keep) simp_all
    ultimately show thesis
      using 3 n count_fits_maximal[of "charge_order keep ms" 0 budget] len
      by (intro whole[of ?n]) auto
  qed
qed

text \<open>The envelope reserves what the other fields can take, and an array costs what is charged.\<close>

lemma length_json_messages:
  "length (json_array (map json_message_view ms)) \<le> 2 + charged ms"
  using length_json_commas[of "map json_message_view ms"] by (simp add: json_array_def comp_def)

lemma messages_envelope_le:
  assumes "n \<le> u32_max" "k \<le> u32_max"
  shows "length (json_messages_view \<lparr>mw_total_raw_count = n, mw_truncated = t, mw_messages = [],
             mw_size_capped = c, mw_next_after_count = k\<rparr>) \<le> messages_envelope_reservation"
proof -
  have "length (json_messages_view \<lparr>mw_total_raw_count = n, mw_truncated = t, mw_messages = [],
             mw_size_capped = c, mw_next_after_count = k\<rparr>)
      \<le> length (json_messages_view \<lparr>mw_total_raw_count = u32_max, mw_truncated = t, mw_messages = [],
             mw_size_capped = c, mw_next_after_count = u32_max\<rparr>)"
    using length_show_nat_mono[OF assms(1)] length_show_nat_mono[OF assms(2)]
    by (simp add: json_messages_view_def length_json_object json_field_def)
  also have "\<dots> \<le> messages_envelope_reservation"
    by (cases t; cases c) (simp_all add: messages_envelope_reservation_def)
  finally show ?thesis .
qed

lemma json_messages_view_le:
  assumes "mw_total_raw_count v \<le> u32_max" "mw_next_after_count v \<le> u32_max"
  shows "length (json_messages_view v) \<le> messages_envelope_reservation + charged (mw_messages v)"
proof -
  have "length (json_messages_view v) \<le> length (json_messages_view (v\<lparr>mw_messages := []\<rparr>)) + charged (mw_messages v)"
    using length_json_messages[of "mw_messages v"]
    by (simp add: json_messages_view_def length_json_object json_field_def json_array_def)
  also have "length (json_messages_view (v\<lparr>mw_messages := []\<rparr>)) \<le> messages_envelope_reservation"
    using messages_envelope_le[OF assms] by (cases v) simp
  finally show ?thesis by simp
qed

text \<open>The rows of a window: the matching messages from the cursor on, under their raw indexes.\<close>

definition matches :: "string list \<Rightarrow> message_view \<Rightarrow> bool" where
  "matches include_roles m \<longleftrightarrow> include_roles = [] \<or> mv_role m \<in> set include_roles"

definition rows_from :: "message_view list \<Rightarrow> string list \<Rightarrow> nat \<Rightarrow> (nat \<times> message_view) list" where
  "rows_from all roles c = filter (\<lambda>(i, m). c \<le> i \<and> matches roles m) (enumerate 0 all)"

lemma drop_enumerate: "drop c (enumerate n xs) = filter (\<lambda>(i, _). n + c \<le> i) (enumerate n xs)"
proof (induction xs arbitrary: n c)
  case (Cons x xs)
  have all: "filter (\<lambda>(i, _). n \<le> i) (enumerate (Suc n) xs) = enumerate (Suc n) xs"
    by (rule filter_True) (auto simp: in_set_enumerate_eq)
  show ?case
  proof (cases c)
    case 0
    then show ?thesis using all by simp
  next
    case (Suc c')
    then show ?thesis using Cons.IH[of c' "Suc n"] by simp
  qed
qed simp

lemma window_rows_cursor:
  "0 \<le> after_count \<Longrightarrow> window_rows all tail after_count roles = (False, rows_from all roles (nat after_count))"
  using drop_enumerate[of "min (nat after_count) (length all)" 0 all]
  by (auto simp: window_rows_def rows_from_def matches_def Let_def in_set_enumerate_eq intro!: filter_cong)

lemma window_rows_subset:
  "window_rows all tail after_count roles = (t, rows) \<Longrightarrow>
     set rows \<subseteq> set (enumerate 0 all) \<and> length rows \<le> length all"
  unfolding window_rows_def Let_def
  using length_filter_le[of "\<lambda>(_, m). roles = [] \<or> mv_role m \<in> set roles" "enumerate 0 all"]
  by (auto split: if_splits dest!: in_set_dropD intro: order_trans[OF length_filter_le])

lemma rows_from_sorted: "sorted_wrt (<) (map fst (rows_from all roles c))"
proof -
  have "sorted_wrt (<) (map fst (filter P (enumerate n xs)))" for P n and xs :: "message_view list"
    by (induction xs arbitrary: n) (auto simp: in_set_enumerate_eq)
  then show ?thesis by (simp add: rows_from_def)
qed

lemma rows_from_next:
  assumes "n < length (rows_from all roles c)"
  shows "rows_from all roles (Suc (fst (rows_from all roles c ! n))) = drop (Suc n) (rows_from all roles c)"
proof -
  let ?xs = "rows_from all roles c"
  have c: "c \<le> fst (?xs ! n)" using nth_mem[OF assms] by (auto simp: rows_from_def)
  have lt: "fst (?xs ! i) < fst (?xs ! j)" if "i < j" "j < length ?xs" for i j
    using sorted_wrt_nth_less[OF rows_from_sorted[of all roles c]] that by simp
  have "filter (\<lambda>p. fst (?xs ! n) < fst p) (take (Suc n) ?xs) = []"
    using lt[of _ n] assms by (fastforce simp: filter_empty_conv in_set_conv_nth less_Suc_eq)
  moreover have "filter (\<lambda>p. fst (?xs ! n) < fst p) (drop (Suc n) ?xs) = drop (Suc n) ?xs"
  proof (intro filter_True ballI)
    fix p assume "p \<in> set (drop (Suc n) ?xs)"
    then obtain i where "p = ?xs ! (Suc n + i)" "Suc n + i < length ?xs" by (auto simp: in_set_conv_nth)
    then show "fst (?xs ! n) < fst p" using lt[of n "Suc n + i"] by simp
  qed
  ultimately have "filter (\<lambda>p. fst (?xs ! n) < fst p) ?xs = drop (Suc n) ?xs"
    by (metis append_Nil append_take_drop_id filter_append)
  moreover have "rows_from all roles (Suc (fst (?xs ! n))) = filter (\<lambda>p. fst (?xs ! n) < fst p) ?xs"
    using c by (auto simp: rows_from_def intro!: filter_cong)
  ultimately show ?thesis by simp
qed

lemma as_u32_small: "n < 2 ^ 32 \<Longrightarrow> as_u32 n = n"
  by (simp add: as_u32_def)

lemma window_next_le:
  assumes "length all < 2 ^ 32"
  shows "mw_next_after_count (window_messages all tail after_count roles budget) \<le> length all"
proof -
  obtain t rows where rows: "window_rows all tail after_count roles = (t, rows)" by fastforce
  have lt: "fst p < length all" if "p \<in> set rows" for p
    using window_rows_subset[OF rows] that by (auto simp: in_set_enumerate_eq)
  then have "Suc (as_u32 (fst p)) \<le> length all" if "p \<in> set rows" for p
    using lt[OF that] assms by (simp add: as_u32_def Suc_le_eq)
  then show ?thesis
    using assms by (simp add: window_messages_def rows Let_def as_u32_small last_map split: prod.splits)
qed

lemma window_messages_kept:
  assumes "window_rows all tail after_count roles = (t, rows)"
  shows "\<exists>dropped. bound_messages_to_bytes (map snd rows) (budget - messages_envelope_reservation)
      (if 0 \<le> after_count then Oldest else Newest)
    = (mw_messages (window_messages all tail after_count roles budget), dropped)"
  by (simp add: window_messages_def assms Let_def split: prod.splits)

text \<open>A message that is too large even without its text is headed to the notice alone.\<close>

lemma head_message_bare: "budget < head_overhead m \<Longrightarrow> head_message_to_bytes m budget = head_candidate m 0"
  using cut_search_fits[of "is_char_boundary (mv_content m)"
      "\<lambda>mid. length (json_message_view (head_candidate m mid)) \<le> budget" 0 "min (length (mv_content m)) budget"]
  by (auto simp: head_message_to_bytes_def length_head_candidate)

lemma kept_fits_or_bare:
  assumes "bound_messages_to_bytes ms budget keep = (kept, dropped)" "length ms < 2 ^ 32"
  shows "charged kept \<le> budget \<or> (\<exists>m\<in>set ms. budget \<le> head_overhead m \<and> kept = [head_candidate m 0])"
  using assms
proof (cases rule: bound_messages_cases)
  case (headed m)
  have "m \<in> set ms" using headed(1,2) by (cases keep) (simp_all add: hd_rev)
  moreover have "0 < head_overhead m"
    by (simp add: head_overhead_def json_message_view_def length_json_object)
  ultimately show ?thesis
    using headed(4) head_message_fits[of m "budget - 1"] head_message_bare[of "budget - 1" m]
    by (cases "head_overhead m < budget") force+
qed simp_all

text \<open>
  C9: the answer to \<^verbatim>\<open>GetMessages\<close> fits its budget of serialized bytes, in tail and cursor mode, with or
  without a role filter, with one exception: when a single message is over the budget by its other
  fields alone (its ids and its idempotency key, which a client writes and nothing bounds), the
  answer is that one message with its text cut to the notice, and it is as large as those fields.
  With every message's other fields within the budget the answer always fits.
\<close>

theorem window_fits_budget:
  assumes "length all < 2 ^ 32" and "messages_envelope_reservation \<le> budget"
    and view: "view = window_messages all tail after_count include_roles budget"
  shows "(length (json_messages_view view) \<le> budget \<or>
      (\<exists>m\<in>set all. budget \<le> messages_envelope_reservation + head_overhead m \<and>
         mw_messages view = [head_candidate m 0] \<and>
         length (json_messages_view view) \<le> messages_envelope_reservation + head_overhead m + 1)) \<and>
    ((\<forall>m\<in>set all. messages_envelope_reservation + head_overhead m < budget) \<longrightarrow>
      length (json_messages_view view) \<le> budget)"
proof -
  obtain t rows where rows: "window_rows all tail after_count include_roles = (t, rows)" by fastforce
  have sub: "set (map snd rows) \<subseteq> set all" "length (map snd rows) < 2 ^ 32"
    using window_rows_subset[OF rows] assms(1) by (auto simp: in_set_enumerate_eq)
  obtain dropped where "bound_messages_to_bytes (map snd rows) (budget - messages_envelope_reservation)
      (if 0 \<le> after_count then Oldest else Newest) = (mw_messages view, dropped)"
    unfolding view using window_messages_kept[OF rows] by blast
  note kept = kept_fits_or_bare[OF this sub(2)]
  have "mw_total_raw_count view \<le> u32_max" "mw_next_after_count view \<le> u32_max"
    using assms(1) window_next_le[OF assms(1), of tail after_count include_roles budget]
    by (simp_all add: view window_messages_def rows Let_def as_u32_small u32_max_def split: prod.splits)
  then have size: "length (json_messages_view view) \<le> messages_envelope_reservation + charged (mw_messages view)"
    by (rule json_messages_view_le)
  show ?thesis
  proof (cases "charged (mw_messages view) \<le> budget - messages_envelope_reservation")
    case True
    then show ?thesis using size assms(2) by linarith
  next
    case False
    then obtain m where m: "m \<in> set all" "budget - messages_envelope_reservation \<le> head_overhead m"
      "mw_messages view = [head_candidate m 0]"
      using kept sub(1) by blast
    then have "length (json_messages_view view) \<le> messages_envelope_reservation + head_overhead m + 1"
      using size by (simp add: head_overhead_def)
    moreover have "budget \<le> messages_envelope_reservation + head_overhead m" using m(2) by linarith
    ultimately show ?thesis using m(1,3) by (auto simp: not_less[symmetric])
  qed
qed

lemma messages_envelope_value: "messages_envelope_reservation = 111"
proof -
  have "length (show_nat u32_max) = 10" by (simp add: u32_max_def show_nat_step show_nat_small)
  moreover have "map (\<lambda>s. length (json_str s))
      [''total_raw_count'', ''truncated'', ''messages'', ''size_capped'', ''next_after_count''] = [17, 11, 10, 13, 18]"
    by code_simp
  ultimately show ?thesis
    unfolding messages_envelope_reservation_def json_messages_view_def
    by (simp add: length_json_object json_field_def json_bool_def json_array_def)
qed

definition example_message :: message_view where
  "example_message = \<lparr>mv_id = ''m1'', mv_role = ''user'', mv_content = ''hello'',
     mv_idempotency_key = None, mv_content_total_bytes = None\<rparr>"

lemma example_overhead: "head_overhead example_message < 400"
  by code_simp

theorem window_fits_budget_witness:
  "length (json_messages_view (window_messages [example_message, example_message] 1 (-1) [] 1000)) \<le> 1000"
  using example_overhead window_fits_budget[OF _ _ refl, of "[example_message, example_message]" 1000 1 "-1" "[]"]
  by (simp add: messages_envelope_value)

section \<open>Reading a conversation page by page\<close>

text \<open>
  The walk the view documents: ask from the cursor, and ask again from \<open>next_after_count\<close> while
  the page says it was capped.
\<close>

fun walk_pages :: "nat \<Rightarrow> message_view list \<Rightarrow> string list \<Rightarrow> nat \<Rightarrow> nat \<Rightarrow> messages_view list" where
  "walk_pages 0 all roles budget c = []"
| "walk_pages (Suc n) all roles budget c =
     (let v = window_messages all 0 (int c) roles budget
      in v # (if mw_size_capped v then walk_pages n all roles budget (mw_next_after_count v) else []))"

definition served_as :: "message_view \<Rightarrow> message_view \<Rightarrow> bool" where
  "served_as m s \<longleftrightarrow> s = m \<or> (\<exists>k. s = head_candidate m k \<and> is_char_boundary (mv_content m) k)"

lemma served_as_refl: "list_all2 served_as ms ms"
  by (simp add: list_all2_same served_as_def)

lemma window_page_value:
  assumes "length all < 2 ^ 32" "kept \<noteq> []" "length kept \<le> length (rows_from all roles c)"
    "bound_messages_to_bytes (map snd (rows_from all roles c)) (budget - messages_envelope_reservation) Oldest
       = (kept, dropped)"
  shows "mw_next_after_count (window_messages all 0 (int c) roles budget)
           = Suc (fst (rows_from all roles c ! (length kept - 1)))"
proof -
  have lt: "length kept - 1 < length (rows_from all roles c)"
    using assms(2,3) by (cases kept) auto
  have "fst (rows_from all roles c ! (length kept - 1)) < length all"
    using nth_mem[OF lt] by (auto simp: rows_from_def in_set_enumerate_eq)
  then show ?thesis
    using assms lt by (simp add: window_messages_def window_rows_cursor Let_def as_u32_def)
qed

lemma window_page:
  fixes all roles c budget
  defines "rows \<equiv> rows_from all roles c" and "v \<equiv> window_messages all 0 (int c) roles budget"
  assumes small: "length all < 2 ^ 32"
  obtains (last_page) "\<not> mw_size_capped v" "list_all2 served_as (map snd rows) (mw_messages v)"
  | (more) n where "Suc n < length rows" "mw_size_capped v" "mw_next_after_count v = Suc (fst (rows ! n))"
      "list_all2 served_as (map snd (take (Suc n) rows)) (mw_messages v)"
proof -
  obtain kept dropped where bound:
    "bound_messages_to_bytes (map snd rows) (budget - messages_envelope_reservation) Oldest = (kept, dropped)"
    by fastforce
  have v: "mw_messages v = kept" "mw_size_capped v = (0 < dropped)"
    using bound by (simp_all add: v_def window_messages_def window_rows_cursor rows_def Let_def)
  have next_count: "mw_next_after_count v = Suc (fst (rows ! (length kept - 1)))"
    if "kept \<noteq> []" "length kept \<le> length rows"
    using window_page_value[OF small] that bound unfolding v_def rows_def by blast
  have len: "length (map snd rows) < 2 ^ 32"
    using small length_filter_le[of _ "enumerate 0 all"] unfolding rows_def rows_from_def
    by (metis length_enumerate length_map order_le_less_trans)
  from bound len show thesis
  proof (cases rule: bound_messages_cases)
    case empty
    then show thesis using v last_page by simp
  next
    case (headed m)
    obtain r rest where rows: "rows = r # rest" using headed(2) by (cases rows) auto
    have "served_as (snd r) (head_message_to_bytes m (budget - messages_envelope_reservation - 1))"
      using head_message_cut[of m "budget - messages_envelope_reservation - 1"] headed(1) rows
      by (auto simp: served_as_def)
    then show thesis
      using v next_count headed(4,5) rows last_page more[of 0] by (cases rest) auto
  next
    case (whole n)
    have kept: "kept = map snd (take n rows)" using whole(3) by (simp add: take_map)
    show thesis
    proof (cases "n = length rows")
      case True
      then show thesis using v whole(4) kept last_page served_as_refl by simp
    next
      case False
      then have "n - 1 < length rows" "Suc (n - 1) = n" "n < length rows" "rows \<noteq> []" using whole(1,2) by auto
      then show thesis
        using v next_count whole(1,4) kept served_as_refl by (intro more[of "n - 1"]) auto
    qed
  qed
qed

lemma walk_pages_rows:
  assumes "length all < 2 ^ 32"
  shows "length (rows_from all roles c) < n \<Longrightarrow>
    list_all2 served_as (map snd (rows_from all roles c)) (concat (map mw_messages (walk_pages n all roles budget c)))
    \<and> (\<exists>v vs. walk_pages n all roles budget c = vs @ [v] \<and> \<not> mw_size_capped v)"
proof (induction n arbitrary: c)
  case (Suc n)
  let ?rows = "rows_from all roles c" and ?v = "window_messages all 0 (int c) roles budget"
  from assms show ?case
  proof (cases rule: window_page[where roles = roles and c = c and budget = budget, consumes 1])
    case last_page
    then show ?thesis by (simp add: Let_def)
  next
    case (more k)
    let ?c = "mw_next_after_count ?v"
    have rest: "rows_from all roles ?c = drop (Suc k) ?rows"
      using rows_from_next[of k all roles c] more by simp
    then have IH: "list_all2 served_as (map snd (drop (Suc k) ?rows))
          (concat (map mw_messages (walk_pages n all roles budget ?c)))
        \<and> (\<exists>v vs. walk_pages n all roles budget ?c = vs @ [v] \<and> \<not> mw_size_capped v)"
      using Suc.IH[of ?c] Suc.prems more(1) by simp
    have "list_all2 served_as (map snd (take (Suc k) ?rows) @ map snd (drop (Suc k) ?rows))
        (mw_messages ?v @ concat (map mw_messages (walk_pages n all roles budget ?c)))"
      using more(4) IH by (intro list_all2_appendI) auto
    then have "list_all2 served_as (map snd ?rows) (mw_messages ?v @ concat (map mw_messages (walk_pages n all roles budget ?c)))"
      by (simp only: map_append[symmetric] append_take_drop_id)
    then show ?thesis using more(2) IH by (auto simp: Let_def)
  qed
qed simp

text \<open>
  C8: reading a conversation page by page in cursor mode ends, and the pages together carry every message
  that matches the role filter exactly once and in order, each whole or, when it alone exceeds
  the budget, headed on a character boundary. No budget is too small for the walk to advance.
\<close>

theorem walk_reads_everything:
  assumes "length all < 2 ^ 32" "length all < n"
  shows "list_all2 served_as (filter (matches roles) all)
           (concat (map mw_messages (walk_pages n all roles budget 0)))
    \<and> (\<exists>v vs. walk_pages n all roles budget 0 = vs @ [v] \<and> \<not> mw_size_capped v)"
proof -
  have "map snd (filter (\<lambda>(i, m). P m) (enumerate k xs)) = filter P xs" for P k and xs :: "message_view list"
    by (induction xs arbitrary: k) auto
  then have "map snd (rows_from all roles 0) = filter (matches roles) all"
    by (simp add: rows_from_def)
  moreover have "length (rows_from all roles 0) < n"
    using assms(2) length_filter_le[of _ "enumerate 0 all"] unfolding rows_from_def
    by (metis length_enumerate order_le_less_trans)
  ultimately show ?thesis using walk_pages_rows[OF assms(1), of roles 0 n budget] by simp
qed

theorem walk_reads_everything_witness:
  "list_all2 served_as [example_message, example_message]
     (concat (map mw_messages (walk_pages 3 [example_message, example_message] [''user''] 200 0)))"
  using walk_reads_everything[of "[example_message, example_message]" 3 "[''user'']" 200]
  by (simp add: matches_def example_message_def)

section \<open>Conversation lists fit\<close>

lemma json_commas_append: "xs \<noteq> [] \<Longrightarrow> length (json_commas xs) \<le> length (json_commas (xs @ ys))"
proof (induction xs rule: json_commas.induct)
  case (2 x)
  then show ?case by (cases ys) simp_all
qed simp_all

lemma summary_charge_shape:
  "summary_charge (s\<lparr>cs_tags := tags\<rparr>) =
     summary_charge (s\<lparr>cs_tags := []\<rparr>) + (if tags = [] then 0
       else length (json_field ''tags'' (json_array (map json_str tags))) + 1)"
  by (simp add: summary_charge_def json_conversation_summary_def length_json_object u32_max_def)

lemma summary_charge_mono:
  assumes "m \<le> n"
  shows "summary_charge (s\<lparr>cs_tags := take m tags\<rparr>) \<le> summary_charge (s\<lparr>cs_tags := take n tags\<rparr>)"
proof -
  have "take n tags = take m tags @ take (n - m) (drop m tags)"
    using assms by (metis le_add_diff_inverse take_add)
  then show ?thesis
    using json_commas_append[of "map json_str (take m tags)" "map json_str (take (n - m) (drop m tags))"]
    unfolding summary_charge_shape[of "take m tags" s] summary_charge_shape[of "take n tags" s]
    by (cases "take m tags = []") (auto simp: json_field_def json_array_def)
qed

interpretation tag_cut: byte_cut "\<lambda>_. True" "\<lambda>n. summary_charge (s\<lparr>cs_tags := take n tags\<rparr>) \<le> room" 0 limit
  for s tags room limit
proof
  fix n m
  assume "summary_charge (s\<lparr>cs_tags := take n tags\<rparr>) \<le> room" "m \<le> n"
  then show "summary_charge (s\<lparr>cs_tags := take m tags\<rparr>) \<le> room"
    using summary_charge_mono[of m n tags s] by simp
next
  fix a b :: nat
  assume "a < b" "\<And>i. a < i \<Longrightarrow> i \<le> b \<Longrightarrow> \<not> True"
  then show "b \<le> a + 0" by blast
qed

lemma summary_charge_omitted [simp]:
  "summary_charge (s\<lparr>cs_omitted_tags := n\<rparr>) = summary_charge s"
  by (simp add: summary_charge_def)

text \<open>A row keeps as many of its first tags as the room holds, and is given up only when none fit.\<close>

lemma fit_summary_Some:
  assumes "fit_summary s room = Some row" "length (cs_tags s) < 2 ^ 32" "cs_omitted_tags s = 0"
  shows "\<exists>k \<le> length (cs_tags s). row = s\<lparr>cs_tags := take k (cs_tags s), cs_omitted_tags := length (cs_tags s) - k\<rparr>
     \<and> (\<forall>j. k < j \<and> j \<le> length (cs_tags s) \<longrightarrow> room < summary_charge (s\<lparr>cs_tags := take j (cs_tags s)\<rparr>))"
proof (cases "summary_charge s \<le> room")
  case True
  then show ?thesis
    using assms by (intro exI[of _ "length (cs_tags s)"]) (simp add: fit_summary_def)
next
  case False
  let ?fits = "\<lambda>mid. summary_charge (s\<lparr>cs_tags := take mid (cs_tags s)\<rparr>) \<le> room"
  let ?k = "cut_search (\<lambda>_. True) ?fits 0 (length (cs_tags s))"
  have k: "?k \<le> length (cs_tags s)"
    using cut_search_bounds[of 0 "\<lambda>_. True" ?fits "length (cs_tags s)"] by simp
  have "row = s\<lparr>cs_tags := take ?k (cs_tags s), cs_omitted_tags := length (cs_tags s) - ?k\<rparr>"
    using assms False by (simp add: fit_summary_def Let_def as_u32_def split: if_splits)
  moreover have "room < summary_charge (s\<lparr>cs_tags := take j (cs_tags s)\<rparr>)" if "?k < j" "j \<le> length (cs_tags s)" for j
    using tag_cut.near_best[where s = s and tags = "cs_tags s" and room = room and n = j and
        high = "length (cs_tags s)" and limit = "length (cs_tags s)" and low = 0] that by fastforce
  ultimately show ?thesis using k by (intro exI[of _ ?k]) auto
qed

lemma fit_summary_charge: "fit_summary s room = Some row \<Longrightarrow> summary_charge row \<le> room"
  using cut_search_fits[of "\<lambda>_. True" "\<lambda>mid. summary_charge (s\<lparr>cs_tags := take mid (cs_tags s)\<rparr>) \<le> room" 0 "length (cs_tags s)"]
  by (auto simp: fit_summary_def Let_def split: if_splits)

lemma bound_summaries_charge:
  assumes "bound_summaries_loop ss used budget = (kept, dropped)" "used \<le> budget"
  shows "used + sum_list (map summary_charge kept) \<le> budget \<and> (dropped < 2 ^ 32)"
  using assms
proof (induction ss used budget arbitrary: kept dropped rule: bound_summaries_loop.induct)
  case (2 s ss used budget)
  show ?case
  proof (cases "fit_summary s (budget - used)")
    case None
    then show ?thesis using 2 by (auto simp: as_u32_def)
  next
    case (Some row)
    then have "used + summary_charge row \<le> budget"
      using fit_summary_charge[OF Some] 2(3) by simp
    moreover obtain kept' dropped' where rest: "bound_summaries_loop ss (used + summary_charge row) budget = (kept', dropped')"
      by fastforce
    ultimately show ?thesis using 2(1)[OF Some rest] 2(2) Some by (auto simp: add.assoc)
  qed
qed simp

text \<open>What the loop keeps: the first rows, each with the tags that fit.\<close>

definition row_of :: "conversation_summary \<Rightarrow> conversation_summary \<Rightarrow> bool" where
  "row_of s row \<longleftrightarrow> (\<exists>k \<le> length (cs_tags s).
     row = s\<lparr>cs_tags := take k (cs_tags s), cs_omitted_tags := length (cs_tags s) - k\<rparr>)"

lemma bound_summaries_front:
  assumes "bound_summaries_loop ss used budget = (kept, dropped)" "length ss < 2 ^ 32"
    "\<forall>s \<in> set ss. length (cs_tags s) < 2 ^ 32 \<and> cs_omitted_tags s = 0"
  shows "dropped = length ss - length kept \<and> length kept \<le> length ss \<and> list_all2 row_of (take (length kept) ss) kept"
  using assms
proof (induction ss used budget arbitrary: kept dropped rule: bound_summaries_loop.induct)
  case (2 s ss used budget)
  show ?case
  proof (cases "fit_summary s (budget - used)")
    case None
    then show ?thesis using 2 by (auto simp: as_u32_def)
  next
    case (Some row)
    obtain kept' dropped' where rest: "bound_summaries_loop ss (used + summary_charge row) budget = (kept', dropped')"
      by fastforce
    have "row_of s row" using fit_summary_Some[OF Some] 2(4) by (auto simp: row_of_def)
    then show ?thesis using 2(1)[OF Some rest] 2(2-4) Some rest by auto
  qed
qed simp

lemma json_summary_le:
  assumes "n \<le> u32_max" "cs_omitted_tags s \<le> u32_max"
  shows "length (json_conversation_summary (s\<lparr>cs_omitted_trailing := n\<rparr>)) + 1 \<le> summary_charge s"
  using length_show_nat_mono[OF assms(1)] length_show_nat_mono[OF assms(2)]
  by (simp add: summary_charge_def json_conversation_summary_def length_json_object json_field_def u32_max_def)

lemma bound_summaries_omitted:
  "bound_summaries_loop ss used budget = (kept, dropped) \<Longrightarrow> \<forall>s \<in> set ss. cs_omitted_tags s \<le> u32_max \<Longrightarrow>
     \<forall>s \<in> set kept. cs_omitted_tags s \<le> u32_max"
proof (induction ss used budget arbitrary: kept dropped rule: bound_summaries_loop.induct)
  case (2 s ss used budget)
  have "cs_omitted_tags row \<le> u32_max" if "fit_summary s (budget - used) = Some row" for row
    using that 2(3) by (auto simp: fit_summary_def Let_def as_u32_def u32_max_def split: if_splits)
  then show ?case using 2 by (fastforce split: option.splits prod.splits)
qed simp

lemma json_conversations_le:
  assumes "dropped \<le> u32_max" "\<forall>s \<in> set ss. cs_omitted_tags s \<le> u32_max"
  shows "length (json_conversations (map (\<lambda>s. s\<lparr>cs_omitted_trailing := dropped\<rparr>) ss))
    \<le> conversations_envelope_reservation + sum_list (map summary_charge ss)"
proof -
  let ?rows = "map (\<lambda>s. json_conversation_summary (s\<lparr>cs_omitted_trailing := dropped\<rparr>)) ss"
  have "sum_list (map (\<lambda>x. length x + 1) ?rows) \<le> sum_list (map summary_charge ss)"
    using json_summary_le[OF assms(1)] assms(2) by (auto simp: comp_def intro!: sum_list_mono)
  then show ?thesis
    using length_json_commas[of ?rows]
    by (simp add: json_conversations_def conversations_envelope_reservation_def json_object_def
        json_field_def json_array_def comp_def)
qed

lemma conversations_envelope_value: "conversations_envelope_reservation = 20"
  by code_simp

lemma summary_row_simps [simp]:
  "cs_tags (summary_row s) = ss_tags s" "cs_omitted_tags (summary_row s) = 0" "cs_id (summary_row s) = ss_id s"
  by (simp_all add: summary_row_def Let_def)

text \<open>
  C32: the answer to \<^verbatim>\<open>ListConversations\<close> fits \<open>MAX_RESPONSE_BYTES\<close> whatever titles and tags are stored. It is
  the front of the list: every row is the stored conversation with its first tags, counts the
  tags it lost, and carries how many conversations the answer left out at the end.
\<close>

theorem conversation_list_fits:
  assumes "length stored < 2 ^ 32" "\<forall>s \<in> set stored. length (ss_tags s) < 2 ^ 32"
  shows "length (json_conversations (list_conversations stored)) \<le> MAX_RESPONSE_BYTES
     \<and> map cs_id (list_conversations stored) = map ss_id (take (length (list_conversations stored)) stored)
     \<and> (\<forall>row \<in> set (list_conversations stored).
          cs_omitted_trailing row = length stored - length (list_conversations stored))
     \<and> list_all2 (\<lambda>s row. cs_tags row = take (length (ss_tags s) - cs_omitted_tags row) (ss_tags s))
         (take (length (list_conversations stored)) stored) (list_conversations stored)"
proof -
  let ?budget = "MAX_RESPONSE_BYTES - conversations_envelope_reservation"
  obtain kept dropped where loop: "bound_summaries_loop (map summary_row stored) 0 ?budget = (kept, dropped)"
    by fastforce
  have rows: "list_conversations stored = map (\<lambda>s. s\<lparr>cs_omitted_trailing := dropped\<rparr>) kept"
    using loop by (simp add: list_conversations_def bound_summaries_to_bytes_def)
  have "sum_list (map summary_charge kept) \<le> ?budget" "dropped \<le> u32_max"
    using bound_summaries_charge[OF loop] by (simp_all add: u32_max_def)
  moreover have "\<forall>s \<in> set kept. cs_omitted_tags s \<le> u32_max"
    using bound_summaries_omitted[OF loop] by simp
  moreover have "conversations_envelope_reservation \<le> MAX_RESPONSE_BYTES"
    by (simp add: conversations_envelope_value MAX_RESPONSE_BYTES_def)
  ultimately have size: "length (json_conversations (list_conversations stored)) \<le> MAX_RESPONSE_BYTES"
    using json_conversations_le[of dropped kept] unfolding rows by linarith
  have front: "dropped = length stored - length kept" "length kept \<le> length stored"
      "list_all2 row_of (map summary_row (take (length kept) stored)) kept"
    using bound_summaries_front[OF loop] assms by (auto simp: take_map)
  have "list_all2 (\<lambda>s row. cs_id row = ss_id s \<and> cs_tags row = take (length (ss_tags s) - cs_omitted_tags row) (ss_tags s))
      (take (length kept) stored) kept"
    using front(3) unfolding list_all2_map1 by (rule list_all2_mono) (auto simp: row_of_def)
  then show ?thesis
    using size front(1,2) unfolding rows
    by (auto simp: list_all2_conv_all_nth list_eq_iff_nth_eq comp_def)
qed

text \<open>
  The exception in the bound on a window is real. A client writes the idempotency key, nothing bounds it, and heading a message does not cut it: one message with a
  key of the response budget's size is served over the budget.
\<close>

lemma length_message_key: "mv_idempotency_key m = Some key \<Longrightarrow> length key < length (json_message_view m)"
  using length_json_body_ge[of key]
  by (simp add: json_message_view_def length_json_object json_field_def length_json_str)

lemma oversize_key_escapes_budget:
  assumes "mv_idempotency_key m = Some key" "MAX_RESPONSE_BYTES \<le> length key"
  shows "MAX_RESPONSE_BYTES < length (json_messages_view (window_messages [m] 0 0 [] MAX_RESPONSE_BYTES))"
proof -
  let ?budget = "MAX_RESPONSE_BYTES - messages_envelope_reservation"
  have rows: "rows_from [m] [] 0 = [(0, m)]" by (simp add: rows_from_def matches_def)
  have "count_fits [m] 0 ?budget = 0"
    using length_message_key[OF assms(1)] assms(2) by simp
  then have "mw_messages (window_messages [m] 0 0 [] MAX_RESPONSE_BYTES) = [head_message_to_bytes m (?budget - 1)]"
    by (simp add: window_messages_def window_rows_cursor rows bound_messages_to_bytes_def Let_def)
  moreover have "mv_idempotency_key (head_message_to_bytes m n) = Some key" for n
    using assms(1) by (simp add: head_message_to_bytes_def head_candidate_def)
  ultimately show ?thesis
    using length_message_key[of "head_message_to_bytes m (?budget - 1)" key] assms(2)
    by (simp add: json_messages_view_def json_object_def json_field_def json_array_def)
qed

definition example_stored :: stored_summary where
  "example_stored = \<lparr>ss_id = ''c1'', ss_title = ''Plans'', ss_message_count = 2, ss_updated_at = ''2026-01-01'',
     ss_archived = False, ss_tags = [''work'', ''q3'']\<rparr>"

theorem conversation_list_fits_witness:
  "length (json_conversations (list_conversations [example_stored, example_stored])) \<le> MAX_RESPONSE_BYTES"
  using conversation_list_fits[of "[example_stored, example_stored]"] by (simp add: example_stored_def)

end
