(* ===== verification/Send_Message.thy ===== *)
theory Send_Message
  imports Inflight Response_Bounds
begin

text \<open>
  Sending a message once (\<^verbatim>\<open>crates/application/src/lib.rs\<close>): the body of a turn, the replay of a
  finished turn, and the admission of keyed requests that decides between re-attaching to a
  live turn, replaying a finished one and running a fresh one.

  The stored replies (\<^verbatim>\<open>crates/storage/src/idempotency_keys.rs\<close>) are a map under the primary key
  of the table. The core loop of a turn is an argument: the events it puts on the turn's channel
  and its outcome. Status lines are emitted by detached tasks at any time and are not part of
  the sequence.

  A request runs its admission in segments between which other requests can run: a look at
  the index of live turns, a store lookup, a claim, and a second look when the claim is lost.
  \<open>start_send_message\<close> is their composition; the machine interleaves them.
\<close>

section \<open>The body of a turn\<close>

type_synonym reply_store = "(turn_key, string) hashmap"

definition lookup_completed :: "string \<Rightarrow> string \<Rightarrow> string \<Rightarrow> reply_store \<Rightarrow> string option" where
  "lookup_completed user_id conversation_id key st = hm_get st (turn_key user_id conversation_id key)"

definition record_response :: "string \<Rightarrow> string \<Rightarrow> string \<Rightarrow> string \<Rightarrow> reply_store \<Rightarrow> reply_store" where
  "record_response user_id conversation_id key response st =
     hm_insert (turn_key user_id conversation_id key) response st"

definition emit_ignored :: "('k, 'j, 'w) emitter \<Rightarrow> 'k \<Rightarrow> 'j event \<Rightarrow> 'w \<Rightarrow> 'w" where
  "emit_ignored emit sink event w = fst (emit sink event w)"

definition replay_completed_response ::
  "('k, 'j, 'w) emitter \<Rightarrow> 'k \<Rightarrow> string \<Rightarrow> string \<Rightarrow> string \<Rightarrow> string option \<Rightarrow> string \<Rightarrow> 'w \<Rightarrow> 'w" where
  "replay_completed_response emit sink conversation_id request_id content echo_key response w =
     (let w = emit_ignored emit sink (UserMessageAdded conversation_id request_id content echo_key) w;
          w = emit_ignored emit sink (AssistantDelta conversation_id request_id response) w
      in emit_ignored emit sink (AssistantCompleted conversation_id request_id response) w)"

text \<open>The forwarder task drains the turn's channel into the sink and stops when the sink is gone.\<close>

fun forwarder :: "('k, 'j, 'w) emitter \<Rightarrow> 'k \<Rightarrow> 'j event list \<Rightarrow> 'w \<Rightarrow> 'w" where
  "forwarder emit sink [] w = w"
| "forwarder emit sink (e # es) w =
     (case emit sink e w of (w, ok) \<Rightarrow> if \<not> ok then w else forwarder emit sink es w)"

record 'j turn_outcome =
  to_response :: string
  to_warnings :: "'j list"

record turn_request =
  tr_user :: string
  tr_conversation :: string
  tr_content :: string
  tr_request_id :: string
  tr_key :: "string option"

text \<open>
  \<open>channel\<close> is what the chunk, usage and capability callbacks put on the turn's channel, \<open>title\<close>
  the title read back after the turn (\<open>None\<close> when the conversation cannot be read), and
  \<open>record_ok\<close> whether the store takes the reply.
\<close>

definition run_send_turn ::
  "('k, 'j, 'w) emitter \<Rightarrow> 'k \<Rightarrow> turn_request \<Rightarrow> bool \<Rightarrow> 'j event list \<Rightarrow> string + 'j turn_outcome \<Rightarrow>
   string option \<Rightarrow> bool \<Rightarrow> reply_store \<times> 'w \<Rightarrow> (reply_store \<times> 'w) \<times> (string + unit)" where
  "run_send_turn emit sink q store_attached channel outcome title record_ok sw =
     (case sw of (st, w) \<Rightarrow>
        (let c = tr_conversation q;
             w = emit_ignored emit sink (UserMessageAdded c (tr_request_id q) (tr_content q) (tr_key q)) w;
             w = forwarder emit sink channel w
         in case outcome of
              Inr out \<Rightarrow>
                (let w = fold (\<lambda>x. emit_ignored emit sink (ConversationWarningEmitted c x)) (to_warnings out) w;
                     st = (case tr_key q of
                             Some key \<Rightarrow> if store_attached \<and> record_ok
                               then record_response (tr_user q) c key (to_response out) st else st
                           | None \<Rightarrow> st);
                     w = emit_ignored emit sink (AssistantCompleted c (tr_request_id q) (to_response out)) w;
                     w = (case title of None \<Rightarrow> w
                          | Some t \<Rightarrow> emit_ignored emit sink (ConversationTitleChanged c (bt_text (bound_title t))) w)
                 in ((st, w), Inr ()))
            | Inl e \<Rightarrow> ((st, emit_ignored emit sink (AssistantError c (tr_request_id q) e) w), Inl e)))"

section \<open>Admission\<close>

text \<open>
  Where a request is: \<open>Turn slot\<close> runs a fresh turn, holding the claimed hub or none; \<open>Recorded\<close>
  has stored its reply and still runs.
\<close>

datatype phase =
    Arrived
  | Missed
  | LookedUp
  | ClaimLost
  | Turn "nat option"
  | Recorded "nat option"
  | Reattached nat
  | Replayed string
  | Refused
  | Ended

record admission =
  ad_index :: "(turn_key, nat) hashmap"
  ad_store :: "reply_store option"
  ad_fresh :: nat
  ad_requests :: "(nat, turn_request \<times> phase) hashmap"

definition request_key :: "turn_request \<Rightarrow> turn_key option" where
  "request_key q = map_option (turn_key (tr_user q) (tr_conversation q)) (tr_key q)"

definition set_phase :: "nat \<Rightarrow> phase \<Rightarrow> admission \<Rightarrow> admission" where
  "set_phase i ph s = s\<lparr>ad_requests := hm_modify i (\<lambda>(q, _). (q, ph)) (ad_requests s)\<rparr>"

text \<open>Shortcut (1): re-attach when the index has a live turn for the key.\<close>

definition send_check :: "nat \<Rightarrow> admission \<Rightarrow> admission" where
  "send_check i s =
     (case hm_get (ad_requests s) i of
        Some (q, Arrived) \<Rightarrow>
          (case tr_key q of
             None \<Rightarrow> set_phase i (Turn None) s
           | Some key \<Rightarrow>
               (case inflight_get (tr_user q) (tr_conversation q) key (ad_index s) of
                  Some hub \<Rightarrow> set_phase i (Reattached hub) s
                | None \<Rightarrow> set_phase i Missed s))
      | _ \<Rightarrow> s)"

text \<open>Shortcut (2): replay a stored reply. \<open>lookup_ok\<close> says whether the store answers.\<close>

definition send_lookup :: "bool \<Rightarrow> nat \<Rightarrow> admission \<Rightarrow> admission" where
  "send_lookup lookup_ok i s =
     (case hm_get (ad_requests s) i of
        Some (q, Missed) \<Rightarrow>
          (case (ad_store s, tr_key q) of
             (Some st, Some key) \<Rightarrow>
               if \<not> lookup_ok then set_phase i Refused s
               else (case lookup_completed (tr_user q) (tr_conversation q) key st of
                       Some response \<Rightarrow> set_phase i (Replayed response) s
                     | None \<Rightarrow> set_phase i LookedUp s)
           | _ \<Rightarrow> set_phase i LookedUp s)
      | _ \<Rightarrow> s)"

text \<open>A fresh turn claims the slot of its key.\<close>

definition send_claim :: "nat \<Rightarrow> admission \<Rightarrow> admission" where
  "send_claim i s =
     (case hm_get (ad_requests s) i of
        Some (q, LookedUp) \<Rightarrow>
          (case tr_key q of
             None \<Rightarrow> s
           | Some key \<Rightarrow>
               (case inflight_register (tr_user q) (tr_conversation q) key (ad_fresh s) (ad_index s) of
                  (index, Some hub) \<Rightarrow>
                    set_phase i (Turn (Some hub)) (s\<lparr>ad_index := index, ad_fresh := Suc (ad_fresh s)\<rparr>)
                | (index, None) \<Rightarrow> set_phase i ClaimLost s))
      | _ \<Rightarrow> s)"

text \<open>After a lost claim the request looks again, and runs without a slot when the winner is gone.\<close>

definition send_retry :: "nat \<Rightarrow> admission \<Rightarrow> admission" where
  "send_retry i s =
     (case hm_get (ad_requests s) i of
        Some (q, ClaimLost) \<Rightarrow>
          (case tr_key q of
             None \<Rightarrow> s
           | Some key \<Rightarrow>
               (case inflight_get (tr_user q) (tr_conversation q) key (ad_index s) of
                  Some hub \<Rightarrow> set_phase i (Reattached hub) s
                | None \<Rightarrow> set_phase i (Turn None) s))
      | _ \<Rightarrow> s)"

definition start_send_message :: "bool \<Rightarrow> nat \<Rightarrow> admission \<Rightarrow> admission" where
  "start_send_message lookup_ok i s = send_retry i (send_claim i (send_lookup lookup_ok i (send_check i s)))"

definition arrive :: "nat \<Rightarrow> turn_request \<Rightarrow> admission \<Rightarrow> admission" where
  "arrive i q s = s\<lparr>ad_requests := hm_insert i (q, Arrived) (ad_requests s)\<rparr>"

text \<open>The end of a turn's dispatch: the reply is stored, or the store refuses it.\<close>

definition turn_record :: "nat \<Rightarrow> string \<Rightarrow> bool \<Rightarrow> admission \<Rightarrow> admission" where
  "turn_record i response record_ok s =
     (case hm_get (ad_requests s) i of
        Some (q, Turn slot) \<Rightarrow>
          (case (ad_store s, tr_key q) of
             (Some st, Some key) \<Rightarrow>
               set_phase i (Recorded slot)
                 (if record_ok
                  then s\<lparr>ad_store := Some (record_response (tr_user q) (tr_conversation q) key response st)\<rparr> else s)
           | _ \<Rightarrow> set_phase i (Recorded slot) s)
      | _ \<Rightarrow> s)"

text \<open>
  The turn's task ends by any path, a panic included: the \<^verbatim>\<open>InFlightSlotGuard\<close> of a claimed slot is
  dropped and removes the entry.
\<close>

definition slot_guard_drop :: "turn_request \<Rightarrow> nat option \<Rightarrow> admission \<Rightarrow> admission" where
  "slot_guard_drop q slot s =
     (case (slot, tr_key q) of
        (Some _, Some key) \<Rightarrow> s\<lparr>ad_index := inflight_remove (tr_user q) (tr_conversation q) key (ad_index s)\<rparr>
      | _ \<Rightarrow> s)"

definition turn_end :: "nat \<Rightarrow> admission \<Rightarrow> admission" where
  "turn_end i s =
     (case hm_get (ad_requests s) i of
        Some (q, Turn slot) \<Rightarrow> set_phase i Ended (slot_guard_drop q slot s)
      | Some (q, Recorded slot) \<Rightarrow> set_phase i Ended (slot_guard_drop q slot s)
      | _ \<Rightarrow> s)"

inductive astep :: "admission \<Rightarrow> admission \<Rightarrow> bool" where
  a_arrive: "hm_get (ad_requests s) i = None \<Longrightarrow> astep s (arrive i q s)"
| a_check: "astep s (send_check i s)"
| a_lookup: "astep s (send_lookup ok i s)"
| a_claim: "astep s (send_claim i s)"
| a_retry: "astep s (send_retry i s)"
| a_record: "astep s (turn_record i response ok s)"
| a_end: "astep s (turn_end i s)"

definition ainit :: "admission \<Rightarrow> bool" where
  "ainit s \<longleftrightarrow> ad_index s = [] \<and> ad_fresh s = 0 \<and> ad_requests s = []"

section \<open>Who holds a slot\<close>

fun slot_of :: "phase \<Rightarrow> nat option" where
  "slot_of (Turn slot) = slot"
| "slot_of (Recorded slot) = slot"
| "slot_of _ = None"

fun running :: "phase \<Rightarrow> bool" where
  "running (Turn _) = True"
| "running (Recorded _) = True"
| "running _ = False"

definition holds :: "admission \<Rightarrow> nat \<Rightarrow> turn_key \<Rightarrow> nat \<Rightarrow> bool" where
  "holds s i k h \<longleftrightarrow> (\<exists>q ph. hm_get (ad_requests s) i = Some (q, ph) \<and> request_key q = Some k \<and> slot_of ph = Some h)"

definition slots_ok :: "admission \<Rightarrow> bool" where
  "slots_ok s \<longleftrightarrow>
     (\<forall>k h. hm_get (ad_index s) k = Some h \<longleftrightarrow> (\<exists>i. holds s i k h)) \<and>
     (\<forall>i j k h h'. holds s i k h \<longrightarrow> holds s j k h' \<longrightarrow> i = j)"

lemma set_phase_simps [simp]:
  "ad_index (set_phase i ph s) = ad_index s" "ad_store (set_phase i ph s) = ad_store s"
  "ad_fresh (set_phase i ph s) = ad_fresh s"
  "hm_get (ad_requests (set_phase i ph s)) j =
     (if j = i then map_option (\<lambda>(q, _). (q, ph)) (hm_get (ad_requests s) j) else hm_get (ad_requests s) j)"
  by (simp_all add: set_phase_def hm_simps)

lemma holds_set_phase:
  "hm_get (ad_requests s) i = Some (q, ph') \<Longrightarrow>
     holds (set_phase i ph s) j k h =
       (if j = i then request_key q = Some k \<and> slot_of ph = Some h else holds s j k h)"
  by (auto simp: holds_def)

lemma holds_cong: "ad_requests s = ad_requests t \<Longrightarrow> holds s = holds t"
  by (simp add: holds_def fun_eq_iff)

lemma slots_ok_same_slot:
  assumes "slots_ok s" "hm_get (ad_requests s) i = Some (q, ph')" "slot_of ph = slot_of ph'"
  shows "slots_ok (set_phase i ph s)"
proof -
  have "holds (set_phase i ph s) = holds s"
    using assms(2,3) by (auto simp: fun_eq_iff holds_set_phase) (auto simp: holds_def)
  then show ?thesis using assms(1) by (simp add: slots_ok_def)
qed

lemma slots_ok_store [simp]: "slots_ok (s\<lparr>ad_store := st\<rparr>) = slots_ok s"
  by (simp add: slots_ok_def holds_def)

lemma slots_okI:
  "(\<And>k h. hm_get (ad_index s) k = Some h \<longleftrightarrow> (\<exists>i. holds s i k h)) \<Longrightarrow>
   (\<And>i j k h h'. holds s i k h \<Longrightarrow> holds s j k h' \<Longrightarrow> i = j) \<Longrightarrow> slots_ok s"
  unfolding slots_ok_def by blast

lemma slots_ok_index: "slots_ok s \<Longrightarrow> hm_get (ad_index s) k = Some h \<longleftrightarrow> (\<exists>i. holds s i k h)"
  unfolding slots_ok_def by blast

lemma slots_ok_unique: "slots_ok s \<Longrightarrow> holds s i k h \<Longrightarrow> holds s j k h' \<Longrightarrow> i = j"
  unfolding slots_ok_def by blast

lemma slots_ok_claim:
  assumes ok: "slots_ok s" and i: "hm_get (ad_requests s) i = Some (q, ph)" "slot_of ph = None"
    and k: "request_key q = Some k" "hm_get (ad_index s) k = None"
  shows "slots_ok (set_phase i (Turn (Some h)) (s\<lparr>ad_index := hm_insert k h (ad_index s), ad_fresh := n\<rparr>))"
    (is "slots_ok (set_phase i _ ?s)")
proof -
  have same: "holds ?s = holds s" by (rule holds_cong) simp
  have new: "holds (set_phase i (Turn (Some h)) ?s) j k' h' \<longleftrightarrow>
      (if j = i then k' = k \<and> h' = h else holds s j k' h')" for j k' h'
    using holds_set_phase[of ?s i q ph "Turn (Some h)"] i(1) k(1) by (auto simp: same)
  have free: "\<not> holds s j k h'" for j h' using slots_ok_index[OF ok, of k h'] k(2) by auto
  have mine: "\<not> holds s i k' h'" for k' h' using i by (auto simp: holds_def)
  show ?thesis
  proof (rule slots_okI)
    fix k' h'
    show "hm_get (ad_index (set_phase i (Turn (Some h)) ?s)) k' = Some h' \<longleftrightarrow>
        (\<exists>j. holds (set_phase i (Turn (Some h)) ?s) j k' h')"
      unfolding new using slots_ok_index[OF ok, of k' h'] by (simp add: hm_simps) (metis free mine)
  next
    fix j j' k' h1 h2
    assume "holds (set_phase i (Turn (Some h)) ?s) j k' h1" "holds (set_phase i (Turn (Some h)) ?s) j' k' h2"
    then show "j = j'"
      unfolding new using slots_ok_unique[OF ok] free by (auto split: if_splits)
  qed
qed

lemma slots_ok_release:
  assumes ok: "slots_ok s" and i: "hm_get (ad_requests s) i = Some (q, ph)" "slot_of ph = Some h" "request_key q = Some k"
  shows "slots_ok (set_phase i Ended (s\<lparr>ad_index := hm_remove k (ad_index s)\<rparr>))"
    (is "slots_ok (set_phase i _ ?s)")
proof -
  have same: "holds ?s = holds s" by (rule holds_cong) simp
  have new: "holds (set_phase i Ended ?s) j k' h' \<longleftrightarrow> j \<noteq> i \<and> holds s j k' h'" for j k' h'
    using holds_set_phase[of ?s i q ph Ended] i(1) by (auto simp: same)
  have held: "holds s i k' h' \<longleftrightarrow> k' = k \<and> h' = h" for k' h' using i by (auto simp: holds_def)
  have alone: "j = i" if "holds s j k h'" for j h' using slots_ok_unique[OF ok that] held by blast
  show ?thesis
  proof (rule slots_okI)
    fix k' h'
    show "hm_get (ad_index (set_phase i Ended ?s)) k' = Some h' \<longleftrightarrow> (\<exists>j. holds (set_phase i Ended ?s) j k' h')"
      unfolding new using slots_ok_index[OF ok, of k' h'] by (simp add: hm_simps) (metis held alone)
  next
    fix j j' k' h1 h2
    assume "holds (set_phase i Ended ?s) j k' h1" "holds (set_phase i Ended ?s) j' k' h2"
    then show "j = j'" unfolding new using slots_ok_unique[OF ok] by blast
  qed
qed

lemma slots_ok_end:
  assumes ok: "slots_ok s" and i: "hm_get (ad_requests s) i = Some (q, ph)"
  shows "slots_ok (set_phase i Ended (slot_guard_drop q (slot_of ph) s))"
proof (cases "slot_of ph = None \<or> request_key q = None")
  case True
  then have "slot_guard_drop q (slot_of ph) s = s"
    by (auto simp: slot_guard_drop_def request_key_def split: option.splits)
  moreover have "holds (set_phase i Ended s) = holds s"
    using True i by (auto simp: fun_eq_iff holds_set_phase[OF i]) (auto simp: holds_def)
  ultimately show ?thesis using ok by (simp add: slots_ok_def)
next
  case False
  then obtain h k where "slot_of ph = Some h" "request_key q = Some k" by auto
  then show ?thesis
    using slots_ok_release[OF ok i]
    by (auto simp: slot_guard_drop_def request_key_def inflight_remove_def split: option.splits)
qed

lemma slots_ok_step: "astep s t \<Longrightarrow> slots_ok s \<Longrightarrow> slots_ok t"
proof (induction rule: astep.induct)
  case (a_arrive s i q)
  then have "holds (arrive i q s) = holds s"
    by (auto simp: fun_eq_iff holds_def arrive_def hm_simps)
  then show ?case using a_arrive by (simp add: slots_ok_def arrive_def)
next
  case (a_check s i)
  then show ?case
    by (auto simp: send_check_def split: option.splits phase.splits intro!: slots_ok_same_slot)
next
  case (a_lookup s ok i)
  then show ?case
    by (auto simp: send_lookup_def split: option.splits phase.splits intro!: slots_ok_same_slot)
next
  case (a_claim s i)
  then show ?case
    by (auto simp: send_claim_def inflight_register_def request_key_def split: option.splits phase.splits
        intro!: slots_ok_claim intro: slots_ok_same_slot)
next
  case (a_retry s i)
  then show ?case
    by (auto simp: send_retry_def split: option.splits phase.splits intro!: slots_ok_same_slot)
next
  case (a_record s i response ok)
  then show ?case
    by (auto simp: turn_record_def split: option.splits phase.splits intro!: slots_ok_same_slot)
next
  case (a_end s i)
  then show ?case
    using slots_ok_end[of s i]
    by (fastforce simp: turn_end_def split: option.splits phase.splits)
qed

interpretation admission_sys: invariant_system ainit astep slots_ok
proof
  fix s assume "ainit s"
  then show "slots_ok s" by (simp add: ainit_def slots_ok_def holds_def)
next
  fix s t assume "slots_ok s" "astep s t"
  then show "slots_ok t" by (simp add: slots_ok_step)
qed

text \<open>
  C4: however the requests of all clients interleave, the index of live turns holds exactly the
  slots of the turns that run under one, with no entry left behind when a turn ends by any
  path, and at most one turn per user, conversation and idempotency key runs under a slot.
\<close>

theorem one_slotted_turn_per_key:
  assumes "reachable ainit astep s"
  shows "(\<forall>k h. hm_get (ad_index s) k = Some h \<longleftrightarrow> (\<exists>i. holds s i k h))
     \<and> (\<forall>i j k h h'. holds s i k h \<and> holds s j k h' \<longrightarrow> i = j)"
  using admission_sys.reachable_inv[OF assms] unfolding slots_ok_def by blast

text \<open>
  A run of the machine in which the second request for a key loses its claim while the first turn
  runs, and looks again only after that turn has failed.
\<close>

definition retry_request :: "turn_request" where
  "retry_request = \<lparr>tr_user = ''u'', tr_conversation = ''c'', tr_content = ''hi'', tr_request_id = ''r'', tr_key = Some ''k''\<rparr>"

definition empty_admission :: admission where
  "empty_admission = \<lparr>ad_index = [], ad_store = Some [], ad_fresh = 0, ad_requests = []\<rparr>"

definition race_ops :: "(admission \<Rightarrow> admission) list" where
  "race_ops = [arrive 1 retry_request, arrive 2 retry_request, send_check 2, send_lookup True 2,
     send_check 1, send_lookup True 1, send_claim 1, send_claim 2]"

definition race_end_ops :: "(admission \<Rightarrow> admission) list" where
  "race_end_ops = [turn_end 1, send_retry 2, arrive 3 retry_request, send_check 3, send_lookup True 3, send_claim 3]"

definition run_ops :: "(admission \<Rightarrow> admission) list \<Rightarrow> admission \<Rightarrow> admission" where
  "run_ops ops s = fold (\<lambda>f. f) ops s"

lemma reachable_ops:
  assumes "reachable ainit astep s"
  shows "hm_get (ad_requests s) i = None \<Longrightarrow> reachable ainit astep (arrive i q s)"
    "reachable ainit astep (send_check i s)" "reachable ainit astep (send_lookup ok i s)"
    "reachable ainit astep (send_claim i s)" "reachable ainit astep (send_retry i s)"
    "reachable ainit astep (turn_record i response ok s)" "reachable ainit astep (turn_end i s)"
  using reach_step[of ainit astep, OF assms] by (auto intro: astep.intros)

lemma run_ops_simps [simp]: "run_ops [] s = s" "run_ops (f # fs) s = run_ops fs (f s)"
  by (simp_all add: run_ops_def)

lemma empty_reachable: "reachable ainit astep empty_admission"
  by (rule reach_init[of ainit]) (simp add: ainit_def empty_admission_def)

lemma race_reachable: "reachable ainit astep (run_ops race_ops empty_admission)"
  unfolding race_ops_def run_ops_simps
  by (intro reachable_ops empty_reachable) (simp_all add: empty_admission_def arrive_def)

lemma race_state: "holds (run_ops race_ops empty_admission) 1 (''u'', ''c'', ''k'') 0"
  unfolding holds_def
  by (intro exI[of _ retry_request] exI[of _ "Turn (Some 0)"]) code_simp

theorem one_slotted_turn_per_key_witness:
  "\<not> holds (run_ops race_ops empty_admission) 2 (''u'', ''c'', ''k'') 0"
  using one_slotted_turn_per_key[OF race_reachable] race_state by fastforce

text \<open>
  the second look after a lost claim does not close the race it is written for: the second request
  then runs without a slot, a third one finds the index empty and runs too, and two turns for
  one key run at once.
\<close>

theorem lost_claim_runs_unregistered:
  "reachable ainit astep (run_ops race_end_ops (run_ops race_ops empty_admission))
   \<and> hm_get (ad_requests (run_ops race_end_ops (run_ops race_ops empty_admission))) 2 = Some (retry_request, Turn None)
   \<and> hm_get (ad_requests (run_ops race_end_ops (run_ops race_ops empty_admission))) 3 = Some (retry_request, Turn (Some 1))"
proof -
  have "hm_get (ad_requests (send_retry 2 (turn_end 1 (run_ops race_ops empty_admission)))) 3 = None"
    by code_simp
  then have "reachable ainit astep (run_ops race_end_ops (run_ops race_ops empty_admission))"
    unfolding race_end_ops_def run_ops_simps by (intro reachable_ops race_reachable)
  moreover have "hm_get (ad_requests (run_ops race_end_ops (run_ops race_ops empty_admission))) 2 = Some (retry_request, Turn None)"
    "hm_get (ad_requests (run_ops race_end_ops (run_ops race_ops empty_admission))) 3 = Some (retry_request, Turn (Some 1))"
    by code_simp+
  ultimately show ?thesis by blast
qed

section \<open>What a request gets\<close>

text \<open>
  a request that is admitted without interference does one of four things, decided in this order:
  it re-attaches to the live turn of its key, fails when the store does, replays the stored
  reply of its key, or runs a fresh turn, keyed turns under a slot of their own. Only the last
  one touches the index, and nothing touches the store.
\<close>

theorem send_message_admission:
  assumes "hm_get (ad_requests s) i = Some (q, Arrived)" "start_send_message ok i s = t"
  shows "ad_store t = ad_store s \<and> hm_get (ad_requests t) i = Some (q,
      case request_key q of
        None \<Rightarrow> Turn None
      | Some k \<Rightarrow>
          (case hm_get (ad_index s) k of
             Some hub \<Rightarrow> Reattached hub
           | None \<Rightarrow>
               if ad_store s \<noteq> None \<and> \<not> ok then Refused
               else (case Option.bind (ad_store s) (\<lambda>st. hm_get st k) of
                       Some response \<Rightarrow> Replayed response
                     | None \<Rightarrow> Turn (Some (ad_fresh s)))))
    \<and> (ad_index t = ad_index s \<or>
       (\<exists>k. request_key q = Some k \<and> hm_get (ad_index s) k = None \<and>
          ad_index t = hm_insert k (ad_fresh s) (ad_index s)))"
proof (cases "tr_key q")
  case None
  then show ?thesis
    using assms(1) by (simp add: assms(2)[symmetric] start_send_message_def send_check_def send_lookup_def send_claim_def
      send_retry_def request_key_def)
next
  case (Some key)
  let ?k = "turn_key (tr_user q) (tr_conversation q) key"
  note defs = assms(2)[symmetric] start_send_message_def send_check_def send_lookup_def send_claim_def send_retry_def
    request_key_def inflight_get_def inflight_register_def lookup_completed_def
  show ?thesis
  proof (cases "hm_get (ad_index s) ?k")
    case None
    show ?thesis
    proof (cases "ad_store s")
      case None
      then show ?thesis using assms(1) \<open>tr_key q = Some key\<close> \<open>hm_get (ad_index s) ?k = None\<close> by (simp add: defs)
    next
      case (Some st)
      then show ?thesis
        using assms(1) \<open>tr_key q = Some key\<close> \<open>hm_get (ad_index s) ?k = None\<close>
        by (cases ok; cases "hm_get st ?k") (simp_all add: defs)
    qed
  next
    case (Some hub)
    then show ?thesis using assms(1) \<open>tr_key q = Some key\<close> by (simp add: defs)
  qed
qed

theorem send_message_admission_witness:
  "hm_get (ad_requests (start_send_message True 3 (arrive 3 retry_request (run_ops race_ops empty_admission)))) 3
     = Some (retry_request, Reattached 0)"
proof -
  have "hm_get (ad_requests (arrive 3 retry_request (run_ops race_ops empty_admission))) 3 = Some (retry_request, Arrived)"
    "hm_get (ad_index (arrive 3 retry_request (run_ops race_ops empty_admission))) (''u'', ''c'', ''k'') = Some 0"
    "request_key retry_request = Some (''u'', ''c'', ''k'')"
    by code_simp+
  then show ?thesis using send_message_admission[OF _ refl, of _ 3 retry_request True] by simp
qed

section \<open>What a turn emits\<close>

text \<open>The events of a turn on a connected sink, in order.\<close>

definition turn_sequence ::
  "turn_request \<Rightarrow> 'j event list \<Rightarrow> string + 'j turn_outcome \<Rightarrow> string option \<Rightarrow> 'j event list" where
  "turn_sequence q channel outcome title =
     UserMessageAdded (tr_conversation q) (tr_request_id q) (tr_content q) (tr_key q) # channel @
     (case outcome of
        Inl e \<Rightarrow> [AssistantError (tr_conversation q) (tr_request_id q) e]
      | Inr out \<Rightarrow>
          map (ConversationWarningEmitted (tr_conversation q)) (to_warnings out) @
          [AssistantCompleted (tr_conversation q) (tr_request_id q) (to_response out)] @
          (case title of None \<Rightarrow> []
           | Some t \<Rightarrow> [ConversationTitleChanged (tr_conversation q) (bt_text (bound_title t))]))"

lemma tee_log: "emit_ignored (tee_emit log_emit) sink e (t, w) = (emit_event e t, w @ [(sink, e)])"
  by (simp add: emit_ignored_def tee_emit_def log_emit_def)

lemma emit_events_simps [simp]:
  "emit_events [] t = t" "emit_events (e # es) t = emit_events es (emit_event e t)"
  "emit_events (es @ fs) t = emit_events fs (emit_events es t)"
  by (simp_all add: emit_events_def)

lemma forwarder_tee:
  "forwarder (tee_emit log_emit) sink es (t, w) = (emit_events es t, w @ map (Pair sink) es)"
  by (induction es arbitrary: t w) (simp_all add: tee_emit_def log_emit_def)

lemma warnings_tee:
  "fold (\<lambda>x. emit_ignored (tee_emit log_emit) sink (ConversationWarningEmitted c x)) xs (t, w) =
     (emit_events (map (ConversationWarningEmitted c) xs) t, w @ map (Pair sink) (map (ConversationWarningEmitted c) xs))"
  by (induction xs arbitrary: t w) (simp_all add: tee_log)

lemma run_send_turn_tee:
  "snd (fst (run_send_turn (tee_emit log_emit) sink q attached channel outcome title rok (st, (t, w)))) =
     (emit_events (turn_sequence q channel outcome title) t, w @ map (Pair sink) (turn_sequence q channel outcome title))"
  by (cases outcome; cases title)
    (simp_all add: run_send_turn_def Let_def turn_sequence_def tee_log forwarder_tee warnings_tee)

lemma completed_in_tail:
  assumes "outcome = Inr out"
  shows "AssistantCompleted (tr_conversation q) (tr_request_id q) (to_response out)
    \<in> set (drop (length (turn_sequence q channel outcome title) - INFLIGHT_BROADCAST_CAP) (turn_sequence q channel outcome title))"
proof -
  let ?done = "AssistantCompleted (tr_conversation q) (tr_request_id q) (to_response out)"
  obtain xs ys where split: "turn_sequence q channel outcome title = xs @ ?done # ys" "length ys \<le> 1"
    using assms that[of "UserMessageAdded (tr_conversation q) (tr_request_id q) (tr_content q) (tr_key q) #
        channel @ map (ConversationWarningEmitted (tr_conversation q)) (to_warnings out)"]
    by (cases title) (auto simp: turn_sequence_def)
  then have "length (xs @ ?done # ys) - INFLIGHT_BROADCAST_CAP \<le> length xs"
    by (simp add: INFLIGHT_BROADCAST_CAP_def)
  then show ?thesis unfolding split(1) by (simp add: drop_append)
qed

text \<open>
  a retry that re-attaches to a keyed turn gets the complete answer. However many events the turn
  emitted before the retry came, however far the retry fell behind and however the rest arrived,
  the final reply reaches it under its own request id, while the original caller sees every
  event of the turn, its prompt first.
\<close>

theorem reattached_client_gets_the_reply:
  assumes turn: "run_send_turn (tee_emit log_emit) sink q attached channel (Inr out) title rok (st, (inflight_new, []))
       = ((st', (hub, log)), result)"
    and split: "ift_sent hub = before @ concat batches"
    and snap: "snapshot_and_subscribe (emit_events before inflight_new) = (replay, pos)"
  shows "(k, AssistantCompleted (tr_conversation q) rid (to_response out))
      \<in> set (forward_inflight log_emit replay (emit_events before inflight_new) pos batches rid k [])
     \<and> log = map (Pair sink) (before @ concat batches)
     \<and> hd log = (sink, UserMessageAdded (tr_conversation q) (tr_request_id q) (tr_content q) (tr_key q))"
proof -
  let ?seq = "turn_sequence q channel (Inr out) title"
  have "hub = emit_events ?seq inflight_new" and log: "log = map (Pair sink) ?seq"
    using run_send_turn_tee[of sink q attached channel "Inr out" title rok st inflight_new "[]"] turn by auto
  then have seq: "?seq = before @ concat batches" using split by (simp add: inflight_new_def)
  obtain ds where ds: "forward_inflight log_emit replay (emit_events before inflight_new) pos batches rid k []
      = [] @ map (\<lambda>e. (k, restamp_request_id e rid)) (replay @ ds)"
    "delivers_tail (before @ concat batches) (length before) ds" "replay = drop (length before - INFLIGHT_BUFFER_CAP) before"
    by (rule forward_inflight_log[OF snap])
  have "suffix (drop (length ?seq - INFLIGHT_BROADCAST_CAP) ?seq) (replay @ ds)"
    unfolding seq ds(3) by (rule replay_then_tail(2)[OF ds(2)])
  then have "AssistantCompleted (tr_conversation q) (tr_request_id q) (to_response out) \<in> set (replay @ ds)"
    using completed_in_tail[OF refl, of q out channel title] set_mono_suffix by blast
  then have "(k, AssistantCompleted (tr_conversation q) rid (to_response out))
      \<in> (\<lambda>e. (k, restamp_request_id e rid)) ` set (replay @ ds)"
    by (force intro: image_eqI[rotated])
  then show ?thesis unfolding ds(1) log seq[symmetric] by (simp add: turn_sequence_def image_Un)
qed

theorem reattached_client_gets_the_reply_witness:
  "(0 :: nat, AssistantCompleted ''c'' ''retry'' ''ok'' :: nat event)
     \<in> set (forward_inflight log_emit [UserMessageAdded ''c'' ''r'' ''hi'' (Some ''k'')]
         (emit_events [UserMessageAdded ''c'' ''r'' ''hi'' (Some ''k'')] inflight_new) 1
         [[AssistantDelta ''c'' ''r'' ''ok''], [AssistantCompleted ''c'' ''r'' ''ok'']] ''retry'' 0 [])"
proof -
  let ?user = "UserMessageAdded ''c'' ''r'' ''hi'' (Some ''k'') :: nat event"
  let ?delta = "AssistantDelta ''c'' ''r'' ''ok'' :: nat event"
  let ?out = "\<lparr>to_response = ''ok'', to_warnings = []\<rparr> :: nat turn_outcome"
  obtain st hub log result where turn: "run_send_turn (tee_emit log_emit) (1 :: nat) retry_request True [?delta] (Inr ?out) None True
      ([], (inflight_new, [])) = ((st, (hub, log)), result)" by (metis prod.exhaust)
  have "turn_sequence retry_request [?delta] (Inr ?out) None = [?user, ?delta, AssistantCompleted ''c'' ''r'' ''ok'']"
    by (simp add: turn_sequence_def retry_request_def)
  then have "ift_sent hub = [?user] @ concat [[?delta], [AssistantCompleted ''c'' ''r'' ''ok'']]"
    using run_send_turn_tee[of "1 :: nat" retry_request True "[?delta]" "Inr ?out" None True "[]" inflight_new "[]"] turn
    by (simp add: inflight_new_def emit_event_def)
  moreover have "snapshot_and_subscribe (emit_events [?user] inflight_new) = ([?user], 1)"
    by (simp only: snapshot_emit_events) (simp add: INFLIGHT_BUFFER_CAP_def INFLIGHT_BROADCAST_CAP_def)
  ultimately show ?thesis
    using reattached_client_gets_the_reply[OF turn, of "[?user]" "[[?delta], [AssistantCompleted ''c'' ''r'' ''ok'']]"
        "[?user]" 1 "0 :: nat" "''retry''"]
    by (simp add: retry_request_def)
qed

end
