(* ===== verification/Transcript.thy ===== *)
theory Transcript
  imports Prelude
begin

text \<open>
  The transcript of a conversation and what a round reads of it.

  \<^item> \<open>message\<close> and \<open>role\<close> are \<^verbatim>\<open>Message\<close> and \<^verbatim>\<open>Role\<close> of \<^verbatim>\<open>core/src/domain/message.rs\<close>. A
    constructor takes the id that \<^verbatim>\<open>new_message_id\<close> mints as an argument.
  \<^item> \<open>projection\<close> is \<^verbatim>\<open>ContextProjection\<close> of \<^verbatim>\<open>core/src/context/projection.rs\<close>: the content the
    model reads in place of the stored content, by message id.
  \<^item> The two caps on a tool result of \<^verbatim>\<open>core/src/context/mod.rs\<close>: \<open>cap_stored_tool_result\<close>
    bounds what is written to the store and destroys the rest, \<open>cap_tool_result\<close> bounds what
    the round reads and destroys nothing.
  \<^item> The locale \<open>shrinking_sweep\<close>: a pass over the transcript that replaces some messages in the
    projection by shorter text. The oversize pass here and the evictions of the theory
    \<open>Eviction\<close> are its instances.
\<close>

section \<open>Messages\<close>

datatype role = User | Assistant | SystemRole | ToolRole

record tool_call =
  tc_id :: string
  tc_name :: string
  tc_arguments :: string

record message =
  msg_id :: string
  msg_role :: role
  msg_content :: string
  msg_tool_calls :: "tool_call list"
  msg_tool_call_id :: "string option"
  msg_summary_id :: "string option"
  msg_idempotency_key :: "string option"
  msg_distilled_into :: "string list"

definition message_new :: "string \<Rightarrow> role \<Rightarrow> string \<Rightarrow> message" where
  "message_new new_id r c =
     \<lparr>msg_id = new_id, msg_role = r, msg_content = c, msg_tool_calls = [], msg_tool_call_id = None,
      msg_summary_id = None, msg_idempotency_key = None, msg_distilled_into = []\<rparr>"

definition assistant_with_tool_calls :: "string \<Rightarrow> tool_call list \<Rightarrow> message" where
  "assistant_with_tool_calls new_id calls =
     \<lparr>msg_id = new_id, msg_role = Assistant, msg_content = [], msg_tool_calls = calls,
      msg_tool_call_id = None, msg_summary_id = None, msg_idempotency_key = None,
      msg_distilled_into = []\<rparr>"

definition tool_result :: "string \<Rightarrow> string \<Rightarrow> string \<Rightarrow> message" where
  "tool_result new_id call_id c =
     \<lparr>msg_id = new_id, msg_role = ToolRole, msg_content = c, msg_tool_calls = [],
      msg_tool_call_id = Some call_id, msg_summary_id = None, msg_idempotency_key = None,
      msg_distilled_into = []\<rparr>"

section \<open>The projection of a round\<close>

type_synonym projection = "(string, string) hashmap"

definition projected :: "projection \<Rightarrow> message \<Rightarrow> string" where
  "projected p m = (case hm_get p (msg_id m) of Some c \<Rightarrow> c | None \<Rightarrow> msg_content m)"

definition is_replaced :: "projection \<Rightarrow> message \<Rightarrow> bool" where
  "is_replaced p m \<longleftrightarrow> hm_get p (msg_id m) \<noteq> None"

definition projection_replace :: "message \<Rightarrow> string \<Rightarrow> projection \<Rightarrow> projection" where
  "projection_replace m c p = hm_insert (msg_id m) c p"

definition replaced_count :: "projection \<Rightarrow> nat" where
  "replaced_count p = length p"

named_theorems projection_simps \<open>what a round reads after a replacement\<close>

lemma projected_replace [projection_simps]:
  "projected (projection_replace m c p) m' = (if msg_id m' = msg_id m then c else projected p m')"
  by (simp add: projected_def projection_replace_def hm_simps)

lemma is_replaced_replace [projection_simps]:
  "is_replaced (projection_replace m c p) m' \<longleftrightarrow> msg_id m' = msg_id m \<or> is_replaced p m'"
  by (simp add: is_replaced_def projection_replace_def hm_simps)

lemma projected_Nil [projection_simps]: "projected [] m = msg_content m"
  by (simp add: projected_def)

lemma projected_not_replaced [projection_simps]: "\<not> is_replaced p m \<Longrightarrow> projected p m = msg_content m"
  by (simp add: projected_def is_replaced_def)

lemma hm_ok_replace [simp]: "hm_ok p \<Longrightarrow> hm_ok (projection_replace m c p)"
  by (simp add: projection_replace_def)

section \<open>Passes that shrink what a round reads\<close>

text \<open>
  A pass asks, message by message and in order, whether to replace what the round reads of it,
  and by what. \<open>edit\<close> is that decision. Its laws: a replacement is shorter than what it
  replaces; a message just replaced is left alone when asked again; a replacement of one
  message does not change the decision about another.
\<close>

locale shrinking_sweep =
  fixes edit :: "projection \<Rightarrow> message \<Rightarrow> string option"
    and sweep :: "message list \<Rightarrow> projection \<Rightarrow> projection"
  assumes sweep_Nil: "sweep [] p = p"
    and sweep_Cons: "sweep (m # ms) p =
      sweep ms (case edit p m of None \<Rightarrow> p | Some c \<Rightarrow> projection_replace m c p)"
    and edit_shrinks: "edit p m = Some c \<Longrightarrow> length c < length (projected p m)"
    and edit_settles: "edit p m = Some c \<Longrightarrow> msg_id m' = msg_id m \<Longrightarrow>
      edit (projection_replace m c p) m' = None"
    and edit_local: "msg_id m' \<noteq> msg_id m \<Longrightarrow> edit (projection_replace m c p) m' = edit p m'"
begin

lemma edit_shrinks_same:
  assumes "edit p x = Some c" and "inj_on msg_id (insert m (insert x A))"
  shows "length (projected (projection_replace x c p) m) \<le> length (projected p m)"
proof (cases "msg_id m = msg_id x")
  case True
  then have "m = x" using assms(2) by (auto dest: inj_onD)
  then show ?thesis using edit_shrinks[OF assms(1)] by (simp add: projection_simps)
qed (simp add: projection_simps)

lemma sweep_shrinks:
  "inj_on msg_id (insert m (set ms)) \<Longrightarrow> length (projected (sweep ms p) m) \<le> length (projected p m)"
proof (induction ms arbitrary: p)
  case (Cons x ms)
  have inj: "inj_on msg_id (insert m (set ms))" using Cons.prems by (auto simp: inj_on_def)
  show ?case
  proof (cases "edit p x")
    case (Some c)
    have "length (projected (projection_replace x c p) m) \<le> length (projected p m)"
      using edit_shrinks_same[OF Some, of m "set ms"] Cons.prems by simp
    then show ?thesis using Some Cons.IH[OF inj, of "projection_replace x c p"] by (simp add: sweep_Cons)
  qed (use Cons.IH[OF inj] in \<open>simp add: sweep_Cons\<close>)
qed (simp add: sweep_Nil)

lemma sweep_outside: "msg_id m \<notin> msg_id ` set ms \<Longrightarrow> projected (sweep ms p) m = projected p m"
  by (induction ms arbitrary: p)
    (auto simp: sweep_Nil sweep_Cons projection_simps split: option.split)

lemma sweep_unedited:
  "(\<And>x. x \<in> set ms \<Longrightarrow> edit p x = None) \<Longrightarrow> sweep ms p = p"
  by (induction ms) (auto simp: sweep_Nil sweep_Cons)

lemma edit_None_replace:
  "edit p m = None \<Longrightarrow> edit p x = Some c \<Longrightarrow> edit (projection_replace x c p) m = None"
  by (cases "msg_id m = msg_id x") (auto simp: edit_settles edit_local)

lemma sweep_keeps_None: "edit p m = None \<Longrightarrow> edit (sweep ms p) m = None"
  by (induction ms arbitrary: p) (auto simp: sweep_Nil sweep_Cons edit_None_replace split: option.split)

lemma sweep_settles: "m \<in> set ms \<Longrightarrow> edit (sweep ms p) m = None"
proof (induction ms arbitrary: p)
  case (Cons x ms)
  then show ?case
    by (cases "edit p x") (auto simp: sweep_Cons intro: sweep_keeps_None edit_settles)
qed simp

lemma sweep_idem: "sweep ms (sweep ms p) = sweep ms p"
  by (rule sweep_unedited) (rule sweep_settles)

lemma sweep_read:
  assumes "distinct (map msg_id ms)" "m \<in> set ms"
  shows "projected (sweep ms p) m = (case edit p m of None \<Rightarrow> projected p m | Some c \<Rightarrow> c)"
  using assms
proof (induction ms arbitrary: p)
  case (Cons x ms)
  let ?q = "case edit p x of None \<Rightarrow> p | Some c \<Rightarrow> projection_replace x c p"
  show ?case
  proof (cases "m = x")
    case True
    then have "projected (sweep ms ?q) m = projected ?q m"
      using Cons.prems by (intro sweep_outside) auto
    then show ?thesis using True by (auto simp: sweep_Cons projection_simps split: option.split)
  next
    case False
    then have "m \<in> set ms" "msg_id m \<noteq> msg_id x" using Cons.prems by (auto simp: rev_image_eqI)
    then have "edit ?q m = edit p m" "projected ?q m = projected p m"
      by (auto simp: edit_local projection_simps split: option.split)
    then show ?thesis using Cons.IH[of ?q] Cons.prems \<open>m \<in> set ms\<close>
      by (simp add: sweep_Cons cong: option.case_cong)
  qed
qed simp

end

section \<open>The caps on one tool result\<close>

definition TRANSCRIPT_GET_TOOL :: string where
  "TRANSCRIPT_GET_TOOL = ''builtin_transcript_get''"

definition DEFAULT_MAX_STORED_TOOL_RESULT_BYTES :: nat where
  "DEFAULT_MAX_STORED_TOOL_RESULT_BYTES = 1024 * 1024"

definition STORAGE_CAP_NOTICE_PREFIX :: string where
  "STORAGE_CAP_NOTICE_PREFIX = ''<tool output too large to keep:''"

definition EMPTY_TOOL_RESULT_NOTICE :: string where
  "EMPTY_TOOL_RESULT_NOTICE = ''<the tool call succeeded and returned no output.>''"

definition tool_result_truncation_notice :: "string \<Rightarrow> nat \<Rightarrow> string" where
  "tool_result_truncation_notice message_id stored_bytes =
     [CHR 0x0A, CHR 0x0A] @
     ''<tool output truncated: '' @
     show_nat stored_bytes @
     '' bytes exceeded the per-result context cap, so only the beginning is shown '' @
     ''here. The whole of it is stored under this message: read the rest back in '' @
     ''ranges with '' @
     TRANSCRIPT_GET_TOOL @
     '' message_id='' @
     [CHR 0x22] @
     message_id @
     [CHR 0x22] @
     '' rather than running the tool again. Where the tool does take a narrowing '' @
     ''parameter, asking for less next time is still worth doing - a smaller byte/line '' @
     ''range, a filtered listing, or only the fields you need.>''"

definition remnant_truncation_notice :: "string \<Rightarrow> nat \<Rightarrow> string" where
  "remnant_truncation_notice message_id stored_bytes =
     [CHR 0x0A, CHR 0x0A] @
     ''<tool output truncated twice: the tool returned more than could be stored, so '' @
     ''part of it was dropped for good before this message was written - the note at '' @
     ''the top of this message says how many bytes the tool produced and how many were '' @
     ''dropped. Of the '' @
     show_nat stored_bytes @
     '' bytes that were kept, only the beginning is shown here. Read the KEPT bytes '' @
     ''back in ranges with '' @
     TRANSCRIPT_GET_TOOL @
     '' message_id='' @
     [CHR 0x22] @
     message_id @
     [CHR 0x22] @
     '' - that is all there is, and no reader can hand back the dropped ones. To see '' @
     ''what was dropped, re-run the tool with a narrower request - a smaller byte/line '' @
     ''range, a filtered listing, or only the fields you need.>''"

definition tool_result_storage_notice :: "nat \<Rightarrow> nat \<Rightarrow> string" where
  "tool_result_storage_notice original_bytes dropped_bytes =
     STORAGE_CAP_NOTICE_PREFIX @
     '' the tool produced '' @
     show_nat original_bytes @
     '' bytes, and the last '' @
     show_nat dropped_bytes @
     '' of them were past the per-result storage cap. Those bytes were dropped before '' @
     ''this message was written - they are in no message, in no store, and behind no '' @
     ''reader, so nothing can hand them back. What follows is the beginning of the '' @
     ''output. Re-run the tool with a narrower request - e.g. a smaller byte/line '' @
     ''range, a filtered listing, or only the fields you need - to see what is '' @
     ''missing.>'' @
     [CHR 0x0A, CHR 0x0A]"

text \<open>
  The head of \<open>content\<close> that fits beside \<open>notice\<close>, cut back to a character boundary.
\<close>

definition head_cut :: "string \<Rightarrow> nat \<Rightarrow> nat \<Rightarrow> nat" where
  "head_cut content max_bytes notice_len =
     floor_boundary content (min (max_bytes - notice_len) (length content))"

definition head_with_notice :: "string \<Rightarrow> nat \<Rightarrow> string \<Rightarrow> string" where
  "head_with_notice content max_bytes notice =
     take (head_cut content max_bytes (length notice)) content @ notice"

definition cap_notice :: "string \<Rightarrow> string \<Rightarrow> string" where
  "cap_notice content message_id =
     (if prefix STORAGE_CAP_NOTICE_PREFIX content
      then remnant_truncation_notice message_id (length content)
      else tool_result_truncation_notice message_id (length content))"

definition cap_tool_result :: "string \<Rightarrow> string \<Rightarrow> nat \<Rightarrow> string option" where
  "cap_tool_result content message_id max_bytes =
     (if length content \<le> max_bytes then None
      else Some (head_with_notice content max_bytes (cap_notice content message_id)))"

definition cap_stored_tool_result :: "string \<Rightarrow> nat \<Rightarrow> string option" where
  "cap_stored_tool_result content max_bytes =
     (if length content \<le> max_bytes then None
      else let widest = tool_result_storage_notice (length content) (length content);
               k = head_cut content max_bytes (length widest)
           in Some (tool_result_storage_notice (length content) (length content - k) @ take k content))"

definition head_for_appended_row :: "bool \<Rightarrow> string \<Rightarrow> string \<Rightarrow> nat \<Rightarrow> string option" where
  "head_for_appended_row stored content message_id max_bytes =
     (if \<not> stored then None
      else case cap_tool_result content message_id max_bytes of
             None \<Rightarrow> None
           | Some head \<Rightarrow> if length head < length content then Some head else None)"

text \<open>
  The pass over a loaded conversation, with the count of messages it replaced.
\<close>

fun project_oversized_tool_results :: "message list \<Rightarrow> projection \<Rightarrow> nat \<Rightarrow> projection \<times> nat" where
  "project_oversized_tool_results [] p max_bytes = (p, 0)"
| "project_oversized_tool_results (m # ms) p max_bytes =
     (if msg_role m \<noteq> ToolRole \<or> is_replaced p m then project_oversized_tool_results ms p max_bytes
      else case cap_tool_result (msg_content m) (msg_id m) max_bytes of
             None \<Rightarrow> project_oversized_tool_results ms p max_bytes
           | Some head \<Rightarrow>
               if length (msg_content m) \<le> length head
               then project_oversized_tool_results ms p max_bytes
               else let (p', n) = project_oversized_tool_results ms (projection_replace m head p) max_bytes
                    in (p', Suc n))"

section \<open>What the caps keep\<close>

lemma head_cut_le: "head_cut content max_bytes n \<le> max_bytes - n"
  unfolding head_cut_def using floor_boundary_le[of content "min (max_bytes - n) (length content)"] by simp

lemma head_cut_le_length: "head_cut content max_bytes n \<le> length content"
  unfolding head_cut_def using floor_boundary_le[of content "min (max_bytes - n) (length content)"] by simp

lemma head_cut_boundary [simp]: "is_char_boundary content (head_cut content max_bytes n)"
  by (simp add: head_cut_def)

lemma utf8_valid_head_cut:
  "utf8_valid content \<Longrightarrow> utf8_valid (take (head_cut content max_bytes n) content)"
  by (simp add: utf8_valid_take)

lemma length_head_with_notice:
  "length notice \<le> max_bytes \<Longrightarrow> length (head_with_notice content max_bytes notice) \<le> max_bytes"
  using head_cut_le[of content max_bytes "length notice"] by (simp add: head_with_notice_def)

lemma length_storage_notice_mono:
  "d \<le> e \<Longrightarrow> length (tool_result_storage_notice n d) \<le> length (tool_result_storage_notice n e)"
  by (simp add: tool_result_storage_notice_def length_show_nat_mono)

lemma storage_notice_prefix: "prefix STORAGE_CAP_NOTICE_PREFIX (tool_result_storage_notice n d)"
  by (simp add: tool_result_storage_notice_def)

lemma storage_notice_valid: "utf8_valid (tool_result_storage_notice n d)"
  by (rule utf8_valid_ascii)
    (simp add: tool_result_storage_notice_def STORAGE_CAP_NOTICE_PREFIX_def byte_of_def)

lemma cap_notice_valid:
  assumes "utf8_valid message_id"
  shows "utf8_valid (cap_notice content message_id)"
proof -
  have "utf8_valid (remnant_truncation_notice message_id n)" for n
    unfolding remnant_truncation_notice_def TRANSCRIPT_GET_TOOL_def
    by (intro utf8_valid_append assms) (rule utf8_valid_ascii, simp add: byte_of_def)+
  moreover have "utf8_valid (tool_result_truncation_notice message_id n)" for n
    unfolding tool_result_truncation_notice_def TRANSCRIPT_GET_TOOL_def
    by (intro utf8_valid_append assms) (rule utf8_valid_ascii, simp add: byte_of_def)+
  ultimately show ?thesis by (simp add: cap_notice_def)
qed

lemma cap_tool_result_None: "cap_tool_result content message_id max_bytes = None \<longleftrightarrow> length content \<le> max_bytes"
  by (simp add: cap_tool_result_def)

lemma cap_stored_None: "cap_stored_tool_result content max_bytes = None \<longleftrightarrow> length content \<le> max_bytes"
  by (simp add: cap_stored_tool_result_def Let_def)

lemma valid_boundary_append: "utf8_valid t \<Longrightarrow> is_char_boundary (s @ t) (length s)"
proof (cases t)
  case (Cons b t')
  assume "utf8_valid t"
  then obtain n where "utf8_first (b # t') = Some n"
    using Cons by (auto simp: utf8_valid.simps[of "b # t'"] split: option.splits)
  then have "\<not> is_cont_byte b"
    by (auto simp: is_cont_byte_def byte_in_def split: if_splits)
  then show ?thesis using Cons by (simp add: is_char_boundary_def nth_append)
qed simp

lemma cap_tool_result_prefix:
  assumes "cap_tool_result (s @ t) message_id max_bytes = Some head"
    and "length s + length (cap_notice (s @ t) message_id) \<le> max_bytes"
    and "utf8_valid t"
  shows "prefix s head"
proof -
  let ?n = "length (cap_notice (s @ t) message_id)"
  let ?k = "head_cut (s @ t) max_bytes ?n"
  have "length s \<le> ?k" unfolding head_cut_def
    using assms(2) valid_boundary_append[OF assms(3), of s] floor_boundary_maximal[of "s @ t" _ "length s"]
    by (intro leI notI) auto
  moreover have "head = take ?k (s @ t) @ cap_notice (s @ t) message_id"
    using assms(1) by (auto simp: cap_tool_result_def head_with_notice_def split: if_splits)
  ultimately show ?thesis by simp
qed

text \<open>
  A row the storage cap cut is at most the cap, wherever the cap has room for the notice; its
  bytes are the notice and the longest head of the output that fits; the notice states exactly
  how many bytes the tool produced and how many of them are gone.
\<close>

lemma cap_stored_bound:
  assumes "cap_stored_tool_result content max_bytes = Some row"
    and "length (tool_result_storage_notice (length content) (length content)) \<le> max_bytes"
  shows "length row \<le> max_bytes"
proof -
  let ?w = "length (tool_result_storage_notice (length content) (length content))"
  let ?k = "head_cut content max_bytes ?w"
  have "length row = length (tool_result_storage_notice (length content) (length content - ?k)) + ?k"
    using assms(1) head_cut_le_length[of content max_bytes ?w]
    by (auto simp: cap_stored_tool_result_def Let_def split: if_splits)
  also have "\<dots> \<le> ?w + (max_bytes - ?w)"
    by (intro add_mono length_storage_notice_mono head_cut_le) simp
  finally show ?thesis using assms(2) by simp
qed

lemma cap_stored_row:
  assumes "cap_stored_tool_result content max_bytes = Some row"
  shows "\<exists>k. k < length content \<and> is_char_boundary content k \<and>
    row = tool_result_storage_notice (length content) (length content - k) @ take k content"
proof -
  let ?w = "length (tool_result_storage_notice (length content) (length content))"
  have "\<not> length content \<le> max_bytes" using assms cap_stored_None[of content max_bytes] by simp
  then have "head_cut content max_bytes ?w < length content"
    using head_cut_le[of content max_bytes ?w] by linarith
  moreover have "row = tool_result_storage_notice (length content)
      (length content - head_cut content max_bytes ?w) @ take (head_cut content max_bytes ?w) content"
    using assms unfolding cap_stored_tool_result_def Let_def by (metis option.distinct(1) option.inject)
  ultimately show ?thesis using head_cut_boundary by blast
qed

text \<open>
  A tool result past the storage cap. The row that is written stays within the storage cap
  and is the storage notice, with the exact counts of produced and dropped bytes, followed by
  the part of the output that was kept; the head the round reads of that row stays within the
  context cap, is valid UTF-8, still opens with the whole storage notice and closes with the
  notice for a remnant, which offers the reader for the kept bytes only. The premises on the
  caps say that they have room for the notices.
\<close>

theorem cut_row_reads_true:
  assumes "utf8_valid output" "utf8_valid message_id"
    and row: "cap_stored_tool_result output stored_cap = Some row"
    and head: "cap_tool_result row message_id context_cap = Some head"
    and room: "length (tool_result_storage_notice (length output) (length output)) \<le> stored_cap"
      "length (tool_result_storage_notice (length output) (length output)) +
       length (remnant_truncation_notice message_id (length row)) \<le> context_cap"
  shows "length row \<le> stored_cap \<and> utf8_valid row \<and> length head \<le> context_cap \<and> utf8_valid head \<and>
    (\<exists>kept. prefix kept output \<and>
       row = tool_result_storage_notice (length output) (length output - length kept) @ kept \<and>
       prefix (tool_result_storage_notice (length output) (length output - length kept)) head \<and>
       suffix (remnant_truncation_notice message_id (length row)) head)"
proof -
  obtain k where k: "k < length output" "is_char_boundary output k"
    and rw: "row = tool_result_storage_notice (length output) (length output - k) @ take k output"
    using cap_stored_row[OF row] by blast
  let ?n = "tool_result_storage_notice (length output) (length output - k)"
  have kept: "utf8_valid (take k output)" using assms(1) k by (simp add: utf8_valid_take)
  have rowv: "utf8_valid row" using kept storage_notice_valid rw by (simp add: utf8_valid_append)
  have notice: "cap_notice row message_id = remnant_truncation_notice message_id (length row)"
    using rw storage_notice_prefix prefix_order.trans by (fastforce simp: cap_notice_def)
  have le: "length ?n \<le> length (tool_result_storage_notice (length output) (length output))"
    by (simp add: length_storage_notice_mono)
  have hd: "head = head_with_notice row context_cap (remnant_truncation_notice message_id (length row))"
    using head notice by (auto simp: cap_tool_result_def split: if_splits)
  have "length head \<le> context_cap" using hd room(2) by (simp add: length_head_with_notice)
  moreover have "utf8_valid head" unfolding hd head_with_notice_def notice[symmetric]
    by (intro utf8_valid_append utf8_valid_head_cut rowv cap_notice_valid assms(2))
  moreover have "prefix ?n head"
    using head room(2) le kept notice unfolding rw by (intro cap_tool_result_prefix) auto
  moreover have "suffix (remnant_truncation_notice message_id (length row)) head"
    by (simp add: hd head_with_notice_def suffix_def)
  ultimately show ?thesis
    using cap_stored_bound[OF row room(1)] rowv rw k take_is_prefix[of k "output"]
    by (intro conjI exI[of _ "take k output"]) auto
qed

lemma floor_boundary_ascii: "is_ascii s \<Longrightarrow> n \<le> length s \<Longrightarrow> floor_boundary s n = n"
  by (rule floor_boundary_eq)
    (metis is_ascii_def is_char_boundary_def is_cont_byte_def le_neq_implies_less linorder_not_le list_all_length)

theorem cut_row_reads_true_witness:
  "\<exists>row head. cap_stored_tool_result (replicate 2000 CHR ''x'') 1500 = Some row \<and>
     cap_tool_result row ''m1'' 1450 = Some head \<and> length row \<le> 1500 \<and> length head \<le> 1450 \<and>
     prefix STORAGE_CAP_NOTICE_PREFIX head"
proof -
  let ?o = "replicate 2000 CHR ''x''"
  have asc: "is_ascii ?o" by (simp add: is_ascii_def list_all_length byte_of_def)
  have w: "length (tool_result_storage_notice 2000 2000) = 470"
    and n: "length (tool_result_storage_notice 2000 970) = 469"
    and r: "length (remnant_truncation_notice ''m1'' 1499) = 607"
    by (simp_all add: tool_result_storage_notice_def remnant_truncation_notice_def
        TRANSCRIPT_GET_TOOL_def STORAGE_CAP_NOTICE_PREFIX_def show_nat_step show_nat_small)
  have row: "cap_stored_tool_result ?o 1500 =
      Some (tool_result_storage_notice 2000 970 @ replicate 1030 CHR ''x'')"
    using asc by (simp add: cap_stored_tool_result_def head_cut_def w floor_boundary_ascii Let_def)
  then obtain head where head: "cap_tool_result (tool_result_storage_notice 2000 970 @ replicate 1030 CHR ''x'')
      ''m1'' 1450 = Some head" using n by (auto simp: cap_tool_result_def)
  have "utf8_valid ''m1''" by (rule utf8_valid_ascii) (simp add: byte_of_def)
  then have bounds: "length head \<le> 1450 \<and> (\<exists>d. prefix (tool_result_storage_notice 2000 d) head)"
    using cut_row_reads_true[OF utf8_valid_ascii[OF asc] _ row head] w n r by auto
  then have "prefix STORAGE_CAP_NOTICE_PREFIX head"
    using storage_notice_prefix prefix_order.trans by blast
  then show ?thesis using row head bounds n by auto
qed

section \<open>The oversize pass\<close>

definition oversize_edit :: "nat \<Rightarrow> projection \<Rightarrow> message \<Rightarrow> string option" where
  "oversize_edit max_bytes p m =
     (if msg_role m \<noteq> ToolRole \<or> is_replaced p m then None
      else case cap_tool_result (msg_content m) (msg_id m) max_bytes of
             None \<Rightarrow> None
           | Some head \<Rightarrow> if length (msg_content m) \<le> length head then None else Some head)"

interpretation oversize: shrinking_sweep "oversize_edit max_bytes"
    "\<lambda>ms p. fst (project_oversized_tool_results ms p max_bytes)"
  for max_bytes
proof unfold_locales
  show "length c < length (projected p m)" if "oversize_edit max_bytes p m = Some c" for p m c
    using that by (auto simp: oversize_edit_def projection_simps split: if_splits option.splits)
qed (auto simp: oversize_edit_def projection_simps split: if_splits option.splits prod.splits)

lemma project_oversized_count:
  "replaced_count (fst (project_oversized_tool_results ms p max_bytes)) =
     replaced_count p + snd (project_oversized_tool_results ms p max_bytes)"
  by (induction ms p max_bytes rule: project_oversized_tool_results.induct)
    (auto simp: replaced_count_def projection_replace_def is_replaced_def length_hm_insert_new
      split: option.splits prod.splits)

text \<open>
  The pass that reads oversized tool results as their heads. On a transcript whose message
  ids are distinct, it never makes a round read more of any message; a tool result that nothing
  replaced before it and whose notice fits the cap is read within the cap afterwards; messages
  of the other roles and messages replaced before are read as they were; the count it returns
  is the number of replacements it added; and a second pass changes nothing and counts zero.
\<close>

theorem oversize_pass_bounds_reads:
  assumes "distinct (map msg_id ms)" and "project_oversized_tool_results ms p max_bytes = (q, n)"
  shows "(\<forall>m\<in>set ms. length (projected q m) \<le> length (projected p m)) \<and>
    (\<forall>m\<in>set ms. msg_role m = ToolRole \<and> \<not> is_replaced p m \<and>
       length (cap_notice (msg_content m) (msg_id m)) \<le> max_bytes \<longrightarrow> length (projected q m) \<le> max_bytes) \<and>
    (\<forall>m\<in>set ms. msg_role m \<noteq> ToolRole \<or> is_replaced p m \<longrightarrow> projected q m = projected p m) \<and>
    replaced_count q = replaced_count p + n \<and>
    project_oversized_tool_results ms q max_bytes = (q, 0)"
proof (intro conjI ballI impI)
  have q: "fst (project_oversized_tool_results ms p max_bytes) = q" using assms(2) by simp
  note reads = oversize.sweep_read[OF assms(1), where max_bytes = max_bytes and p = p, unfolded q]
  show "length (projected q m) \<le> length (projected p m)" if "m \<in> set ms" for m
    using oversize.sweep_shrinks[where m = m and ms = ms and max_bytes = max_bytes and p = p] that assms(1) q
    by (simp add: insert_absorb distinct_map)
  show "length (projected q m) \<le> max_bytes" if "m \<in> set ms" and "msg_role m = ToolRole \<and> \<not> is_replaced p m \<and>
       length (cap_notice (msg_content m) (msg_id m)) \<le> max_bytes" for m
    using reads[OF that(1)] that(2) length_head_with_notice[of "cap_notice (msg_content m) (msg_id m)" max_bytes "msg_content m"]
    by (auto simp: oversize_edit_def cap_tool_result_def projection_simps split: if_splits option.splits)
  show "projected q m = projected p m" if "m \<in> set ms" and "msg_role m \<noteq> ToolRole \<or> is_replaced p m" for m
    using reads[OF that(1)] that(2) by (auto simp: oversize_edit_def)
  show count: "replaced_count q = replaced_count p + n"
    using project_oversized_count[of ms p max_bytes] assms(2) by simp
  have "fst (project_oversized_tool_results ms q max_bytes) = q"
    using oversize.sweep_idem[where ms = ms and max_bytes = max_bytes and p = p] q by simp
  then show "project_oversized_tool_results ms q max_bytes = (q, 0)"
    using project_oversized_count[of ms q max_bytes] by (cases "project_oversized_tool_results ms q max_bytes") simp
qed

theorem oversize_pass_bounds_reads_witness:
  "length (projected (fst (project_oversized_tool_results
     [tool_result ''m1'' ''c1'' (replicate 2000 CHR ''x'')] [] 1000)) (tool_result ''m1'' ''c1'' (replicate 2000 CHR ''x'')))
   \<le> 1000"
proof -
  let ?m = "tool_result ''m1'' ''c1'' (replicate 2000 CHR ''x'')"
  have "length (cap_notice (replicate 2000 CHR ''x'') ''m1'') \<le> 1000"
    by (simp add: cap_notice_def tool_result_truncation_notice_def remnant_truncation_notice_def
        TRANSCRIPT_GET_TOOL_def show_nat_step show_nat_small)
  then show ?thesis
    using oversize_pass_bounds_reads[of "[?m]" "[]" 1000] 
    by (cases "project_oversized_tool_results [?m] [] 1000") (simp add: tool_result_def is_replaced_def)
qed

end
