(* ===== verification/Tool_Routing.thy ===== *)
theory Tool_Routing
  imports Prelude
begin

text \<open>
  Composed tool names and the table that resolves them (\<^verbatim>\<open>core/src/tool_routing.rs\<close>).

  \<^item> \<open>compose_name\<close>, \<open>sanitize_segment\<close> and \<open>strip_location\<close>: a tool is offered to the model
    under the root of its location and the sanitised name its provider gave it.
  \<^item> \<open>tool_router\<close> is \<^verbatim>\<open>ToolRouter\<close>: the entries of a round and the refused duplicates.
    \<open>router_insert\<close> admits one entry, promotes one into the block, or refuses it;
    \<open>router_admit\<close> is the loop over a connection's definitions.
  \<^item> The schema of a tool is a JSON value of another crate: the type parameter \<open>'j\<close>.
  \<^item> The lemmas show that names are unique, that no offer changes the tool a name stands for,
    that no provider can name itself out of its root, and that the block only grows at its end.
\<close>

section \<open>Locations, connections and names\<close>

definition MAX_SEGMENT_CHARS :: nat where "MAX_SEGMENT_CHARS = 120"

datatype tool_location = DaemonLoc | ClientLoc

fun location_root :: "tool_location \<Rightarrow> string" where
  "location_root DaemonLoc = ''daemon_''"
| "location_root ClientLoc = ''client_''"

fun location_as_str :: "tool_location \<Rightarrow> string" where
  "location_as_str DaemonLoc = ''daemon''"
| "location_as_str ClientLoc = ''client''"

record tool_connection =
  con_location :: tool_location
  con_namespace :: "string option"

definition daemon_builtins :: tool_connection where
  "daemon_builtins = \<lparr>con_location = DaemonLoc, con_namespace = None\<rparr>"

definition daemon_server :: "string \<Rightarrow> tool_connection" where
  "daemon_server namespace = \<lparr>con_location = DaemonLoc, con_namespace = Some namespace\<rparr>"

definition daemon_registry :: tool_connection where
  "daemon_registry = \<lparr>con_location = DaemonLoc, con_namespace = Some ''registry''\<rparr>"

definition client_device :: tool_connection where
  "client_device = \<lparr>con_location = ClientLoc, con_namespace = None\<rparr>"

definition connection_label :: "tool_connection \<Rightarrow> string" where
  "connection_label c =
     (case con_namespace c of
        Some ns \<Rightarrow> location_as_str (con_location c) @ '':'' @ ns
      | None \<Rightarrow> location_as_str (con_location c) @ '':built-ins'')"

definition is_ascii_alphanumeric :: "char \<Rightarrow> bool" where
  "is_ascii_alphanumeric c \<longleftrightarrow>
     (let b = byte_of c in (48 \<le> b \<and> b \<le> 57) \<or> (65 \<le> b \<and> b \<le> 90) \<or> (97 \<le> b \<and> b \<le> 122))"

definition is_separator :: "char \<Rightarrow> bool" where
  "is_separator c \<longleftrightarrow> c = CHR ''_'' \<or> c = CHR ''-''"

definition trim_separators :: "string \<Rightarrow> string" where
  "trim_separators s = rev (dropWhile is_separator (rev (dropWhile is_separator s)))"

definition sanitize_segment :: "string \<Rightarrow> string option" where
  "sanitize_segment raw =
     (let kept = take MAX_SEGMENT_CHARS (filter (\<lambda>c. is_ascii_alphanumeric c \<or> is_separator c) raw);
          trimmed = trim_separators kept
      in if trimmed = [] then None else Some trimmed)"

definition compose_name :: "tool_location \<Rightarrow> string \<Rightarrow> string option" where
  "compose_name location provider_name =
     map_option (\<lambda>segment. location_root location @ segment) (sanitize_segment provider_name)"

definition strip_prefix :: "string \<Rightarrow> string \<Rightarrow> string option" where
  "strip_prefix p s = (if prefix p s then Some (drop (length p) s) else None)"

definition strip_location :: "string \<Rightarrow> string" where
  "strip_location name =
     (case strip_prefix (location_root DaemonLoc) name of
        Some rest \<Rightarrow> rest
      | None \<Rightarrow> (case strip_prefix (location_root ClientLoc) name of Some rest \<Rightarrow> rest | None \<Rightarrow> name))"

section \<open>The table\<close>

record 'j tool_definition =
  td_name :: string
  td_description :: string
  td_parameters :: 'j

datatype tool_surface = CoreLoop | Block | Deferred | Named

fun in_block :: "tool_surface \<Rightarrow> bool" where
  "in_block CoreLoop = True"
| "in_block Block = True"
| "in_block Deferred = False"
| "in_block Named = False"

record 'j routed_tool =
  rt_advertised :: "'j tool_definition"
  rt_provider_name :: string
  rt_connection :: "tool_connection option"
  rt_surface :: tool_surface

definition is_client :: "'j routed_tool \<Rightarrow> bool" where
  "is_client e \<longleftrightarrow> (case rt_connection e of Some c \<Rightarrow> con_location c = ClientLoc | None \<Rightarrow> False)"

record duplicate_name =
  dn_name :: string
  dn_held_by :: string
  dn_refused :: string

record 'j tool_router =
  tr_entries :: "'j routed_tool list"
  tr_duplicates :: "duplicate_name list"

definition router_new :: "'j tool_router" where
  "router_new = \<lparr>tr_entries = [], tr_duplicates = []\<rparr>"

definition claimant :: "tool_connection option \<Rightarrow> string \<Rightarrow> string" where
  "claimant connection provider_name =
     (case connection of None \<Rightarrow> ''core-loop'' | Some c \<Rightarrow> connection_label c) @ ''/'' @ provider_name"

text \<open>\<^verbatim>\<open>iter().position(..)\<close>: the first index whose element satisfies the predicate.\<close>

fun position :: "('a \<Rightarrow> bool) \<Rightarrow> 'a list \<Rightarrow> nat option" where
  "position P [] = None"
| "position P (x # xs) = (if P x then Some 0 else map_option Suc (position P xs))"

definition router_insert ::
  "'j tool_definition \<Rightarrow> string \<Rightarrow> tool_connection option \<Rightarrow> tool_surface \<Rightarrow> 'j tool_router \<Rightarrow> 'j tool_router" where
  "router_insert advertised provider_name connection surface r =
     (case position (\<lambda>e. td_name (rt_advertised e) = td_name advertised) (tr_entries r) of
        Some i \<Rightarrow>
          (let held = tr_entries r ! i
           in if rt_connection held = connection \<and> rt_provider_name held = provider_name
              then (if \<not> in_block (rt_surface held) \<and> in_block surface
                    then r\<lparr>tr_entries := take i (tr_entries r) @ drop (Suc i) (tr_entries r) @
                             [held\<lparr>rt_surface := surface, rt_advertised := advertised\<rparr>]\<rparr>
                    else r)
              else r\<lparr>tr_duplicates := tr_duplicates r @
                       [\<lparr>dn_name = td_name advertised,
                         dn_held_by = claimant (rt_connection held) (rt_provider_name held),
                         dn_refused = claimant connection provider_name\<rparr>]\<rparr>)
      | None \<Rightarrow>
          r\<lparr>tr_entries := tr_entries r @
              [\<lparr>rt_advertised = advertised, rt_provider_name = provider_name, rt_connection = connection,
                rt_surface = surface\<rparr>]\<rparr>)"

fun router_admit ::
  "tool_connection \<Rightarrow> 'j tool_definition list \<Rightarrow> tool_surface \<Rightarrow> 'j tool_router \<Rightarrow> 'j tool_router" where
  "router_admit connection [] surface r = r"
| "router_admit connection (def # defs) surface r =
     (case compose_name (con_location connection) (td_name def) of
        None \<Rightarrow> router_admit connection defs surface r
      | Some name \<Rightarrow>
          router_admit connection defs surface
            (router_insert (def\<lparr>td_name := name\<rparr>) (td_name def) (Some connection) surface r))"

definition offer :: "tool_connection \<Rightarrow> 'j tool_definition list \<Rightarrow> 'j tool_router \<Rightarrow> 'j tool_router" where
  "offer connection defs r = router_admit connection defs Block r"

definition offer_deferred :: "tool_connection \<Rightarrow> 'j tool_definition list \<Rightarrow> 'j tool_router \<Rightarrow> 'j tool_router" where
  "offer_deferred connection defs r = router_admit connection defs Deferred r"

definition offer_named :: "tool_connection \<Rightarrow> 'j tool_definition list \<Rightarrow> 'j tool_router \<Rightarrow> 'j tool_router" where
  "offer_named connection defs r = router_admit connection defs Named r"

definition offer_core_loop_tool :: "'j tool_definition \<Rightarrow> 'j tool_router \<Rightarrow> 'j tool_router" where
  "offer_core_loop_tool def r = router_insert def (td_name def) None CoreLoop r"

definition retain_tools :: "(string \<Rightarrow> bool) \<Rightarrow> 'j tool_router \<Rightarrow> 'j tool_router" where
  "retain_tools keep r = r\<lparr>tr_entries := filter (\<lambda>e. keep (rt_provider_name e)) (tr_entries r)\<rparr>"

definition resolve :: "'j tool_router \<Rightarrow> string \<Rightarrow> 'j routed_tool option" where
  "resolve r name = List.find (\<lambda>e. td_name (rt_advertised e) = name) (tr_entries r)"

definition resolve_on :: "'j tool_router \<Rightarrow> tool_connection \<Rightarrow> string \<Rightarrow> 'j routed_tool option" where
  "resolve_on r connection tool_name =
     List.find (\<lambda>e. rt_connection e = Some connection \<and> rt_provider_name e = tool_name) (tr_entries r)"

definition advertises :: "'j tool_router \<Rightarrow> tool_connection \<Rightarrow> string \<Rightarrow> bool" where
  "advertises r connection tool_name =
     (case resolve_on r connection tool_name of Some e \<Rightarrow> in_block (rt_surface e) | None \<Rightarrow> False)"

definition advertised_definitions :: "'j tool_router \<Rightarrow> 'j tool_definition list" where
  "advertised_definitions r = map rt_advertised (filter (\<lambda>e. in_block (rt_surface e)) (tr_entries r))"

definition named_only_names :: "'j tool_router \<Rightarrow> string list" where
  "named_only_names r = map (\<lambda>e. td_name (rt_advertised e)) (filter (\<lambda>e. rt_surface e = Named) (tr_entries r))"

definition advertised_names_at :: "'j tool_router \<Rightarrow> tool_location \<Rightarrow> string list" where
  "advertised_names_at r location =
     map (\<lambda>e. td_name (rt_advertised e))
       (filter (\<lambda>e. case rt_connection e of Some c \<Rightarrow> con_location c = location | None \<Rightarrow> False) (tr_entries r))"

section \<open>Names stay in their root\<close>

abbreviation entry_name :: "'j routed_tool \<Rightarrow> string" where
  "entry_name e \<equiv> td_name (rt_advertised e)"

abbreviation same_tool :: "'j routed_tool \<Rightarrow> 'j routed_tool \<Rightarrow> bool" where
  "same_tool e e' \<equiv> rt_connection e' = rt_connection e \<and> rt_provider_name e' = rt_provider_name e"

lemma trim_separators_subset: "set (trim_separators s) \<subseteq> set s"
  by (auto simp: trim_separators_def dest!: set_dropWhileD)

lemma length_trim_separators: "length (trim_separators s) \<le> length s"
  unfolding trim_separators_def length_rev
  by (rule order_trans[OF length_dropWhile_le]) (simp add: length_dropWhile_le)

lemma trim_separators_ends:
  assumes "trim_separators s \<noteq> []"
  shows "\<not> is_separator (hd (trim_separators s)) \<and> \<not> is_separator (last (trim_separators s))"
proof -
  let ?t = "dropWhile is_separator s"
  let ?u = "dropWhile is_separator (rev ?t)"
  have u: "?u \<noteq> []" using assms by (simp add: trim_separators_def)
  then have t: "?t \<noteq> []" by (metis dropWhile.simps(1) rev.simps(1))
  have "last ?u = last (rev ?t)"
    using u suffix_dropWhile[of is_separator "rev ?t"] unfolding suffix_def by (metis last_appendR)
  then have "last ?u = hd ?t" using t by (simp add: last_rev)
  then show ?thesis
    using hd_dropWhile[OF t] hd_dropWhile[OF u] u by (simp add: trim_separators_def hd_rev last_rev)
qed

lemma strip_location_root [simp]: "strip_location (location_root l @ segment) = segment"
  by (cases l) (simp_all add: strip_location_def strip_prefix_def)

lemma composed_segment:
  assumes "compose_name location provider_name = Some name"
  shows "\<exists>segment. name = location_root location @ segment \<and> segment \<noteq> [] \<and>
    length segment \<le> MAX_SEGMENT_CHARS \<and>
    (\<forall>c\<in>set segment. is_ascii_alphanumeric c \<or> is_separator c) \<and> set segment \<subseteq> set provider_name \<and>
    \<not> is_separator (hd segment) \<and> \<not> is_separator (last segment) \<and>
    strip_location name = segment"
proof -
  let ?kept = "take MAX_SEGMENT_CHARS (filter (\<lambda>c. is_ascii_alphanumeric c \<or> is_separator c) provider_name)"
  let ?seg = "trim_separators ?kept"
  have name: "name = location_root location @ ?seg" "?seg \<noteq> []"
    using assms by (auto simp: compose_name_def sanitize_segment_def Let_def split: if_splits)
  have sub: "set ?seg \<subseteq> set ?kept" by (rule trim_separators_subset)
  then have "set ?seg \<subseteq> set provider_name" "\<forall>c\<in>set ?seg. is_ascii_alphanumeric c \<or> is_separator c"
    by (fastforce dest: in_set_takeD)+
  moreover have "length ?seg \<le> MAX_SEGMENT_CHARS"
    using length_trim_separators[of ?kept] by simp
  moreover have "strip_location name = ?seg" unfolding name(1) by (rule strip_location_root)
  ultimately show ?thesis using name trim_separators_ends[OF name(2)] by (intro exI[of _ ?seg] conjI) blast+
qed

lemma root_of_name: "prefix (location_root other) (location_root location @ segment) \<Longrightarrow> other = location"
  by (cases other; cases location) simp_all

text \<open>
  No provider names itself out of its root. A composed name is the root of the tool's own
  location followed by a segment of letters, digits, underscores and hyphens, at most 120 bytes
  long, that neither begins nor ends with a separator; it carries the root of no other
  location; and removing the root gives the segment back.
\<close>

theorem composed_name_stays_in_root:
  assumes "compose_name location provider_name = Some name"
  shows "\<exists>segment. name = location_root location @ segment \<and> segment \<noteq> [] \<and>
    length segment \<le> MAX_SEGMENT_CHARS \<and>
    (\<forall>c\<in>set segment. is_ascii_alphanumeric c \<or> is_separator c) \<and> set segment \<subseteq> set provider_name \<and>
    \<not> is_separator (hd segment) \<and> \<not> is_separator (last segment) \<and>
    (\<forall>other. prefix (location_root other) name \<longrightarrow> other = location) \<and>
    strip_location name = segment"
  using composed_segment[OF assms] root_of_name by blast

section \<open>One table, one answer\<close>

lemma position_Some:
  "position P xs = Some i \<Longrightarrow> i < length xs \<and> P (xs ! i) \<and> List.find P xs = Some (xs ! i)"
  by (induction xs arbitrary: i) (auto split: if_splits)

lemma position_None: "position P xs = None \<Longrightarrow> List.find P xs = None"
  by (induction xs) (auto split: if_splits)

definition entry_ok :: "'j routed_tool \<Rightarrow> bool" where
  "entry_ok e \<longleftrightarrow>
     (case rt_connection e of
        Some c \<Rightarrow> rt_surface e \<noteq> CoreLoop \<and> compose_name (con_location c) (rt_provider_name e) = Some (entry_name e)
      | None \<Rightarrow> rt_surface e = CoreLoop \<and> entry_name e = rt_provider_name e)"

definition router_ok :: "'j tool_router \<Rightarrow> bool" where
  "router_ok r \<longleftrightarrow> distinct (map entry_name (tr_entries r)) \<and> (\<forall>e\<in>set (tr_entries r). entry_ok e)"

lemma resolve_entry:
  "distinct (map entry_name (tr_entries r)) \<Longrightarrow> e \<in> set (tr_entries r) \<Longrightarrow> resolve r (entry_name e) = Some e"
  unfolding resolve_def
proof (induction "tr_entries r" arbitrary: r)
  case (Cons x xs)
  from Cons.prems Cons.hyps(2)[symmetric] Cons.hyps(1)[of "r\<lparr>tr_entries := xs\<rparr>"] show ?case
    by (auto simp: rev_image_eqI)
qed simp

lemma resolve_Some: "resolve r n = Some e \<Longrightarrow> e \<in> set (tr_entries r) \<and> entry_name e = n"
  by (auto simp: resolve_def find_Some_iff)

text \<open>The three outcomes of an insertion.\<close>

lemma router_insert_cases:
  fixes r :: "'j tool_router"
  assumes "r' = router_insert d p c sf r"
  obtains (fresh) "resolve r (td_name d) = None"
      "r' = r\<lparr>tr_entries := tr_entries r @ [\<lparr>rt_advertised = d, rt_provider_name = p, rt_connection = c, rt_surface = sf\<rparr>]\<rparr>"
  | (kept) held where "resolve r (td_name d) = Some held" "rt_connection held = c" "rt_provider_name held = p"
      "in_block (rt_surface held) \<or> \<not> in_block sf" "r' = r"
  | (promoted) xs held ys where "tr_entries r = xs @ held # ys" "entry_name held = td_name d"
      "resolve r (td_name d) = Some held"
      "rt_connection held = c" "rt_provider_name held = p" "\<not> in_block (rt_surface held)" "in_block sf"
      "r' = r\<lparr>tr_entries := xs @ ys @ [held\<lparr>rt_surface := sf, rt_advertised := d\<rparr>]\<rparr>"
  | (refused) held where "resolve r (td_name d) = Some held"
      "rt_connection held \<noteq> c \<or> rt_provider_name held \<noteq> p"
      "r' = r\<lparr>tr_duplicates := tr_duplicates r @ [\<lparr>dn_name = td_name d,
          dn_held_by = claimant (rt_connection held) (rt_provider_name held), dn_refused = claimant c p\<rparr>]\<rparr>"
proof (cases "position (\<lambda>e. entry_name e = td_name d) (tr_entries r)")
  case None
  then show thesis using assms fresh position_None[OF None] by (simp add: router_insert_def resolve_def)
next
  case (Some i)
  let ?h = "tr_entries r ! i"
  note pos = position_Some[OF Some]
  then have res: "resolve r (td_name d) = Some ?h" by (simp add: resolve_def)
  consider (a) "rt_connection ?h = c" "rt_provider_name ?h = p" "\<not> in_block (rt_surface ?h)" "in_block sf"
    | (b) "rt_connection ?h = c" "rt_provider_name ?h = p" "in_block (rt_surface ?h) \<or> \<not> in_block sf"
    | (c) "rt_connection ?h \<noteq> c \<or> rt_provider_name ?h \<noteq> p" by blast
  then show thesis
  proof cases
    case a
    then show thesis using assms Some pos
      by (intro promoted[of "take i (tr_entries r)" ?h "drop (Suc i) (tr_entries r)"] res)
        (simp_all add: router_insert_def id_take_nth_drop[symmetric])
  next
    case b
    then show thesis using assms Some res by (intro kept[of ?h]) (auto simp: router_insert_def Let_def)
  next
    case c
    then show thesis using assms Some res by (intro refused[of ?h]) (auto simp: router_insert_def Let_def)
  qed
qed

lemma router_ok_insert:
  assumes "router_ok r" and "entry_ok \<lparr>rt_advertised = d, rt_provider_name = p, rt_connection = c, rt_surface = sf\<rparr>"
  shows "router_ok (router_insert d p c sf r)"
proof (rule router_insert_cases[where r' = "router_insert d p c sf r" and d = d and p = p and c = c and sf = sf and r = r])
  assume "resolve r (td_name d) = None" "router_insert d p c sf r =
      r\<lparr>tr_entries := tr_entries r @ [\<lparr>rt_advertised = d, rt_provider_name = p, rt_connection = c, rt_surface = sf\<rparr>]\<rparr>"
  then show ?thesis using assms by (auto simp: router_ok_def resolve_def find_None_iff)
next
  fix xs held ys
  assume "tr_entries r = xs @ held # ys" "entry_name held = td_name d" "rt_connection held = c"
    "rt_provider_name held = p" "in_block sf"
    "router_insert d p c sf r = r\<lparr>tr_entries := xs @ ys @ [held\<lparr>rt_surface := sf, rt_advertised := d\<rparr>]\<rparr>"
  then show ?thesis using assms by (auto simp: router_ok_def entry_ok_def split: option.splits)
qed (use assms in \<open>simp_all add: router_ok_def\<close>)

lemma router_ok_admit:
  "router_ok r \<Longrightarrow> sf \<noteq> CoreLoop \<Longrightarrow> router_ok (router_admit c defs sf r)"
proof (induction c defs sf r rule: router_admit.induct)
  case (2 connection def defs surface r)
  show ?case
  proof (cases "compose_name (con_location connection) (td_name def)")
    case (Some name)
    then have "router_ok (router_insert (def\<lparr>td_name := name\<rparr>) (td_name def) (Some connection) surface r)"
      using 2(3,4) by (intro router_ok_insert) (simp_all add: entry_ok_def)
    then show ?thesis using 2(2)[OF Some] 2(4) Some by simp
  qed (use 2 in simp)
qed simp

text \<open>What a round does with its table: offers on the four surfaces, and the allowlist.\<close>

inductive router_step :: "'j tool_router \<Rightarrow> 'j tool_router \<Rightarrow> bool" where
  step_offer: "router_step r (offer c defs r)"
| step_deferred: "router_step r (offer_deferred c defs r)"
| step_named: "router_step r (offer_named c defs r)"
| step_core: "router_step r (offer_core_loop_tool def r)"
| step_retain: "router_step r (retain_tools keep r)"

interpretation router_sys: invariant_system "\<lambda>r. r = router_new" router_step router_ok
proof unfold_locales
  show "router_ok t" if "router_ok s" and "router_step s t" for s t :: "'a tool_router"
    using that(2,1)
  proof cases
    case (step_core def)
    then show ?thesis using that(1)
      by (auto simp: offer_core_loop_tool_def entry_ok_def intro!: router_ok_insert)
  next
    case (step_retain keep)
    then show ?thesis using that(1)
      by (auto simp: retain_tools_def router_ok_def distinct_map_filter)
  qed (use that(1) in \<open>simp_all add: offer_def offer_deferred_def offer_named_def router_ok_admit\<close>)
qed (simp add: router_new_def router_ok_def)

text \<open>
  C19: In every table a round can build, a name stands for one tool: no two entries share a
  name, each entry's name is composed from its own connection and its provider's name (or is
  the loop's own tool, under its bare name), and every definition the model is shown resolves
  to the entry that holds this very definition. So the schema the model reads and the tool a
  call reaches cannot be two answers.
\<close>

theorem table_has_one_answer:
  assumes "reachable (\<lambda>r. r = router_new) router_step r"
  shows "distinct (map entry_name (tr_entries r)) \<and>
    (\<forall>e\<in>set (tr_entries r). resolve r (entry_name e) = Some e \<and>
       (case rt_connection e of
          Some c \<Rightarrow> compose_name (con_location c) (rt_provider_name e) = Some (entry_name e)
        | None \<Rightarrow> rt_surface e = CoreLoop \<and> entry_name e = rt_provider_name e)) \<and>
    (\<forall>d\<in>set (advertised_definitions r). \<exists>e. resolve r (td_name d) = Some e \<and> rt_advertised e = d)"
proof -
  have ok: "router_ok r" by (rule router_sys.reachable_inv) (rule assms)
  then have dist: "distinct (map entry_name (tr_entries r))" by (simp add: router_ok_def)
  have "\<exists>e. resolve r (td_name d) = Some e \<and> rt_advertised e = d" if "d \<in> set (advertised_definitions r)" for d
    using that resolve_entry[OF dist] by (auto simp: advertised_definitions_def)
  moreover have "case rt_connection e of
          Some c \<Rightarrow> compose_name (con_location c) (rt_provider_name e) = Some (entry_name e)
        | None \<Rightarrow> rt_surface e = CoreLoop \<and> entry_name e = rt_provider_name e" if "e \<in> set (tr_entries r)" for e
    using ok that by (fastforce simp: router_ok_def entry_ok_def split: option.splits)
  ultimately show ?thesis using dist resolve_entry[OF dist] by blast
qed

text \<open>
  One insertion, seen from the names already in the table: each still stands for the same
  tool, a tool in the block stays there, and the block grows at its end only.
\<close>

definition extends :: "'j tool_router \<Rightarrow> 'j tool_router \<Rightarrow> bool" where
  "extends r r' \<longleftrightarrow> prefix (advertised_definitions r) (advertised_definitions r') \<and>
     prefix (tr_duplicates r) (tr_duplicates r') \<and>
     (\<forall>n e. resolve r n = Some e \<longrightarrow>
        (\<exists>e'. resolve r' n = Some e' \<and> same_tool e e' \<and> (in_block (rt_surface e) \<longrightarrow> e' = e)))"

lemma extends_refl [simp]: "extends r r"
  by (simp add: extends_def)

lemma extendsD:
  "extends r r' \<Longrightarrow> resolve r n = Some e \<Longrightarrow>
     \<exists>e'. resolve r' n = Some e' \<and> same_tool e e' \<and> (in_block (rt_surface e) \<longrightarrow> e' = e)"
  unfolding extends_def by blast

lemma extends_trans:
  assumes "extends r r'" "extends r' r''"
  shows "extends r r''"
proof -
  have "\<exists>e''. resolve r'' n = Some e'' \<and> same_tool e e'' \<and> (in_block (rt_surface e) \<longrightarrow> e'' = e)"
    if "resolve r n = Some e" for n e
    using extendsD[OF assms(1) that] extendsD[OF assms(2)] by fastforce
  then show ?thesis using assms unfolding extends_def by (meson prefix_order.trans)
qed

lemma find_append: "List.find P (xs @ ys) = (case List.find P xs of Some x \<Rightarrow> Some x | None \<Rightarrow> List.find P ys)"
  by (induction xs) auto

lemma resolve_moved:
  assumes "router_ok r" and "tr_entries r = xs @ held # ys" and "entry_name held = td_name d"
  shows "resolve (r\<lparr>tr_entries := xs @ ys @ [held\<lparr>rt_surface := sf, rt_advertised := d\<rparr>]\<rparr>) n =
    (if n = td_name d then Some (held\<lparr>rt_surface := sf, rt_advertised := d\<rparr>) else resolve r n)"
proof -
  have "td_name d \<notin> entry_name ` set (xs @ ys)" using assms by (auto simp: router_ok_def)
  then have "List.find (\<lambda>e. entry_name e = td_name d) xs = None" "List.find (\<lambda>e. entry_name e = td_name d) ys = None"
    unfolding find_None_iff by (metis UnI1 UnI2 imageI set_append)+
  then show ?thesis using assms(2,3) by (auto simp: resolve_def find_append split: option.splits)
qed

lemma extends_insert: "router_ok r \<Longrightarrow> extends r (router_insert d p c sf r)"
proof (rule router_insert_cases[where r' = "router_insert d p c sf r" and d = d and p = p and c = c and sf = sf and r = r])
  assume "resolve r (td_name d) = None" "router_insert d p c sf r =
      r\<lparr>tr_entries := tr_entries r @ [\<lparr>rt_advertised = d, rt_provider_name = p, rt_connection = c, rt_surface = sf\<rparr>]\<rparr>"
  then show "extends r (router_insert d p c sf r)"
    by (auto simp: extends_def advertised_definitions_def resolve_def find_append)
next
  fix xs held ys
  assume ok: "router_ok r" and es: "tr_entries r = xs @ held # ys" "entry_name held = td_name d"
    and res: "resolve r (td_name d) = Some held" and out: "\<not> in_block (rt_surface held)"
    and r': "router_insert d p c sf r = r\<lparr>tr_entries := xs @ ys @ [held\<lparr>rt_surface := sf, rt_advertised := d\<rparr>]\<rparr>"
  have "prefix (advertised_definitions r) (advertised_definitions (router_insert d p c sf r))"
    using es out by (simp add: r' advertised_definitions_def)
  then show "extends r (router_insert d p c sf r)"
    using res out by (auto simp: extends_def r' resolve_moved[OF ok es])
next
  fix held
  assume "router_insert d p c sf r = r\<lparr>tr_duplicates := tr_duplicates r @ [\<lparr>dn_name = td_name d,
          dn_held_by = claimant (rt_connection held) (rt_provider_name held), dn_refused = claimant c p\<rparr>]\<rparr>"
  then show "extends r (router_insert d p c sf r)"
    by (simp add: extends_def advertised_definitions_def resolve_def)
qed simp_all

text \<open>What became of one definition: it is in the table, or its refusal is on record.\<close>

definition settled :: "tool_connection \<Rightarrow> tool_surface \<Rightarrow> string \<Rightarrow> string \<Rightarrow> 'j tool_router \<Rightarrow> bool" where
  "settled c sf provider name r \<longleftrightarrow>
     (\<exists>e. resolve r name = Some e \<and> rt_connection e = Some c \<and> rt_provider_name e = provider \<and>
        (in_block sf \<longrightarrow> in_block (rt_surface e))) \<or>
     (\<exists>d\<in>set (tr_duplicates r). dn_name d = name \<and> dn_refused d = claimant (Some c) provider)"

lemma settled_extends:
  assumes "settled c sf provider name r" "extends r r'"
  shows "settled c sf provider name r'"
proof (cases "\<exists>d\<in>set (tr_duplicates r). dn_name d = name \<and> dn_refused d = claimant (Some c) provider")
  case True
  then show ?thesis using assms(2) by (auto simp: extends_def settled_def prefix_def)
next
  case False
  then obtain e where e: "resolve r name = Some e" "rt_connection e = Some c" "rt_provider_name e = provider"
    "in_block sf \<longrightarrow> in_block (rt_surface e)" using assms(1) by (auto simp: settled_def)
  obtain e' where "resolve r' name = Some e'" "same_tool e e'" "in_block (rt_surface e) \<longrightarrow> e' = e"
    using extendsD[OF assms(2) e(1)] by blast
  then show ?thesis using e unfolding settled_def by auto
qed

lemma settled_insert: "router_ok r \<Longrightarrow> settled c sf p (td_name d) (router_insert d p (Some c) sf r)"
proof (rule router_insert_cases[where r' = "router_insert d p (Some c) sf r" and d = d and p = p and c = "Some c" and sf = sf and r = r])
  assume "resolve r (td_name d) = None" "router_insert d p (Some c) sf r =
      r\<lparr>tr_entries := tr_entries r @ [\<lparr>rt_advertised = d, rt_provider_name = p, rt_connection = Some c, rt_surface = sf\<rparr>]\<rparr>"
  then show "settled c sf p (td_name d) (router_insert d p (Some c) sf r)"
    by (simp add: settled_def resolve_def find_append)
next
  fix xs held ys
  assume ok: "router_ok r" and es: "tr_entries r = xs @ held # ys" "entry_name held = td_name d"
    and held: "rt_connection held = Some c" "rt_provider_name held = p"
    and r': "router_insert d p (Some c) sf r = r\<lparr>tr_entries := xs @ ys @ [held\<lparr>rt_surface := sf, rt_advertised := d\<rparr>]\<rparr>"
  then show "settled c sf p (td_name d) (router_insert d p (Some c) sf r)"
    by (simp add: settled_def resolve_moved[OF ok es])
qed (auto simp: settled_def)

lemma admit_settles:
  "router_ok r \<Longrightarrow> sf \<noteq> CoreLoop \<Longrightarrow> extends r (router_admit c defs sf r) \<and>
     (\<forall>def\<in>set defs. \<forall>name. compose_name (con_location c) (td_name def) = Some name \<longrightarrow>
        settled c sf (td_name def) name (router_admit c defs sf r))"
proof (induction c defs sf r rule: router_admit.induct)
  case (2 c def defs sf r)
  show ?case
  proof (cases "compose_name (con_location c) (td_name def)")
    case (Some name)
    let ?r = "router_insert (def\<lparr>td_name := name\<rparr>) (td_name def) (Some c) sf r"
    have ok: "router_ok ?r" using 2(3,4) Some by (intro router_ok_insert) (simp_all add: entry_ok_def)
    note IH = 2(2)[OF Some ok 2(4)]
    have "settled c sf (td_name def) name ?r" using settled_insert[OF 2(3), of c sf "td_name def" "def\<lparr>td_name := name\<rparr>"] by simp
    then have "settled c sf (td_name def) name (router_admit c defs sf ?r)" using settled_extends IH by blast
    moreover have "extends r (router_admit c defs sf ?r)"
      using IH extends_trans[OF extends_insert[OF 2(3)]] by blast
    ultimately show ?thesis using IH Some by simp
  qed (use 2 in simp)
qed simp

text \<open>
  What an offer does to a round's table. Every name already in the table stands for the
  same tool afterwards, and a tool the block already showed is shown unchanged; the block of
  definitions grows at its end only; and each definition offered under a usable name is
  afterwards in the table, in the block if it was offered there, or its refusal is recorded
  against the tool that holds the name.
\<close>

theorem offer_never_reroutes:
  assumes "reachable (\<lambda>r. r = router_new) router_step r" and "surface \<noteq> CoreLoop"
    and "r' = router_admit c defs surface r"
  shows "(\<forall>n e. resolve r n = Some e \<longrightarrow>
      (\<exists>e'. resolve r' n = Some e' \<and> rt_connection e' = rt_connection e \<and>
        rt_provider_name e' = rt_provider_name e \<and> (in_block (rt_surface e) \<longrightarrow> e' = e))) \<and>
    prefix (advertised_definitions r) (advertised_definitions r') \<and>
    (\<forall>def\<in>set defs. \<forall>name. compose_name (con_location c) (td_name def) = Some name \<longrightarrow>
       (\<exists>e. resolve r' name = Some e \<and> rt_connection e = Some c \<and> rt_provider_name e = td_name def \<and>
          (in_block surface \<longrightarrow> in_block (rt_surface e))) \<or>
       (\<exists>d\<in>set (tr_duplicates r'). dn_name d = name \<and> dn_refused d = claimant (Some c) (td_name def)))"
proof -
  have "router_ok r" by (rule router_sys.reachable_inv) (rule assms(1))
  note admitted = admit_settles[OF this assms(2), of c defs, folded assms(3)]
  then show ?thesis unfolding extends_def settled_def by blast
qed

section \<open>Witnesses\<close>

theorem composed_name_stays_in_root_witness:
  "compose_name ClientLoc ''daemon_read'' = Some ''client_daemon_read'' \<and>
   \<not> prefix (location_root DaemonLoc) ''client_daemon_read'' \<and>
   strip_location ''client_daemon_read'' = ''daemon_read''"
proof -
  have c: "compose_name ClientLoc ''daemon_read'' = Some ''client_daemon_read''" by code_simp
  show ?thesis using composed_name_stays_in_root[OF c] c by auto
qed

definition wit_def :: "string \<Rightarrow> unit tool_definition" where
  "wit_def n = \<lparr>td_name = n, td_description = [], td_parameters = ()\<rparr>"

definition wit_router :: "unit tool_router" where
  "wit_router = offer_deferred (daemon_server ''fileio'') [wit_def ''fileio__read''] router_new"

lemma wit_router_reachable: "reachable (\<lambda>r. r = router_new) router_step wit_router"
proof -
  have "reachable (\<lambda>r. r = router_new) router_step (router_new :: unit tool_router)" by (rule reach_init) simp
  then show ?thesis unfolding wit_router_def by (rule reach_step) (rule step_deferred)
qed

theorem table_has_one_answer_witness:
  "distinct (map entry_name (tr_entries wit_router)) \<and> length (tr_entries wit_router) = 1"
proof -
  have "length (tr_entries wit_router) = 1" by code_simp
  then show ?thesis using table_has_one_answer[OF wit_router_reachable] by blast
qed

theorem offer_never_reroutes_witness:
  "\<exists>e. resolve (offer (daemon_server ''fileio'') [wit_def ''fileio__read''] wit_router) ''daemon_fileio__read'' = Some e \<and>
     rt_connection e = Some (daemon_server ''fileio'') \<and> rt_provider_name e = ''fileio__read''"
proof -
  have "resolve wit_router ''daemon_fileio__read'' =
      Some \<lparr>rt_advertised = wit_def ''daemon_fileio__read'', rt_provider_name = ''fileio__read'',
        rt_connection = Some (daemon_server ''fileio''), rt_surface = Deferred\<rparr>" by code_simp
  then show ?thesis
    using offer_never_reroutes[OF wit_router_reachable _ refl, of Block "daemon_server ''fileio''" "[wit_def ''fileio__read'']"]
    by (fastforce simp: offer_def)
qed

text \<open>
  Two connections can share a label: the daemon's own built-ins and a server the operator
  configured under the name \<^verbatim>\<open>built-ins\<close>.
\<close>

lemma label_not_injective: "connection_label daemon_builtins = connection_label (daemon_server ''built-ins'')"
  by (simp add: connection_label_def daemon_builtins_def daemon_server_def)

end
