(* ===== verification/Tool_Repeat.thy ===== *)
theory Tool_Repeat
  imports Transcript Tool_Routing
begin

text \<open>
  The ledger of the tool calls one turn has dispatched (\<^verbatim>\<open>core/src/tool_repeat.rs\<close>), and the
  path of one call through it in the turn loop (\<^verbatim>\<open>send_prompt\<close> of \<^verbatim>\<open>core/src/service.rs\<close>).

  \<^item> \<open>repeat_ledger\<close> is \<^verbatim>\<open>RepeatLedger\<close>: a \<open>repeat_record\<close> per \<open>repeat_key\<close>.
    \<open>observe_dispatch\<close>, \<open>disposition\<close> and \<open>record_run\<close> are its three operations.
  \<^item> SHA-256 and the serialisation of the arguments come from other crates; they are the
    parameters \<open>sha\<close> and \<open>to_text\<close>.
  \<^item> \<open>dispatch_call\<close> is what the turn loop does with one call: ask the ledger, answer from the
    transcript or take the tool's result through the storage cap and the empty-result notice,
    append the row, record the run. The result of running the tool is an argument.
  \<^item> The lemmas show that a pointer always names a row holding the bytes it promises, that no
    key is left unchecked for more than sixteen calls, and the exact schedule of re-checks.
\<close>

section \<open>The ledger\<close>

definition INITIAL_THRESHOLD :: nat where "INITIAL_THRESHOLD = 2"

definition MAX_THRESHOLD :: nat where "MAX_THRESHOLD = 16"

definition MIN_SUPPRESSIBLE_BYTES :: nat where "MIN_SUPPRESSIBLE_BYTES = 512"

record repeat_key =
  rk_location :: "string option"
  rk_name :: string
  rk_arguments :: string

definition repeat_key_new ::
  "(string \<Rightarrow> string) \<Rightarrow> ('v \<Rightarrow> string) \<Rightarrow> tool_connection option \<Rightarrow> string \<Rightarrow> 'v \<Rightarrow> repeat_key" where
  "repeat_key_new sha to_text connection call_name arguments =
     \<lparr>rk_location = map_option connection_label connection, rk_name = call_name,
      rk_arguments = sha (to_text arguments)\<rparr>"

record held =
  held_message_id :: string
  held_digest :: string

record repeat_record =
  rr_attempts :: nat
  rr_held :: "held option"
  rr_suppressible :: bool
  rr_suppressions :: nat
  rr_threshold :: nat

definition record_default :: repeat_record where
  "record_default =
     \<lparr>rr_attempts = 0, rr_held = None, rr_suppressible = False, rr_suppressions = 0,
      rr_threshold = INITIAL_THRESHOLD\<rparr>"

datatype repeat_verdict = Execute | Suppress string nat

datatype result_disposition = Store | SameAs string

type_synonym repeat_ledger = "(repeat_key, repeat_record) hashmap"

text \<open>\<^verbatim>\<open>self.seen.entry(key).or_default()\<close>\<close>

definition entry :: "repeat_key \<Rightarrow> repeat_ledger \<Rightarrow> repeat_record" where
  "entry key L = (case hm_get L key of Some r \<Rightarrow> r | None \<Rightarrow> record_default)"

definition observe_record :: "bool \<Rightarrow> repeat_record \<Rightarrow> repeat_record \<times> repeat_verdict" where
  "observe_record may_suppress r0 =
     (let r = r0\<lparr>rr_attempts := sat_add_u32 (rr_attempts r0) 1\<rparr>
      in if \<not> may_suppress \<or> \<not> rr_suppressible r then (r, Execute)
         else case rr_held r of
                None \<Rightarrow> (r, Execute)
              | Some h \<Rightarrow>
                  if rr_threshold r \<le> rr_suppressions r
                  then (r\<lparr>rr_suppressions := 0,
                          rr_threshold := min (sat_mul_u32 (rr_threshold r) 2) MAX_THRESHOLD\<rparr>, Execute)
                  else (r\<lparr>rr_suppressions := sat_add_u32 (rr_suppressions r) 1\<rparr>,
                        Suppress (held_message_id h) (rr_attempts r)))"

definition observe_dispatch ::
  "repeat_key \<Rightarrow> bool \<Rightarrow> repeat_ledger \<Rightarrow> repeat_ledger \<times> repeat_verdict" where
  "observe_dispatch key may_suppress L =
     (let (r, v) = observe_record may_suppress (entry key L) in (hm_insert key r L, v))"

definition disposition :: "repeat_key \<Rightarrow> string \<Rightarrow> nat \<Rightarrow> repeat_ledger \<Rightarrow> result_disposition" where
  "disposition key digest output_bytes L =
     (if output_bytes < MIN_SUPPRESSIBLE_BYTES then Store
      else case Option.bind (hm_get L key) rr_held of
             Some h \<Rightarrow> if held_digest h = digest then SameAs (held_message_id h) else Store
           | None \<Rightarrow> Store)"

definition record_result :: "string \<Rightarrow> string \<Rightarrow> nat \<Rightarrow> repeat_record \<Rightarrow> repeat_record" where
  "record_result message_id digest output_bytes r =
     (case rr_held r of
        None \<Rightarrow> r\<lparr>rr_held := Some \<lparr>held_message_id = message_id, held_digest = digest\<rparr>\<rparr>
      | Some h \<Rightarrow>
          if held_digest h = digest
          then r\<lparr>rr_suppressible := MIN_SUPPRESSIBLE_BYTES \<le> output_bytes\<rparr>
          else r\<lparr>rr_held := Some \<lparr>held_message_id = message_id, held_digest = digest\<rparr>,
                 rr_suppressible := False, rr_suppressions := 0, rr_threshold := INITIAL_THRESHOLD\<rparr>)"

definition record_run :: "repeat_key \<Rightarrow> string \<Rightarrow> string \<Rightarrow> nat \<Rightarrow> repeat_ledger \<Rightarrow> repeat_ledger" where
  "record_run key message_id digest output_bytes L =
     hm_insert key (record_result message_id digest output_bytes (entry key L)) L"

definition same_bytes_notice :: "string \<Rightarrow> string" where
  "same_bytes_notice message_id =
     ''<same as before: this call ran, and it returned exactly the bytes it returned '' @
     ''earlier in this turn, so they are not repeated here. They are stored as message '' @
     message_id @
     '', and they are current. Read them with '' @
     TRANSCRIPT_GET_TOOL @
     '' message_id='' @
     [CHR 0x22] @
     message_id @
     [CHR 0x22] @
     ''.>''"

definition suppressed_notice :: "string \<Rightarrow> nat \<Rightarrow> string" where
  "suppressed_notice message_id attempts =
     ''<not run: you have now made this exact call '' @
     show_nat attempts @
     '' times in this turn, and the last runs all returned the same output. The tool '' @
     ''did not run this time, so what follows is not a fresh answer: it is the result '' @
     ''of an earlier run, stored as message '' @
     message_id @
     '', and it may be out of date. Read it with '' @
     TRANSCRIPT_GET_TOOL @
     '' message_id='' @
     [CHR 0x22] @
     message_id @
     [CHR 0x22] @
     ''. This call runs again on its own after a few more attempts; to get a fresh '' @
     ''answer now, change the arguments.>''"

section \<open>One call through the turn loop\<close>

definition TOOL_SEARCH_TOOL :: string where
  "TOOL_SEARCH_TOOL = ''builtin_tool_search''"

definition SPAWN_SUBAGENT_TOOL :: string where
  "SPAWN_SUBAGENT_TOOL = ''spawn_subagent''"

definition may_suppress :: "string \<Rightarrow> bool" where
  "may_suppress call_name \<longleftrightarrow> call_name \<noteq> TOOL_SEARCH_TOOL \<and> call_name \<noteq> SPAWN_SUBAGENT_TOOL"

text \<open>
  What is stored of a result: the storage cap first, then the notice for an empty success.
\<close>

definition stored_result :: "nat \<Rightarrow> string \<Rightarrow> bool \<Rightarrow> string" where
  "stored_result stored_cap result tool_ok =
     (let stored = (case cap_stored_tool_result result stored_cap of Some b \<Rightarrow> b | None \<Rightarrow> result)
      in if tool_ok \<and> trim stored = [] then EMPTY_TOOL_RESULT_NOTICE else stored)"

record turn_state =
  ts_ledger :: repeat_ledger
  ts_messages :: "message list"
  ts_projection :: projection

text \<open>
  A call as the loop meets it: the key, the name as the provider has it, the id the model gave
  the call, the id minted for the row, and what running the tool yields.
\<close>

record call_event =
  ce_key :: repeat_key
  ce_name :: string
  ce_call_id :: string
  ce_new_id :: string
  ce_result :: string
  ce_ok :: bool

text \<open>The turn's two caps, \<^verbatim>\<open>max_stored_tool_result_bytes\<close> and \<^verbatim>\<open>max_tool_result_bytes\<close>.\<close>

record result_caps =
  stored_cap :: nat
  context_cap :: nat

definition append_row :: "message \<Rightarrow> string option \<Rightarrow> turn_state \<Rightarrow> turn_state" where
  "append_row m head s =
     s\<lparr>ts_projection := (case head of Some h \<Rightarrow> projection_replace m h (ts_projection s) | None \<Rightarrow> ts_projection s),
       ts_messages := ts_messages s @ [m]\<rparr>"

text \<open>The row of a call that ran, and the record of the run.\<close>

definition run_row :: "(string \<Rightarrow> string) \<Rightarrow> result_caps \<Rightarrow> call_event \<Rightarrow> turn_state \<Rightarrow> turn_state" where
  "run_row sha caps e s =
     (let stored = stored_result (stored_cap caps) (ce_result e) (ce_ok e);
          digest = sha stored;
          disp = disposition (ce_key e) digest (length stored) (ts_ledger s);
          content = (case disp of SameAs message_id \<Rightarrow> same_bytes_notice message_id | Store \<Rightarrow> stored);
          tool_msg = tool_result (ce_new_id e) (ce_call_id e) content;
          head = head_for_appended_row (disp = Store) content (msg_id tool_msg) (context_cap caps)
      in append_row tool_msg head
           (s\<lparr>ts_ledger := record_run (ce_key e) (msg_id tool_msg) digest (length stored) (ts_ledger s)\<rparr>))"

definition dispatch_call ::
  "(string \<Rightarrow> string) \<Rightarrow> result_caps \<Rightarrow> call_event \<Rightarrow> turn_state \<Rightarrow> turn_state \<times> bool" where
  "dispatch_call sha caps e s =
     (case observe_dispatch (ce_key e) (may_suppress (ce_name e)) (ts_ledger s) of
        (L, Suppress message_id attempts) \<Rightarrow>
          (append_row (tool_result (ce_new_id e) (ce_call_id e) (suppressed_notice message_id attempts)) None
             (s\<lparr>ts_ledger := L\<rparr>), False)
      | (L, Execute) \<Rightarrow> (run_row sha caps e (s\<lparr>ts_ledger := L\<rparr>), True))"

section \<open>The records stay well formed\<close>

definition record_ok :: "repeat_record \<Rightarrow> bool" where
  "record_ok r \<longleftrightarrow> (rr_suppressible r \<longrightarrow> rr_held r \<noteq> None) \<and> rr_threshold r \<in> {2, 4, 8, 16} \<and>
     rr_suppressions r \<le> rr_threshold r"

lemmas ledger_defs = INITIAL_THRESHOLD_def MAX_THRESHOLD_def sat_add_u32_def sat_mul_u32_def u32_max_def

lemma record_ok_default [simp]: "record_ok record_default"
  by (simp add: record_ok_def record_default_def ledger_defs)

lemma record_ok_observe: "record_ok r \<Longrightarrow> record_ok (fst (observe_record may r))"
  by (auto simp: record_ok_def observe_record_def ledger_defs Let_def split: option.splits)

lemma record_ok_result: "record_ok r \<Longrightarrow> record_ok (record_result i d n r)"
  by (auto simp: record_ok_def record_result_def ledger_defs split: option.splits)

lemma observe_keeps_held [simp]: "rr_held (fst (observe_record may r)) = rr_held r"
  by (simp add: observe_record_def Let_def split: option.splits)

lemma observe_keeps_suppressible [simp]: "rr_suppressible (fst (observe_record may r)) = rr_suppressible r"
  by (simp add: observe_record_def Let_def split: option.splits)

lemma observe_Suppress:
  "observe_record may r = (r', Suppress i n) \<Longrightarrow>
     may \<and> rr_suppressible r \<and> (\<exists>h. rr_held r = Some h \<and> i = held_message_id h) \<and>
     rr_suppressions r < rr_threshold r \<and> n \<le> u32_max \<and>
     rr_suppressions r' = sat_add_u32 (rr_suppressions r) 1 \<and> rr_threshold r' = rr_threshold r"
  by (auto simp: observe_record_def Let_def split: option.splits if_splits)

lemma held_record_result:
  "rr_held (record_result i d n r) =
     (case rr_held r of Some h \<Rightarrow> if held_digest h = d then Some h else Some \<lparr>held_message_id = i, held_digest = d\<rparr>
      | None \<Rightarrow> Some \<lparr>held_message_id = i, held_digest = d\<rparr>)"
  by (simp add: record_result_def split: option.splits)

lemma entry_insert [hm_simps]: "entry k (hm_insert k' r L) = (if k = k' then r else entry k L)"
  by (simp add: entry_def hm_simps)

lemma entry_observe [hm_simps]:
  "entry k (fst (observe_dispatch k' may L)) =
     (if k = k' then fst (observe_record may (entry k L)) else entry k L)"
  by (simp add: observe_dispatch_def hm_simps split: prod.split)

lemma entry_record [hm_simps]:
  "entry k (record_run k' i d n L) = (if k = k' then record_result i d n (entry k L) else entry k L)"
  by (simp add: record_run_def hm_simps)

lemma disposition_entry:
  "disposition k d n L =
     (if n < MIN_SUPPRESSIBLE_BYTES then Store
      else case rr_held (entry k L) of
             Some h \<Rightarrow> if held_digest h = d then SameAs (held_message_id h) else Store
           | None \<Rightarrow> Store)"
  by (simp add: disposition_def entry_def record_default_def split: option.split)

section \<open>A call, by its two outcomes\<close>

abbreviation row_ids :: "turn_state \<Rightarrow> string set" where
  "row_ids s \<equiv> msg_id ` set (ts_messages s)"

abbreviation event_output :: "result_caps \<Rightarrow> call_event \<Rightarrow> string" where
  "event_output caps e \<equiv> stored_result (stored_cap caps) (ce_result e) (ce_ok e)"

lemma append_row_simps [simp]:
  "ts_messages (append_row m h s) = ts_messages s @ [m]"
  "ts_ledger (append_row m h s) = ts_ledger s"
  by (simp_all add: append_row_def)

lemma tool_result_simps [simp]:
  "msg_id (tool_result i c t) = i" "msg_content (tool_result i c t) = t" "msg_role (tool_result i c t) = ToolRole"
  by (simp_all add: tool_result_def)

definition call_content :: "(string \<Rightarrow> string) \<Rightarrow> result_caps \<Rightarrow> call_event \<Rightarrow> repeat_record \<Rightarrow> string" where
  "call_content sha caps e r =
     (let out = event_output caps e
      in case rr_held r of
           Some h \<Rightarrow> if MIN_SUPPRESSIBLE_BYTES \<le> length out \<and> held_digest h = sha out
                      then same_bytes_notice (held_message_id h) else out
         | None \<Rightarrow> out)"

text \<open>
  A call as one step on the record of its key: either the tool is not run and the record is
  the observed one, or it runs and the record takes the result too.
\<close>

lemma dispatch_call_cases:
  fixes s :: turn_state
  assumes "dispatch_call sha caps e s = (s', did)"
  obtains (suppressed) i n r where "\<not> did" "observe_record (may_suppress (ce_name e)) (entry (ce_key e) (ts_ledger s)) = (r, Suppress i n)"
      "ts_ledger s' = hm_insert (ce_key e) r (ts_ledger s)"
      "ts_messages s' = ts_messages s @ [tool_result (ce_new_id e) (ce_call_id e) (suppressed_notice i n)]"
  | (executed) r where "did" "observe_record (may_suppress (ce_name e)) (entry (ce_key e) (ts_ledger s)) = (r, Execute)"
      "ts_ledger s' = hm_insert (ce_key e)
         (record_result (ce_new_id e) (sha (event_output caps e)) (length (event_output caps e)) r)
         (hm_insert (ce_key e) r (ts_ledger s))"
      "ts_messages s' = ts_messages s @ [tool_result (ce_new_id e) (ce_call_id e) (call_content sha caps e r)]"
proof (cases "observe_record (may_suppress (ce_name e)) (entry (ce_key e) (ts_ledger s))")
  case (Pair r v)
  show thesis
  proof (cases v)
    case Execute
    have "call_content sha caps e r =
        (case disposition (ce_key e) (sha (event_output caps e)) (length (event_output caps e))
            (hm_insert (ce_key e) r (ts_ledger s)) of
           SameAs i \<Rightarrow> same_bytes_notice i | Store \<Rightarrow> event_output caps e)"
      by (auto simp: disposition_entry hm_simps call_content_def Let_def split: option.splits)
    then show thesis using assms Pair Execute
      by (intro executed) (auto simp: dispatch_call_def run_row_def observe_dispatch_def record_run_def hm_simps Let_def)
  next
    case (Suppress i n)
    then show thesis using assms Pair
      by (intro suppressed) (auto simp: dispatch_call_def observe_dispatch_def)
  qed
qed

section \<open>Pointers name the bytes they promise\<close>

text \<open>
  The turn as a state machine. Beside the turn's state the second component keeps, per key, the
  last output a run of that key stored; it is history, and no operation reads it. Every row has
  an id of its own, and other parts of the turn may append rows too.
\<close>

type_synonym run_history = "repeat_key \<Rightarrow> string option"

inductive turn_step ::
  "(string \<Rightarrow> string) \<Rightarrow> result_caps \<Rightarrow> turn_state \<times> run_history \<Rightarrow> turn_state \<times> run_history \<Rightarrow> bool"
  for sha :: "string \<Rightarrow> string" and caps :: result_caps where
  step_suppressed: "ce_new_id e \<notin> row_ids s \<Longrightarrow> dispatch_call sha caps e s = (s', False) \<Longrightarrow>
     turn_step sha caps (s, last_out) (s', last_out)"
| step_run: "ce_new_id e \<notin> row_ids s \<Longrightarrow> dispatch_call sha caps e s = (s', True) \<Longrightarrow>
     turn_step sha caps (s, last_out) (s', last_out(ce_key e \<mapsto> event_output caps e))"
| step_other: "msg_id m \<notin> row_ids s \<Longrightarrow> turn_step sha caps (s, last_out) (append_row m None s, last_out)"

definition turn_init :: "turn_state \<times> run_history \<Rightarrow> bool" where
  "turn_init st \<longleftrightarrow> ts_ledger (fst st) = [] \<and> distinct (map msg_id (ts_messages (fst st))) \<and> snd st = Map.empty"

definition held_ok :: "(string \<Rightarrow> string) \<Rightarrow> message list \<Rightarrow> string option \<Rightarrow> held \<Rightarrow> bool" where
  "held_ok sha ms out h \<longleftrightarrow> (\<exists>t. out = Some t \<and> sha t = held_digest h) \<and>
     (\<exists>m\<in>set ms. msg_id m = held_message_id h \<and> sha (msg_content m) = held_digest h)"

definition key_ok :: "(string \<Rightarrow> string) \<Rightarrow> message list \<Rightarrow> string option \<Rightarrow> repeat_record \<Rightarrow> bool" where
  "key_ok sha ms out r \<longleftrightarrow> record_ok r \<and> (\<forall>h. rr_held r = Some h \<longrightarrow> held_ok sha ms out h) \<and>
     (rr_suppressible r \<longrightarrow> (\<exists>t. out = Some t \<and> MIN_SUPPRESSIBLE_BYTES \<le> length t))"

definition turn_inv :: "(string \<Rightarrow> string) \<Rightarrow> turn_state \<times> run_history \<Rightarrow> bool" where
  "turn_inv sha st \<longleftrightarrow> distinct (map msg_id (ts_messages (fst st))) \<and>
     (\<forall>k. key_ok sha (ts_messages (fst st)) (snd st k) (entry k (ts_ledger (fst st))))"

lemma held_ok_more: "held_ok sha ms out h \<Longrightarrow> held_ok sha (ms @ ns) out h"
  by (auto simp: held_ok_def)

lemma key_ok_more: "key_ok sha ms out r \<Longrightarrow> key_ok sha (ms @ ns) out r"
  by (auto simp: key_ok_def held_ok_more)

lemma key_ok_observe: "key_ok sha ms out r \<Longrightarrow> key_ok sha ms out (fst (observe_record may r))"
  by (simp add: key_ok_def record_ok_observe)

lemma key_ok_run:
  assumes "key_ok sha ms out r" and "observe_record may r = (r1, Execute)"
  shows "key_ok sha (ms @ [tool_result (ce_new_id e) c (call_content sha caps e r1)])
     (Some (event_output caps e))
     (record_result (ce_new_id e) (sha (event_output caps e)) (length (event_output caps e)) r1)"
proof -
  have r1: "key_ok sha ms out r1" using key_ok_observe[OF assms(1), of may] assms(2) by simp
  show ?thesis
  proof (cases "\<exists>h. rr_held r1 = Some h \<and> held_digest h = sha (event_output caps e)")
    case True
    then show ?thesis using r1 record_ok_result
      by (auto simp: key_ok_def held_record_result held_ok_def record_result_def)
  next
    case False
    then have "call_content sha caps e r1 = event_output caps e"
      by (auto simp: call_content_def Let_def split: option.split)
    with False show ?thesis using r1 record_ok_result
      by (auto simp: key_ok_def held_record_result held_ok_def record_result_def record_ok_def split: option.splits)
  qed
qed

interpretation turn_sys: invariant_system turn_init "turn_step sha caps" "turn_inv sha" for sha caps
proof unfold_locales
  show "turn_inv sha s" if "turn_init s" for s
    using that by (auto simp: turn_init_def turn_inv_def key_ok_def entry_def record_default_def
        record_ok_default[unfolded record_default_def])
next
  show "turn_inv sha t" if "turn_inv sha s" and "turn_step sha caps s t" for s t
    using that(2,1)
  proof (cases rule: turn_step.cases)
    case (step_suppressed e s1 s2 last_out)
    from step_suppressed(4) show ?thesis
    proof (cases rule: dispatch_call_cases)
      case (suppressed i n r)
      have "key_ok sha (ts_messages s1) (last_out (ce_key e)) r"
        using key_ok_observe[of sha "ts_messages s1" "last_out (ce_key e)" "entry (ce_key e) (ts_ledger s1)"
            "may_suppress (ce_name e)"] suppressed(2) that(1) step_suppressed(1) by (simp add: turn_inv_def)
      then show ?thesis using suppressed step_suppressed that(1)
        by (auto simp: turn_inv_def hm_simps key_ok_more)
    qed simp
  next
    case (step_run e s1 s2 last_out)
    from step_run(4) show ?thesis
    proof (cases rule: dispatch_call_cases)
      case (executed r)
      then show ?thesis using step_run that(1)
        by (auto simp: turn_inv_def hm_simps key_ok_more intro!: key_ok_run)
    qed simp
  next
    case (step_other m s1 last_out)
    then show ?thesis using that(1) by (auto simp: turn_inv_def key_ok_more)
  qed
qed

text \<open>
  What a tool call leaves in the transcript, in every state a turn can reach. The call
  appends one row. If the tool ran, the row holds the stored output, or, for an output of at
  least 512 bytes, a pointer to an earlier row whose content has this output's own digest. If
  it did not run, the tool is one that may be suppressed and the row points at an earlier row
  whose content has the digest of the output the last run of this very key stored. So no
  pointer dangles.
\<close>

theorem pointer_names_the_bytes:
  assumes "reachable turn_init (turn_step sha caps) (s, last_out)"
    and "ce_new_id e \<notin> row_ids s" and "dispatch_call sha caps e s = (s', did_run)"
  shows "\<exists>row. ts_messages s' = ts_messages s @ [row] \<and> msg_id row = ce_new_id e \<and>
    (if did_run
     then msg_content row = event_output caps e \<or>
       (MIN_SUPPRESSIBLE_BYTES \<le> length (event_output caps e) \<and>
        (\<exists>m\<in>set (ts_messages s). msg_content row = same_bytes_notice (msg_id m) \<and>
           sha (msg_content m) = sha (event_output caps e)))
     else may_suppress (ce_name e) \<and>
       (\<exists>m\<in>set (ts_messages s). \<exists>n t. msg_content row = suppressed_notice (msg_id m) n \<and>
          last_out (ce_key e) = Some t \<and> sha (msg_content m) = sha t))"
proof -
  have inv: "turn_inv sha (s, last_out)" by (rule turn_sys.reachable_inv) (rule assms(1))
  let ?r = "entry (ce_key e) (ts_ledger s)"
  have ok: "key_ok sha (ts_messages s) (last_out (ce_key e)) ?r" using inv by (simp add: turn_inv_def)
  from assms(3) show ?thesis
  proof (cases rule: dispatch_call_cases)
    case (suppressed i n r)
    from observe_Suppress[OF suppressed(2)] obtain h where may: "may_suppress (ce_name e)"
      and h: "rr_held ?r = Some h" "i = held_message_id h" by blast
    with ok obtain t m where "last_out (ce_key e) = Some t" "sha t = held_digest h"
      "m \<in> set (ts_messages s)" "msg_id m = i" "sha (msg_content m) = held_digest h"
      by (auto simp: key_ok_def held_ok_def)
    then show ?thesis using suppressed may by auto
  next
    case (executed r)
    then have "rr_held r = rr_held ?r" using observe_keeps_held[of "may_suppress (ce_name e)" ?r] by simp
    then show ?thesis using executed ok
      by (fastforce simp: key_ok_def held_ok_def call_content_def Let_def split: option.splits if_splits)
  qed
qed

section \<open>The notices are smaller than what they stand for\<close>

lemma length_show_u32: "n \<le> u32_max \<Longrightarrow> length (show_nat n) \<le> 10"
  using length_show_nat_mono[of n u32_max] by (simp add: u32_max_def show_nat_step show_nat_small)

lemma length_same_bytes_notice: "length (same_bytes_notice i) = 235 + 2 * length i"
  by (simp add: same_bytes_notice_def TRANSCRIPT_GET_TOOL_def)

lemma length_suppressed_notice: "length (suppressed_notice i n) = 426 + length (show_nat n) + 2 * length i"
  by (simp add: suppressed_notice_def TRANSCRIPT_GET_TOOL_def)

text \<open>
  Answering with a pointer never costs more than the bytes. In every reachable state of a
  turn whose row ids have the 36 bytes of a rendered UUID, a call that runs appends a row no
  longer than the output it stored, and a call answered from the transcript appends a row
  shorter than the output the last run of its key stored.
\<close>

theorem pointer_never_costs_more:
  assumes "reachable turn_init (turn_step sha caps) (s, last_out)"
    and "\<And>i. i \<in> row_ids s \<Longrightarrow> length i = 36"
    and "dispatch_call sha caps e s = (s', did_run)"
  shows "\<exists>row. ts_messages s' = ts_messages s @ [row] \<and>
    (if did_run then length (msg_content row) \<le> length (event_output caps e)
     else \<exists>t. last_out (ce_key e) = Some t \<and> length (msg_content row) < length t)"
proof -
  have inv: "turn_inv sha (s, last_out)" by (rule turn_sys.reachable_inv) (rule assms(1))
  let ?r = "entry (ce_key e) (ts_ledger s)"
  have ok: "key_ok sha (ts_messages s) (last_out (ce_key e)) ?r" using inv by (simp add: turn_inv_def)
  then have len: "rr_held ?r = Some h \<Longrightarrow> length (held_message_id h) = 36" for h
    using assms(2) unfolding key_ok_def held_ok_def by (metis imageI)
  from assms(3) show ?thesis
  proof (cases rule: dispatch_call_cases)
    case (suppressed i n r)
    note obs = observe_Suppress[OF suppressed(2)]
    then obtain t where "last_out (ce_key e) = Some t" "MIN_SUPPRESSIBLE_BYTES \<le> length t"
      using ok by (auto simp: key_ok_def)
    moreover have "length (suppressed_notice i n) < MIN_SUPPRESSIBLE_BYTES"
      using obs len length_show_u32[of n] by (auto simp: length_suppressed_notice MIN_SUPPRESSIBLE_BYTES_def)
    ultimately show ?thesis using suppressed by auto
  next
    case (executed r)
    then have "rr_held r = rr_held ?r" using observe_keeps_held[of "may_suppress (ce_name e)" ?r] by simp
    then have "length (call_content sha caps e r) \<le> length (event_output caps e)"
      using len by (auto simp: call_content_def Let_def length_same_bytes_notice MIN_SUPPRESSIBLE_BYTES_def
          split: option.splits)
    then show ?thesis using executed by auto
  qed
qed

section \<open>No key freezes\<close>

fun run_calls ::
  "(string \<Rightarrow> string) \<Rightarrow> result_caps \<Rightarrow> call_event list \<Rightarrow> turn_state \<Rightarrow> turn_state \<times> (repeat_key \<times> bool) list" where
  "run_calls sha caps [] s = (s, [])"
| "run_calls sha caps (e # es) s =
     (let (s1, did) = dispatch_call sha caps e s; (s2, ds) = run_calls sha caps es s1
      in (s2, (ce_key e, did) # ds))"

lemma dispatch_other_key:
  "dispatch_call sha caps e s = (s', did) \<Longrightarrow> ce_key e \<noteq> k \<Longrightarrow> entry k (ts_ledger s') = entry k (ts_ledger s)"
  by (erule dispatch_call_cases) (simp_all add: hm_simps)

lemma suppressions_left:
  assumes "record_ok (entry k (ts_ledger s))" and "run_calls sha caps es s = (s', ds)"
    and "(k, True) \<notin> set ds"
  shows "length (filter (\<lambda>e. ce_key e = k) es) \<le>
    rr_threshold (entry k (ts_ledger s)) - rr_suppressions (entry k (ts_ledger s))"
  using assms
proof (induction es arbitrary: s ds)
  case (Cons e es)
  obtain s1 did ds1 where s1: "dispatch_call sha caps e s = (s1, did)"
    and rest: "run_calls sha caps es s1 = (s', ds1)" "ds = (ce_key e, did) # ds1"
    using Cons.prems(2) by (auto split: prod.splits)
  have nin: "(k, True) \<notin> set ds1" using Cons.prems(3) rest by simp
  show ?case
  proof (cases "ce_key e = k")
    case False
    then have "entry k (ts_ledger s1) = entry k (ts_ledger s)" using s1 by (rule dispatch_other_key[rotated])
    then show ?thesis using Cons.IH[OF _ rest(1) nin] Cons.prems(1) False by simp
  next
    case True
    then have "\<not> did" using Cons.prems(3) rest by auto
    from s1 this obtain i n r where obs: "observe_record (may_suppress (ce_name e)) (entry k (ts_ledger s)) = (r, Suppress i n)"
      and r: "entry k (ts_ledger s1) = r"
      using True by (cases rule: dispatch_call_cases) (auto simp: hm_simps)
    have ok: "record_ok r" using record_ok_observe[OF Cons.prems(1), of "may_suppress (ce_name e)"] obs by simp
    have "rr_suppressions r = Suc (rr_suppressions (entry k (ts_ledger s)))"
      using observe_Suppress[OF obs] Cons.prems(1) by (auto simp: record_ok_def ledger_defs)
    then show ?thesis using Cons.IH[OF _ rest(1) nin] r ok observe_Suppress[OF obs] True
      by clarsimp linarith
  qed
qed simp

text \<open>
  C33: No key freezes. From every reachable state of a turn, in any further sequence of calls of
  any keys, if no call of one key runs then that key is called at most sixteen times in it. A
  key called again and again is therefore checked against its tool at least once in any
  seventeen calls, whatever else the turn dispatches between them.
\<close>

theorem no_key_freezes:
  assumes "reachable turn_init (turn_step sha caps) (s, last_out)"
    and "run_calls sha caps es s = (s', ds)" and "(k, True) \<notin> set ds"
  shows "length (filter (\<lambda>e. ce_key e = k) es) \<le> MAX_THRESHOLD"
proof -
  have "turn_inv sha (s, last_out)" by (rule turn_sys.reachable_inv) (rule assms(1))
  then have ok: "record_ok (entry k (ts_ledger s))" by (simp add: turn_inv_def key_ok_def)
  then have "rr_threshold (entry k (ts_ledger s)) \<le> 16" by (auto simp: record_ok_def)
  then show ?thesis using suppressions_left[OF ok assms(2,3)] by (simp add: MAX_THRESHOLD_def)
qed

section \<open>The schedule of re-checks\<close>

text \<open>
  The backoff the ledger promises, as a machine of its own: suppressions since the last run and
  the bound on them. A call runs when the bound is reached; the bound then doubles up to the cap.
\<close>

fun backoff :: "nat \<Rightarrow> nat \<Rightarrow> nat \<Rightarrow> bool list" where
  "backoff 0 n t = []"
| "backoff (Suc c) n t =
     (if t \<le> n then True # backoff c 0 (min (2 * t) 16) else False # backoff c (Suc n) t)"

lemma backoff_numeral:
  "backoff (numeral w) n t =
     (if t \<le> n then True # backoff (pred_numeral w) 0 (min (2 * t) 16) else False # backoff (pred_numeral w) (Suc n) t)"
  by (simp add: numeral_eq_Suc)

lemma backoff_counts:
  "length (filter id (backoff 19 0 2)) = 3" "length (filter id (backoff 198 0 2)) = 13"
  by (simp_all add: backoff_numeral)

text \<open>The record of a key in the state where its tool keeps returning \<open>out\<close>.\<close>

definition settled_on :: "(string \<Rightarrow> string) \<Rightarrow> string \<Rightarrow> repeat_record \<Rightarrow> bool" where
  "settled_on sha out r \<longleftrightarrow> record_ok r \<and> rr_suppressible r \<and> (\<exists>h. rr_held r = Some h \<and> held_digest h = sha out)"

lemma settled_observe:
  assumes "settled_on sha out r" and "observe_record True r = (q, v)"
  shows "settled_on sha out q \<and> (v = Execute \<longleftrightarrow> rr_threshold r \<le> rr_suppressions r) \<and>
    rr_suppressions q = (if v = Execute then 0 else Suc (rr_suppressions r)) \<and>
    rr_threshold q = (if v = Execute then min (2 * rr_threshold r) 16 else rr_threshold r)"
proof -
  obtain h where h: "rr_held r = Some h" "rr_suppressible r" and ok: "record_ok r"
    using assms(1) by (auto simp: settled_on_def)
  have "settled_on sha out q"
    using assms record_ok_observe[OF ok, of True] observe_keeps_held[of True r] observe_keeps_suppressible[of True r]
    by (simp add: settled_on_def)
  moreover have "sat_add_u32 (rr_suppressions r) 1 = Suc (rr_suppressions r)"
      "min (sat_mul_u32 (rr_threshold r) 2) MAX_THRESHOLD = min (2 * rr_threshold r) 16"
    using ok by (auto simp: record_ok_def ledger_defs)
  ultimately show ?thesis using assms(2) h by (auto simp: observe_record_def Let_def split: if_splits)
qed

lemma settled_result:
  assumes "settled_on sha out r" and "MIN_SUPPRESSIBLE_BYTES \<le> length out"
  shows "record_result i (sha out) (length out) r = r"
  using assms by (auto simp: settled_on_def record_result_def)

lemma settled_dispatch:
  assumes "settled_on sha (event_output caps e) (entry (ce_key e) (ts_ledger s))"
    and "may_suppress (ce_name e)" and "MIN_SUPPRESSIBLE_BYTES \<le> length (event_output caps e)"
    and "dispatch_call sha caps e s = (s', did)"
  defines "r \<equiv> entry (ce_key e) (ts_ledger s)" and "r' \<equiv> entry (ce_key e) (ts_ledger s')"
  shows "settled_on sha (event_output caps e) r' \<and> (did \<longleftrightarrow> rr_threshold r \<le> rr_suppressions r) \<and>
    rr_suppressions r' = (if did then 0 else Suc (rr_suppressions r)) \<and>
    rr_threshold r' = (if did then min (2 * rr_threshold r) 16 else rr_threshold r)"
  using assms(4)
proof (cases rule: dispatch_call_cases)
  case (suppressed i n q)
  then show ?thesis using settled_observe[OF assms(1)] assms(2) by (simp add: r_def r'_def hm_simps)
next
  case (executed q)
  note q = settled_observe[OF assms(1), of q Execute]
  then show ?thesis using executed assms(2) settled_result[of sha "event_output caps e" q, OF _ assms(3)]
    by (simp add: r_def r'_def hm_simps)
qed

lemma settled_run:
  assumes "\<And>e. e \<in> set es \<Longrightarrow> ce_key e = k \<and> may_suppress (ce_name e) \<and> event_output caps e = out"
    and "MIN_SUPPRESSIBLE_BYTES \<le> length out" and "settled_on sha out (entry k (ts_ledger s))"
    and "run_calls sha caps es s = (s', ds)"
  shows "map snd ds = backoff (length es) (rr_suppressions (entry k (ts_ledger s))) (rr_threshold (entry k (ts_ledger s)))"
  using assms
proof (induction es arbitrary: s ds)
  case (Cons e es)
  obtain s1 did ds1 where s1: "dispatch_call sha caps e s = (s1, did)"
    and rest: "run_calls sha caps es s1 = (s', ds1)" "ds = (ce_key e, did) # ds1"
    using Cons.prems(4) by (auto split: prod.splits)
  have e: "ce_key e = k" "may_suppress (ce_name e)" "event_output caps e = out" using Cons.prems(1) by auto
  note step = settled_dispatch[of sha caps e s s1 did, unfolded e(1) e(3), OF Cons.prems(3) e(2) Cons.prems(2) s1]
  have "map snd ds1 = backoff (length es) (rr_suppressions (entry k (ts_ledger s1))) (rr_threshold (entry k (ts_ledger s1)))"
    using Cons.prems(1,2) step by (intro Cons.IH[OF _ _ _ rest(1)]) auto
  then show ?case using rest step by (auto simp: min_def)
qed simp

lemma first_two_runs:
  assumes "entry k (ts_ledger s) = record_default" and "ce_key e = k" "ce_key e' = k"
    and "event_output caps e = out" "event_output caps e' = out"
    and "dispatch_call sha caps e s = (s1, d1)" "dispatch_call sha caps e' s1 = (s2, d2)"
    and "MIN_SUPPRESSIBLE_BYTES \<le> length out"
  shows "d1 \<and> d2 \<and> settled_on sha out (entry k (ts_ledger s2)) \<and>
    rr_suppressions (entry k (ts_ledger s2)) = 0 \<and> rr_threshold (entry k (ts_ledger s2)) = 2"
proof -
  have one: "d1 \<and> (\<exists>h. rr_held (entry k (ts_ledger s1)) = Some h \<and> held_digest h = sha out) \<and>
      \<not> rr_suppressible (entry k (ts_ledger s1)) \<and> rr_suppressions (entry k (ts_ledger s1)) = 0 \<and>
      rr_threshold (entry k (ts_ledger s1)) = 2"
    using assms(6) by (cases rule: dispatch_call_cases)
      (use assms(1,2,4) in \<open>auto simp: hm_simps observe_record_def record_default_def record_result_def ledger_defs Let_def\<close>)
  show ?thesis
    using assms(7) by (cases rule: dispatch_call_cases)
      (use one assms(3,5,8) in \<open>auto simp: hm_simps observe_record_def record_result_def ledger_defs
        settled_on_def record_ok_def Let_def\<close>)
qed

definition MAX_TOOL_ROUNDS :: nat where
  "MAX_TOOL_ROUNDS = 200"

text \<open>
  C21: The ledger implements the backoff. Let a turn call one key it has not seen before again
  and again, the tool being one that may be suppressed and always returning the same output of
  at least 512 bytes. Then the first two calls run and from the third on a call runs exactly
  when the backoff machine, started with the bound two, says so. In particular twenty-one such
  calls run the tool five times, and a key called in each of the two hundred rounds of a turn
  is run fifteen times.
\<close>

theorem ledger_implements_backoff:
  assumes "entry k (ts_ledger s) = record_default"
    and calls: "\<And>e. e \<in> set es \<Longrightarrow> ce_key e = k \<and> may_suppress (ce_name e) \<and> event_output caps e = out"
    and "MIN_SUPPRESSIBLE_BYTES \<le> length out" and "2 \<le> length es"
    and "run_calls sha caps es s = (s', ds)"
  shows "map snd ds = True # True # backoff (length es - 2) 0 2 \<and>
    (length es = 21 \<longrightarrow> length (filter snd ds) = 5) \<and>
    (length es = MAX_TOOL_ROUNDS \<longrightarrow> length (filter snd ds) = 15)"
proof -
  obtain e e' rest where es: "es = e # e' # rest"
    using assms(4) by (metis Suc_le_length_iff numeral_2_eq_2)
  have e: "ce_key e = k" "ce_key e' = k" "event_output caps e = out" "event_output caps e' = out"
    using calls[of e] calls[of e'] es by auto
  obtain s1 d1 s2 d2 ds2 where run: "dispatch_call sha caps e s = (s1, d1)"
      "dispatch_call sha caps e' s1 = (s2, d2)" "run_calls sha caps rest s2 = (s', ds2)"
      "ds = (k, d1) # (k, d2) # ds2"
    using assms(5) e(1,2) unfolding es by (auto split: prod.splits)
  have two: "d1 \<and> d2 \<and> settled_on sha out (entry k (ts_ledger s2)) \<and>
      rr_suppressions (entry k (ts_ledger s2)) = 0 \<and> rr_threshold (entry k (ts_ledger s2)) = 2"
    by (rule first_two_runs[OF assms(1) e run(1,2) assms(3)])
  have "map snd ds2 = backoff (length rest) (rr_suppressions (entry k (ts_ledger s2)))
      (rr_threshold (entry k (ts_ledger s2)))"
  proof (rule settled_run[OF _ assms(3) _ run(3)])
    show "ce_key x = k \<and> may_suppress (ce_name x) \<and> event_output caps x = out" if "x \<in> set rest" for x
      using calls[of x] that es by simp
  qed (use two in blast)
  then have sched: "map snd ds = True # True # backoff (length es - 2) 0 2"
    using run(4) two es by simp
  have count: "length (filter snd ds) = length (filter id (map snd ds))" by (simp add: filter_map o_def)
  show ?thesis using sched backoff_counts by (simp add: count MAX_TOOL_ROUNDS_def)
qed


section \<open>Witnesses\<close>

text \<open>
  A turn whose first call returned a long output, seen just before the same call is made again.
  The digest function of the witnesses is the identity.
\<close>

definition wit_caps :: result_caps where
  "wit_caps = \<lparr>stored_cap = 1000, context_cap = 1000\<rparr>"

definition wit_key :: repeat_key where
  "wit_key = \<lparr>rk_location = None, rk_name = ''probe'', rk_arguments = ''{}''\<rparr>"

definition wit_event :: "string \<Rightarrow> call_event" where
  "wit_event i = \<lparr>ce_key = wit_key, ce_name = ''probe'', ce_call_id = ''c'', ce_new_id = i,
     ce_result = replicate 600 CHR ''x'', ce_ok = False\<rparr>"

definition wit_start :: turn_state where
  "wit_start = \<lparr>ts_ledger = [], ts_messages = [], ts_projection = []\<rparr>"

definition wit_id :: "char \<Rightarrow> string" where
  "wit_id c = replicate 36 c"

definition wit_one :: turn_state where
  "wit_one = fst (dispatch_call (\<lambda>t. t) wit_caps (wit_event (wit_id CHR ''1'')) wit_start)"

definition wit_two :: turn_state where
  "wit_two = fst (dispatch_call (\<lambda>t. t) wit_caps (wit_event (wit_id CHR ''2'')) wit_one)"

lemma wit_event_simps [simp]:
  "ce_key (wit_event i) = wit_key" "ce_name (wit_event i) = ''probe''" "ce_new_id (wit_event i) = i"
  "ce_call_id (wit_event i) = ''c''" "may_suppress ''probe''"
  by (simp_all add: wit_event_def may_suppress_def TOOL_SEARCH_TOOL_def SPAWN_SUBAGENT_TOOL_def)

lemma wit_output [simp]: "event_output wit_caps (wit_event i) = replicate 600 CHR ''x''"
  by (simp add: stored_result_def wit_caps_def wit_event_def cap_stored_tool_result_def Let_def)

lemma wit_two_runs:
  "dispatch_call (\<lambda>t. t) wit_caps (wit_event (wit_id CHR ''1'')) wit_start = (wit_one, True)"
  "dispatch_call (\<lambda>t. t) wit_caps (wit_event (wit_id CHR ''2'')) wit_one = (wit_two, True)"
  "settled_on (\<lambda>t. t) (replicate 600 CHR ''x'') (entry wit_key (ts_ledger wit_two))"
  "rr_suppressions (entry wit_key (ts_ledger wit_two)) = 0"
  "rr_threshold (entry wit_key (ts_ledger wit_two)) = 2"
proof -
  have "entry wit_key (ts_ledger wit_start) = record_default" by (simp add: wit_start_def entry_def)
  note two = first_two_runs[OF this, where e = "wit_event (wit_id CHR ''1'')" and e' = "wit_event (wit_id CHR ''2'')"
      and caps = wit_caps and sha = "\<lambda>t. t" and out = "replicate 600 CHR ''x''"
      and ?s1.0 = wit_one and ?s2.0 = wit_two
      and ?d1.0 = "snd (dispatch_call (\<lambda>t. t) wit_caps (wit_event (wit_id CHR ''1'')) wit_start)"
      and ?d2.0 = "snd (dispatch_call (\<lambda>t. t) wit_caps (wit_event (wit_id CHR ''2'')) wit_one)"]
  then show
    "dispatch_call (\<lambda>t. t) wit_caps (wit_event (wit_id CHR ''1'')) wit_start = (wit_one, True)"
    "dispatch_call (\<lambda>t. t) wit_caps (wit_event (wit_id CHR ''2'')) wit_one = (wit_two, True)"
    "settled_on (\<lambda>t. t) (replicate 600 CHR ''x'') (entry wit_key (ts_ledger wit_two))"
    "rr_suppressions (entry wit_key (ts_ledger wit_two)) = 0"
    "rr_threshold (entry wit_key (ts_ledger wit_two)) = 2"
    by (simp_all add: wit_one_def wit_two_def MIN_SUPPRESSIBLE_BYTES_def prod_eq_iff)
qed

lemma wit_ids [simp]: "wit_id a = wit_id b \<longleftrightarrow> a = b" "length (wit_id a) = 36"
  by (simp_all add: wit_id_def)

lemma wit_rows:
  "row_ids wit_one = {wit_id CHR ''1''}" "row_ids wit_two = {wit_id CHR ''1'', wit_id CHR ''2''}"
proof -
  show one: "row_ids wit_one = {wit_id CHR ''1''}"
    using wit_two_runs(1) by (rule dispatch_call_cases) (simp_all add: wit_start_def)
  show "row_ids wit_two = {wit_id CHR ''1'', wit_id CHR ''2''}"
    using wit_two_runs(2) by (rule dispatch_call_cases) (simp_all add: one insert_commute)
qed

lemma wit_reachable:
  "reachable turn_init (turn_step (\<lambda>t. t) wit_caps) (wit_one, [wit_key \<mapsto> replicate 600 CHR ''x''])"
  "reachable turn_init (turn_step (\<lambda>t. t) wit_caps) (wit_two, [wit_key \<mapsto> replicate 600 CHR ''x''])"
proof -
  have "reachable turn_init (turn_step (\<lambda>t. t) wit_caps) (wit_start, Map.empty)"
    by (rule reach_init) (simp add: turn_init_def wit_start_def)
  then show one: "reachable turn_init (turn_step (\<lambda>t. t) wit_caps) (wit_one, [wit_key \<mapsto> replicate 600 CHR ''x''])"
    by (rule reach_step) (use step_run[OF _ wit_two_runs(1), of Map.empty] in \<open>simp add: wit_start_def\<close>)
  show "reachable turn_init (turn_step (\<lambda>t. t) wit_caps) (wit_two, [wit_key \<mapsto> replicate 600 CHR ''x''])"
    using one by (rule reach_step)
      (use step_run[OF _ wit_two_runs(2), of "[wit_key \<mapsto> replicate 600 CHR ''x'']"] in \<open>simp add: wit_rows wit_ids\<close>)
qed

theorem pointer_names_the_bytes_witness:
  "\<exists>row. ts_messages wit_two = ts_messages wit_one @ [row] \<and>
     (msg_content row = replicate 600 CHR ''x'' \<or>
      (\<exists>m\<in>set (ts_messages wit_one). msg_content row = same_bytes_notice (msg_id m) \<and>
         msg_content m = replicate 600 CHR ''x''))"
  using pointer_names_the_bytes[OF wit_reachable(1) _ wit_two_runs(2)] wit_rows by auto

theorem pointer_never_costs_more_witness:
  "\<exists>row. ts_messages wit_two = ts_messages wit_one @ [row] \<and> length (msg_content row) \<le> 600"
  using pointer_never_costs_more[OF wit_reachable(1) _ wit_two_runs(2)] wit_rows by auto

lemma wit_quiet:
  assumes "run_calls (\<lambda>t. t) wit_caps [wit_event (wit_id CHR ''3''), wit_event (wit_id CHR ''4'')] wit_two = (s', ds)"
  shows "map snd ds = [False, False]"
proof -
  have "map snd ds = backoff 2 0 2"
    using settled_run[OF _ _ wit_two_runs(3) assms] wit_two_runs(4,5)
    by (fastforce simp: MIN_SUPPRESSIBLE_BYTES_def numeral_2_eq_2)
  then show ?thesis by (simp add: numeral_2_eq_2)
qed

theorem no_key_freezes_witness:
  "length (filter (\<lambda>e. ce_key e = wit_key) [wit_event (wit_id CHR ''3''), wit_event (wit_id CHR ''4'')])
     \<le> MAX_THRESHOLD \<and>
   (wit_key, True) \<notin> set (snd (run_calls (\<lambda>t. t) wit_caps
      [wit_event (wit_id CHR ''3''), wit_event (wit_id CHR ''4'')] wit_two))"
proof -
  let ?es = "[wit_event (wit_id CHR ''3''), wit_event (wit_id CHR ''4'')]"
  obtain s' ds where run: "run_calls (\<lambda>t. t) wit_caps ?es wit_two = (s', ds)" by (meson surj_pair)
  have "True \<notin> set (map snd ds)" using wit_quiet[OF run] by simp
  then have quiet: "(wit_key, True) \<notin> set ds" by force
  show ?thesis using no_key_freezes[OF wit_reachable(2) run quiet] quiet run by simp
qed

theorem ledger_implements_backoff_witness:
  "length (filter snd (snd (run_calls (\<lambda>t. t) wit_caps (replicate 21 (wit_event ''m'')) wit_start))) = 5"
proof -
  obtain s' ds where run: "run_calls (\<lambda>t. t) wit_caps (replicate 21 (wit_event ''m'')) wit_start = (s', ds)"
    by (meson surj_pair)
  have "length (filter snd ds) = 5"
    using ledger_implements_backoff[where k = wit_key and out = "replicate 600 CHR ''x''", OF _ _ _ _ run]
    by (simp add: wit_start_def entry_def MIN_SUPPRESSIBLE_BYTES_def)
  then show ?thesis using run by simp
qed

end
