(* ===== verification/Eviction.thy ===== *)
theory Eviction
  imports Tool_Provenance
begin

text \<open>
  How tool results leave a turn's working context (the eviction half of
  \<^verbatim>\<open>core/src/planning.rs\<close>, and \<^verbatim>\<open>core/src/eviction_class.rs\<close>).

  \<^item> \<open>eviction_class\<close> decides by the producing tool whether a result is mechanism, recalled
    memory or external content; \<open>reduce_recalled_result\<close> keeps the entry text of a recall.
  \<^item> \<open>evict_tool_results\<close> replaces sizeable results by pointers or reductions in the round's
    projection and records the decision on the row; \<open>carry_evictions\<close> rebuilds the pointers on a
    later turn; \<open>tool_byte_census\<close> measures what the prompt carries.
  \<^item> Parsing a payload is a function of another crate: the parameter \<open>parse\<close>.
  \<^item> Both passes are instances of \<open>shrinking_sweep\<close>. The lemmas show that a pass never makes a
    round read more, keeps the structure of the transcript, accounts for every byte it saves and
    settles at once; that a recall is never dropped without a trace; and that a later turn
    rebuilds the very pointers of an earlier one while their notes are there.
\<close>

section \<open>Classes of results\<close>

definition MEMORY_SURFACES :: "string list" where
  "MEMORY_SURFACES =
     [''builtin_knowledge_base_get'', ''builtin_knowledge_base_search'', ''builtin_knowledge_base_list'',
      ''builtin_scratchpad_search'', ''builtin_conversation_search'']"

definition RECALL_REDUCED_PREFIX :: string where
  "RECALL_REDUCED_PREFIX = ''<recall reduced''"

datatype eviction_class = Mechanism | RecalledMemory | ExternalContent

datatype eviction_disposition = Pointer | ReduceToSubstance

fun class_disposition :: "eviction_class \<Rightarrow> eviction_disposition" where
  "class_disposition Mechanism = Pointer"
| "class_disposition RecalledMemory = ReduceToSubstance"
| "class_disposition ExternalContent = Pointer"

text \<open>\<^verbatim>\<open>base_tool_name\<close> is the same split as the one of the classification table.\<close>

definition base_tool_name :: "string \<Rightarrow> string" where
  "base_tool_name name = (case rsplit_once ''__'' name of Some (_, tool) \<Rightarrow> tool | None \<Rightarrow> name)"

definition eviction_class_of :: "json_parser \<Rightarrow> string option \<Rightarrow> string \<Rightarrow> eviction_class" where
  "eviction_class_of parse tool_name result =
     (case tool_name of
        None \<Rightarrow> Mechanism
      | Some name \<Rightarrow>
          if name = [] then Mechanism
          else if result_is_externally_controlled parse name result then ExternalContent
          else if base_tool_name name \<in> set MEMORY_SURFACES then RecalledMemory
          else Mechanism)"

definition ROW_ARRAYS :: "string list" where
  "ROW_ARRAYS = [''entries'', ''results'']"

definition SUBSTANCE_FIELDS :: "string list" where
  "SUBSTANCE_FIELDS = [''content'', ''text'', ''body'', ''summary'']"

definition IDENTITY_FIELDS :: "string list" where
  "IDENTITY_FIELDS = [''id'', ''key'', ''name'', ''conversation_id'']"

fun find_map :: "('a \<Rightarrow> 'b option) \<Rightarrow> 'a list \<Rightarrow> 'b option" where
  "find_map f [] = None"
| "find_map f (x # xs) = (case f x of Some y \<Rightarrow> Some y | None \<Rightarrow> find_map f xs)"

definition row_substance :: "json_value \<Rightarrow> string option" where
  "row_substance row =
     (case as_object row of
        None \<Rightarrow> None
      | Some obj \<Rightarrow>
          (case find_map (\<lambda>f. Option.bind (map_of obj f) as_str) SUBSTANCE_FIELDS of
             Some t \<Rightarrow> if trim t = [] then None else Some t
           | None \<Rightarrow> None))"

definition row_identity :: "json_value \<Rightarrow> string option" where
  "row_identity row =
     Option.bind (as_object row) (\<lambda>obj. find_map (\<lambda>f. Option.bind (map_of obj f) as_str) IDENTITY_FIELDS)"

fun reduce_rows :: "json_value list \<Rightarrow> string \<Rightarrow> string" where
  "reduce_rows [] body = body"
| "reduce_rows (row # rows) body =
     (case row_substance row of
        None \<Rightarrow> reduce_rows rows body
      | Some t \<Rightarrow>
          reduce_rows rows
            (body @ (if body = [] then [] else [CHR 0x0A]) @
             (case row_identity row of Some i \<Rightarrow> ''['' @ i @ '']'' @ [CHR 0x0A] | None \<Rightarrow> []) @ t @ [CHR 0x0A]))"

definition ran_clause :: "string option \<Rightarrow> string" where
  "ran_clause tool_name =
     (case tool_name of
        Some n \<Rightarrow> if n = [] then [] else '' (ran '' @ n @ '')''
      | None \<Rightarrow> [])"

definition reduce_recalled_result :: "json_parser \<Rightarrow> string option \<Rightarrow> string \<Rightarrow> string \<Rightarrow> string option" where
  "reduce_recalled_result parse tool_name message_id result =
     (case Option.bind (parse result) (\<lambda>payload. find_map (\<lambda>f. Option.bind (json_get f payload) as_array) ROW_ARRAYS) of
        None \<Rightarrow> None
      | Some rows \<Rightarrow>
          let body = reduce_rows rows []
          in if body = [] then None
             else let reduced = RECALL_REDUCED_PREFIX @ ran_clause tool_name @
                        '': entry text only, envelope dropped. Whole result: '' @ TRANSCRIPT_GET_TOOL @
                        '' message_id='' @ [CHR 0x22] @ message_id @ [CHR 0x22] @ ''.>'' @ [CHR 0x0A] @ body
                  in if length reduced < length result then Some reduced else None)"

section \<open>Eviction\<close>

definition COMPACTION_MIN_EVICT_BYTES :: nat where
  "COMPACTION_MIN_EVICT_BYTES = 512"

definition COMPACTION_POINTER_PREFIX :: string where
  "COMPACTION_POINTER_PREFIX = ''<compacted to scratchpad''"

datatype evict_reason = StepCompleted | Superseded

datatype distilled_trace = Written | Absent

fun evict_cause :: "evict_reason \<Rightarrow> string" where
  "evict_cause StepCompleted = ''when its step completed (no carry-forward note was recorded)''"
| "evict_cause Superseded = ''once a later round superseded it''"

definition compaction_pointer :: "string option \<Rightarrow> string \<Rightarrow> string list \<Rightarrow> evict_reason \<Rightarrow> string" where
  "compaction_pointer tool_name message_id note_keys reason =
     (if note_keys = []
      then COMPACTION_POINTER_PREFIX @ ran_clause tool_name @
           '': this result was dropped from working context '' @ evict_cause reason @
           ''. Read it back with '' @ TRANSCRIPT_GET_TOOL @ '' message_id='' @
           [CHR 0x22] @ message_id @ [CHR 0x22] @ '' rather than running the tool again.>''
      else COMPACTION_POINTER_PREFIX @ ran_clause tool_name @
           '': this result was distilled into scratchpad note(s) '' @
           join_str '', '' (map (\<lambda>k. [CHR 0x22] @ k @ [CHR 0x22]) note_keys) @
           '' and dropped from working context to keep the turn lean. Re-read the note(s) '' @
           ''with builtin_scratchpad_search, or read the full output back with '' @ TRANSCRIPT_GET_TOOL @
           '' message_id='' @ [CHR 0x22] @ message_id @ [CHR 0x22] @ '' rather than running the tool again.>'')"

definition tool_names_by_call_id :: "message list \<Rightarrow> (string, string) hashmap" where
  "tool_names_by_call_id messages =
     fold (\<lambda>m names. if msg_role m = Assistant
                      then fold (\<lambda>tc. hm_insert (tc_id tc) (tc_name tc)) (msg_tool_calls m) names
                      else names) messages []"

definition tool_name_of :: "(string, string) hashmap \<Rightarrow> message \<Rightarrow> string option" where
  "tool_name_of names m = Option.bind (msg_tool_call_id m) (hm_get names)"

record eviction_outcome =
  eo_evicted :: nat
  eo_freed :: nat
  eo_reduced :: nat
  eo_reduced_bytes :: nat

definition outcome_default :: eviction_outcome where
  "outcome_default = \<lparr>eo_evicted = 0, eo_freed = 0, eo_reduced = 0, eo_reduced_bytes = 0\<rparr>"

definition touched_anything :: "eviction_outcome \<Rightarrow> bool" where
  "touched_anything out \<longleftrightarrow> 0 < eo_evicted out \<or> 0 < eo_reduced out"

text \<open>What one pass does with one message: leave it, keep its substance, or point at it.\<close>

datatype eviction_move = Leave | Reduce string | PointAt string

definition eviction_move ::
  "json_parser \<Rightarrow> (string, string) hashmap \<Rightarrow> string list \<Rightarrow> distilled_trace \<Rightarrow> evict_reason \<Rightarrow>
   projection \<Rightarrow> message \<Rightarrow> eviction_move" where
  "eviction_move parse names note_keys trace reason p m =
     (let current = projected p m; tool_name = tool_name_of names m;
          pointer = compaction_pointer tool_name (msg_id m) note_keys reason;
          point = (if length pointer < length current then PointAt pointer else Leave)
      in if msg_role m \<noteq> ToolRole \<or> length current < COMPACTION_MIN_EVICT_BYTES then Leave
         else if prefix COMPACTION_POINTER_PREFIX current \<or> prefix RECALL_REDUCED_PREFIX current then Leave
         else if class_disposition (eviction_class_of parse tool_name current) = ReduceToSubstance
         then (case reduce_recalled_result parse tool_name (msg_id m) current of
                 Some reduced \<Rightarrow> Reduce reduced
               | None \<Rightarrow> if trace = Absent then Leave else point)
         else point)"

fun evict_loop ::
  "json_parser \<Rightarrow> (string, string) hashmap \<Rightarrow> string list \<Rightarrow> distilled_trace \<Rightarrow> evict_reason \<Rightarrow>
   message list \<Rightarrow> projection \<Rightarrow> eviction_outcome \<Rightarrow> message list \<times> projection \<times> eviction_outcome" where
  "evict_loop parse names keys trace reason [] p out = ([], p, out)"
| "evict_loop parse names keys trace reason (m # ms) p out =
     (case eviction_move parse names keys trace reason p m of
        Leave \<Rightarrow>
          (let (ms', p', out') = evict_loop parse names keys trace reason ms p out in (m # ms', p', out'))
      | Reduce reduced \<Rightarrow>
          (let (ms', p', out') = evict_loop parse names keys trace reason ms (projection_replace m reduced p)
             (out\<lparr>eo_reduced := eo_reduced out + 1,
                  eo_reduced_bytes := eo_reduced_bytes out + (length (projected p m) - length reduced)\<rparr>)
           in (m # ms', p', out'))
      | PointAt pointer \<Rightarrow>
          (let (ms', p', out') = evict_loop parse names keys trace reason ms (projection_replace m pointer p)
             (out\<lparr>eo_freed := eo_freed out + (length (projected p m) - length pointer),
                  eo_evicted := eo_evicted out + 1\<rparr>)
           in ((if trace = Written \<and> keys \<noteq> [] then m\<lparr>msg_distilled_into := keys\<rparr> else m) # ms', p', out')))"

definition evict_tool_results ::
  "json_parser \<Rightarrow> message list \<Rightarrow> projection \<Rightarrow> nat \<Rightarrow> string list \<Rightarrow> distilled_trace \<Rightarrow> evict_reason \<Rightarrow>
   message list \<times> projection \<times> eviction_outcome" where
  "evict_tool_results parse messages p from note_keys trace reason =
     (let start = min from (length messages);
          (ms', p', out) = evict_loop parse (tool_names_by_call_id messages) note_keys trace reason
                             (drop start messages) p outcome_default
      in (take start messages @ ms', p', out))"

definition evict_superseded_tool_results ::
  "json_parser \<Rightarrow> message list \<Rightarrow> projection \<Rightarrow> nat \<Rightarrow> message list \<times> projection \<times> eviction_outcome" where
  "evict_superseded_tool_results parse messages p limit =
     (let k = min limit (length messages);
          (ms', p', out) = evict_tool_results parse (take k messages) p 0 [] Absent Superseded
      in (ms' @ drop k messages, p', out))"

definition carry_pointer :: "(string, string) hashmap \<Rightarrow> message \<Rightarrow> string" where
  "carry_pointer names m = compaction_pointer (tool_name_of names m) (msg_id m) (msg_distilled_into m) StepCompleted"

fun carry_loop ::
  "(string, string) hashmap \<Rightarrow> string set \<Rightarrow> message list \<Rightarrow> projection \<Rightarrow> projection \<times> nat \<times> nat" where
  "carry_loop names live [] p = (p, 0, 0)"
| "carry_loop names live (m # ms) p =
     (if msg_distilled_into m = [] \<or> is_replaced p m then carry_loop names live ms p
      else if \<not> set (msg_distilled_into m) \<subseteq> live then carry_loop names live ms p
      else if length (msg_content m) \<le> length (carry_pointer names m) then carry_loop names live ms p
      else let (p', carried, saved) = carry_loop names live ms (projection_replace m (carry_pointer names m) p)
           in (p', carried + 1, saved + (length (msg_content m) - length (carry_pointer names m))))"

definition carry_evictions :: "message list \<Rightarrow> projection \<Rightarrow> string set \<Rightarrow> projection \<times> nat \<times> nat" where
  "carry_evictions messages p live_note_keys =
     carry_loop (tool_names_by_call_id messages) live_note_keys messages p"

definition distilled_note_keys :: "message list \<Rightarrow> string list" where
  "distilled_note_keys messages =
     fold (\<lambda>key keys. if key \<in> set keys then keys else keys @ [key]) (concat (map msg_distilled_into messages)) []"

record tool_byte_census =
  cen_total :: nat
  cen_carried :: nat
  cen_evicted :: nat
  cen_reduced :: nat

definition shrunk_elsewhere :: "tool_byte_census \<Rightarrow> nat" where
  "shrunk_elsewhere c = (cen_total c - cen_carried c) - (cen_evicted c + cen_reduced c)"

definition carried_percent :: "tool_byte_census \<Rightarrow> nat" where
  "carried_percent c = (if cen_total c = 0 then 0 else (cen_carried c * 100) div cen_total c)"

definition census_add :: "projection \<Rightarrow> message \<Rightarrow> tool_byte_census \<Rightarrow> tool_byte_census" where
  "census_add p m c =
     (let stored = length (msg_content m); current = projected p m;
          c1 = c\<lparr>cen_total := cen_total c + stored, cen_carried := cen_carried c + length current\<rparr>;
          saved = stored - length current
      in if prefix COMPACTION_POINTER_PREFIX current then c1\<lparr>cen_evicted := cen_evicted c1 + saved\<rparr>
         else if prefix RECALL_REDUCED_PREFIX current then c1\<lparr>cen_reduced := cen_reduced c1 + saved\<rparr>
         else c1)"

definition tool_byte_census :: "message list \<Rightarrow> projection \<Rightarrow> tool_byte_census" where
  "tool_byte_census messages p =
     fold (census_add p) (filter (\<lambda>m. msg_role m = ToolRole) messages)
       \<lparr>cen_total = 0, cen_carried = 0, cen_evicted = 0, cen_reduced = 0\<rparr>"

section \<open>The passes as sweeps\<close>

definition evict_edit ::
  "json_parser \<Rightarrow> (string, string) hashmap \<Rightarrow> string list \<Rightarrow> distilled_trace \<Rightarrow> evict_reason \<Rightarrow>
   projection \<Rightarrow> message \<Rightarrow> string option" where
  "evict_edit parse names keys trace reason p m =
     (case eviction_move parse names keys trace reason p m of
        Leave \<Rightarrow> None | Reduce reduced \<Rightarrow> Some reduced | PointAt pointer \<Rightarrow> Some pointer)"

lemma compaction_pointer_prefix [simp]: "prefix COMPACTION_POINTER_PREFIX (compaction_pointer t i ks r)"
  by (simp add: compaction_pointer_def)

lemma reduce_recalled_Some:
  "reduce_recalled_result parse t i result = Some reduced \<Longrightarrow>
     prefix RECALL_REDUCED_PREFIX reduced \<and> length reduced < length result"
  by (auto simp: reduce_recalled_result_def Let_def split: option.splits if_splits)

text \<open>The cases of a move that changes something.\<close>

lemma eviction_move_Reduce:
  "eviction_move parse names keys trace reason p m = Reduce c \<Longrightarrow>
     msg_role m = ToolRole \<and> prefix RECALL_REDUCED_PREFIX c \<and> length c < length (projected p m) \<and>
     eviction_class_of parse (tool_name_of names m) (projected p m) = RecalledMemory \<and>
     reduce_recalled_result parse (tool_name_of names m) (msg_id m) (projected p m) = Some c"
  by (cases "eviction_class_of parse (tool_name_of names m) (projected p m)")
    (auto simp: eviction_move_def Let_def dest: reduce_recalled_Some split: if_splits option.splits)

lemma eviction_move_PointAt:
  "eviction_move parse names keys trace reason p m = PointAt c \<Longrightarrow>
     msg_role m = ToolRole \<and> c = compaction_pointer (tool_name_of names m) (msg_id m) keys reason \<and>
     length c < length (projected p m) \<and>
     (trace = Absent \<longrightarrow> eviction_class_of parse (tool_name_of names m) (projected p m) \<noteq> RecalledMemory)"
  by (cases "eviction_class_of parse (tool_name_of names m) (projected p m)")
    (auto simp: eviction_move_def Let_def split: if_splits option.splits)

lemma evict_edit_Some:
  "evict_edit parse names keys trace reason p m = Some c \<Longrightarrow>
     length c < length (projected p m) \<and> msg_role m = ToolRole \<and>
     (prefix COMPACTION_POINTER_PREFIX c \<or> prefix RECALL_REDUCED_PREFIX c)"
  by (auto simp: evict_edit_def dest: eviction_move_Reduce eviction_move_PointAt split: eviction_move.splits)

lemma eviction_move_settled:
  "prefix COMPACTION_POINTER_PREFIX (projected p m) \<or> prefix RECALL_REDUCED_PREFIX (projected p m) \<Longrightarrow>
     eviction_move parse names keys trace reason p m = Leave"
  by (auto simp: eviction_move_def Let_def)

lemma eviction_move_local:
  "projected q m = projected p m \<Longrightarrow>
     eviction_move parse names keys trace reason q m = eviction_move parse names keys trace reason p m"
  by (simp add: eviction_move_def)

fun evict_sweep ::
  "json_parser \<Rightarrow> (string, string) hashmap \<Rightarrow> string list \<Rightarrow> distilled_trace \<Rightarrow> evict_reason \<Rightarrow>
   message list \<Rightarrow> projection \<Rightarrow> projection" where
  "evict_sweep parse names keys trace reason [] p = p"
| "evict_sweep parse names keys trace reason (m # ms) p =
     evict_sweep parse names keys trace reason ms
       (case evict_edit parse names keys trace reason p m of None \<Rightarrow> p | Some c \<Rightarrow> projection_replace m c p)"

interpretation evict: shrinking_sweep "evict_edit parse names keys trace reason"
    "evict_sweep parse names keys trace reason"
  for parse names keys trace reason
proof unfold_locales
  show "length c < length (projected p m)" if "evict_edit parse names keys trace reason p m = Some c" for p m c
    using evict_edit_Some[OF that] by blast
  show "evict_edit parse names keys trace reason (projection_replace m c p) m' = None"
    if "evict_edit parse names keys trace reason p m = Some c" and "msg_id m' = msg_id m" for p m c m'
    using evict_edit_Some[OF that(1)] that(2) eviction_move_settled[of "projection_replace m c p" m']
    by (simp add: projection_simps evict_edit_def)
  show "evict_edit parse names keys trace reason (projection_replace m c p) m' =
      evict_edit parse names keys trace reason p m'" if "msg_id m' \<noteq> msg_id m" for p m c m'
    using eviction_move_local[of "projection_replace m c p" m' p] that by (simp add: projection_simps evict_edit_def)
qed simp_all

definition carry_edit :: "(string, string) hashmap \<Rightarrow> string set \<Rightarrow> projection \<Rightarrow> message \<Rightarrow> string option" where
  "carry_edit names live p m =
     (if msg_distilled_into m \<noteq> [] \<and> \<not> is_replaced p m \<and> set (msg_distilled_into m) \<subseteq> live \<and>
         length (carry_pointer names m) < length (msg_content m)
      then Some (carry_pointer names m) else None)"

interpretation carry: shrinking_sweep "carry_edit names live" "\<lambda>ms p. fst (carry_loop names live ms p)"
  for names live
  by unfold_locales
    (auto simp: carry_edit_def projection_simps split: if_splits prod.splits)

section \<open>What a pass keeps and what it saves\<close>

abbreviation skeleton :: "message \<Rightarrow> message" where
  "skeleton m \<equiv> m\<lparr>msg_distilled_into := []\<rparr>"

definition bytes_read :: "projection \<Rightarrow> message list \<Rightarrow> nat" where
  "bytes_read p ms = sum_list (map (\<lambda>m. length (projected p m)) ms)"

lemma evict_loop_projection:
  "fst (snd (evict_loop parse names keys trace reason ms p out)) = evict_sweep parse names keys trace reason ms p"
proof (induction ms arbitrary: p out)
  case (Cons m ms)
  then show ?case
    by (cases "eviction_move parse names keys trace reason p m") (auto simp: evict_edit_def case_prod_beta)
qed simp

lemma evict_loop_skeleton:
  "map skeleton (fst (evict_loop parse names keys trace reason ms p out)) = map skeleton ms"
proof (induction ms arbitrary: p out)
  case (Cons m ms)
  then show ?case by (cases "eviction_move parse names keys trace reason p m") (auto simp: case_prod_beta)
qed simp

lemma evict_loop_idle:
  "(\<And>m. m \<in> set ms \<Longrightarrow> eviction_move parse names keys trace reason p m = Leave) \<Longrightarrow>
     evict_loop parse names keys trace reason ms p out = (ms, p, out)"
  by (induction ms) simp_all

lemma bytes_read_replace:
  "msg_id m \<notin> msg_id ` set ms \<Longrightarrow> bytes_read (projection_replace m c p) ms = bytes_read p ms"
  by (induction ms) (auto simp: bytes_read_def projection_simps)

lemma evict_loop_accounts:
  assumes "distinct (map msg_id ms)" and "evict_loop parse names keys trace reason ms p out = (ms', p', out')"
  shows "bytes_read p ms + eo_freed out + eo_reduced_bytes out =
    bytes_read p' ms + eo_freed out' + eo_reduced_bytes out'"
  using assms
proof (induction ms arbitrary: p out ms')
  case (Cons m ms)
  let ?q = "case evict_edit parse names keys trace reason p m of None \<Rightarrow> p | Some c \<Rightarrow> projection_replace m c p"
  have p': "p' = evict_sweep parse names keys trace reason ms ?q"
    using evict_loop_projection[of parse names keys trace reason "m # ms" p out] Cons.prems(2) by simp
  have fresh: "msg_id m \<notin> msg_id ` set ms" using Cons.prems(1) by auto
  have now: "projected p' m = projected ?q m" unfolding p' by (rule evict.sweep_outside[OF fresh])
  show ?case
  proof (cases "eviction_move parse names keys trace reason p m")
    case Leave
    then show ?thesis using Cons.IH[of p out] Cons.prems now
      by (auto simp: bytes_read_def evict_edit_def split: prod.splits)
  next
    case (Reduce c)
    then obtain ms1 where run: "evict_loop parse names keys trace reason ms (projection_replace m c p)
        (out\<lparr>eo_reduced := eo_reduced out + 1,
             eo_reduced_bytes := eo_reduced_bytes out + (length (projected p m) - length c)\<rparr>) = (ms1, p', out')"
      using Cons.prems(2) by (auto split: prod.splits)
    have lt: "length c < length (projected p m)" using eviction_move_Reduce[OF Reduce] by blast
    from Cons.IH[OF _ run] lt show ?thesis
      using Reduce Cons.prems(1) now bytes_read_replace[OF fresh, of c p]
      by (simp add: bytes_read_def evict_edit_def projection_simps)
  next
    case (PointAt c)
    then obtain ms1 where run: "evict_loop parse names keys trace reason ms (projection_replace m c p)
        (out\<lparr>eo_freed := eo_freed out + (length (projected p m) - length c), eo_evicted := eo_evicted out + 1\<rparr>)
          = (ms1, p', out')"
      using Cons.prems(2) by (auto split: prod.splits)
    have lt: "length c < length (projected p m)" using eviction_move_PointAt[OF PointAt] by blast
    from Cons.IH[OF _ run] lt show ?thesis
      using PointAt Cons.prems(1) now bytes_read_replace[OF fresh, of c p]
      by (simp add: bytes_read_def evict_edit_def projection_simps)
  qed
qed simp

lemma skeleton_fields:
  "skeleton m = skeleton m' \<Longrightarrow> msg_id m = msg_id m' \<and> msg_role m = msg_role m' \<and> msg_content m = msg_content m' \<and>
     msg_tool_calls m = msg_tool_calls m' \<and> msg_tool_call_id m = msg_tool_call_id m'"
  by (metis message.ext_inject message.surjective message.update_convs(8))

lemma eviction_move_skeleton:
  "skeleton m = skeleton m' \<Longrightarrow>
     eviction_move parse names keys trace reason p m = eviction_move parse names keys trace reason p m'"
proof -
  assume "skeleton m = skeleton m'"
  then have eqs: "msg_id m = msg_id m'" "msg_role m = msg_role m'" "msg_content m = msg_content m'"
    "msg_tool_call_id m = msg_tool_call_id m'" using skeleton_fields by blast+
  show ?thesis unfolding eviction_move_def projected_def tool_name_of_def eqs ..
qed

lemma tool_names_skeleton: "map skeleton ms = map skeleton ms' \<Longrightarrow> tool_names_by_call_id ms = tool_names_by_call_id ms'"
proof -
  assume eq: "map skeleton ms = map skeleton ms'"
  define f :: "message \<Rightarrow> (string, string) hashmap \<Rightarrow> (string, string) hashmap" where "f = (\<lambda>m names. if msg_role m = Assistant
                      then fold (\<lambda>tc. hm_insert (tc_id tc) (tc_name tc)) (msg_tool_calls m) names else names)"
  have "fold f ms acc = fold f (map skeleton ms) acc" for ms :: "message list" and acc :: "(string, string) hashmap"
    by (induction ms arbitrary: acc) (simp_all add: f_def)
  then show ?thesis using eq unfolding tool_names_by_call_id_def f_def[symmetric] by metis
qed

lemma evict_loop_settled:
  assumes "evict_loop parse names keys trace reason ms p out = (ms', p', out')"
  shows "evict_loop parse names keys trace reason ms' p' out1 = (ms', p', out1)"
proof (rule evict_loop_idle)
  fix m' assume "m' \<in> set ms'"
  moreover have sk: "map skeleton ms' = map skeleton ms" and p': "p' = evict_sweep parse names keys trace reason ms p"
    using evict_loop_skeleton[of parse names keys trace reason ms p out]
      evict_loop_projection[of parse names keys trace reason ms p out] assms by auto
  ultimately have "skeleton m' \<in> skeleton ` set ms" by (metis image_eqI list.set_map)
  then obtain m where m: "m \<in> set ms" "skeleton m' = skeleton m" by auto
  have "evict_edit parse names keys trace reason p' m = None" unfolding p' by (rule evict.sweep_settles[OF m(1)])
  then show "eviction_move parse names keys trace reason p' m' = Leave"
    using eviction_move_skeleton[OF m(2), of parse names keys trace reason p']
    by (auto simp: evict_edit_def split: eviction_move.splits)
qed

lemma evict_tool_resultsE:
  assumes "evict_tool_results parse ms p from keys trace reason = (ms', p', out)"
  obtains rest where
    "evict_loop parse (tool_names_by_call_id ms) keys trace reason (drop from ms) p outcome_default = (rest, p', out)"
    "ms' = take from ms @ rest" "map skeleton ms' = map skeleton ms" "length rest = length (drop from ms)"
proof -
  obtain rest where run: "evict_loop parse (tool_names_by_call_id ms) keys trace reason
      (drop (min from (length ms)) ms) p outcome_default = (rest, p', out)"
    and ms': "ms' = take (min from (length ms)) ms @ rest"
    using assms by (auto simp: evict_tool_results_def Let_def split: prod.splits)
  have cutoff: "drop (min from (length ms)) ms = drop from ms" "take (min from (length ms)) ms = take from ms"
    by (simp_all add: min_def)
  have sk: "map skeleton rest = map skeleton (drop from ms)"
    using evict_loop_skeleton[of parse "tool_names_by_call_id ms" keys trace reason "drop from ms" p outcome_default]
      run cutoff by simp
  then have "map skeleton (take from ms @ rest) = map skeleton ms" by (metis append_take_drop_id map_append)
  then show thesis using that[of rest] run ms' cutoff map_eq_imp_length_eq[OF sk] by simp
qed

text \<open>
  C25: What an eviction does to a turn. On a transcript whose message ids are distinct, the rows
  are unchanged but for the recorded decision, so every call keeps its result; rows before the
  watermark are untouched and read as before; no row is read longer than before; the bytes the
  round no longer reads are exactly those the outcome reports as freed and reduced; and the
  same eviction run again changes nothing and reports nothing.
\<close>

theorem eviction_accounts_for_its_savings:
  assumes "distinct (map msg_id ms)"
    and "evict_tool_results parse ms p from keys trace reason = (ms', p', out)"
  shows "map skeleton ms' = map skeleton ms \<and>
    take from ms' = take from ms \<and>
    (\<forall>m\<in>set (take from ms). projected p' m = projected p m) \<and>
    (\<forall>m\<in>set ms. length (projected p' m) \<le> length (projected p m)) \<and>
    bytes_read p ms = bytes_read p' ms + eo_freed out + eo_reduced_bytes out \<and>
    evict_tool_results parse ms' p' from keys trace reason = (ms', p', outcome_default)"
proof -
  from assms(2) obtain rest where
    run: "evict_loop parse (tool_names_by_call_id ms) keys trace reason (drop from ms) p outcome_default = (rest, p', out)"
    and ms': "ms' = take from ms @ rest" and sk: "map skeleton ms' = map skeleton ms"
    and len: "length rest = length (drop from ms)"
    by (rule evict_tool_resultsE)
  have p': "p' = evict_sweep parse (tool_names_by_call_id ms) keys trace reason (drop from ms) p"
    using evict_loop_projection[of parse "tool_names_by_call_id ms" keys trace reason "drop from ms" p outcome_default] run by simp
  have split: "ms = take from ms @ drop from ms" by simp
  have dist: "distinct (map msg_id (take from ms) @ map msg_id (drop from ms))"
    using assms(1) by (metis append_take_drop_id map_append)
  have before: "projected p' m = projected p m" if "m \<in> set (take from ms)" for m
    unfolding p' by (rule evict.sweep_outside) (use dist that in auto)
  have shrink: "length (projected p' m) \<le> length (projected p m)" if "m \<in> set ms" for m
  proof -
    have "insert m (set (drop from ms)) \<subseteq> set ms" using that by (auto dest: in_set_dropD)
    then have "inj_on msg_id (insert m (set (drop from ms)))" using assms(1) by (meson distinct_map inj_on_subset)
    then show ?thesis unfolding p' by (rule evict.sweep_shrinks)
  qed
  have "bytes_read p (drop from ms) = bytes_read p' (drop from ms) + eo_freed out + eo_reduced_bytes out"
    using evict_loop_accounts[OF _ run] dist by (simp add: outcome_default_def)
  moreover have "bytes_read p (take from ms) = bytes_read p' (take from ms)"
    using before by (simp add: bytes_read_def cong: map_cong)
  moreover have "bytes_read q ms = bytes_read q (take from ms) + bytes_read q (drop from ms)" for q
    unfolding bytes_read_def by (metis append_take_drop_id map_append sum_list_append)
  ultimately have bytes: "bytes_read p ms = bytes_read p' ms + eo_freed out + eo_reduced_bytes out" by simp
  have pos: "take from ms' = take from ms" "drop (min from (length ms')) ms' = rest"
    "take (min from (length ms')) ms' = take from ms"
    using ms' len by (auto simp: min_def)
  have "evict_tool_results parse ms' p' from keys trace reason = (ms', p', outcome_default)"
    unfolding evict_tool_results_def Let_def pos(2,3) tool_names_skeleton[OF sk]
      evict_loop_settled[OF run, of outcome_default] using ms' by simp
  then show ?thesis using sk pos(1) before shrink bytes by blast
qed

section \<open>Recalls, external content and names\<close>

lemma evict_reads:
  assumes "distinct (map msg_id ms)" and "evict_tool_results parse ms p from keys trace reason = (ms', p', out)"
    and "m \<in> set (drop from ms)"
  shows "projected p' m =
    (case eviction_move parse (tool_names_by_call_id ms) keys trace reason p m of
       Leave \<Rightarrow> projected p m | Reduce c \<Rightarrow> c | PointAt c \<Rightarrow> c)"
proof -
  from assms(2) obtain rest where
    "evict_loop parse (tool_names_by_call_id ms) keys trace reason (drop from ms) p outcome_default = (rest, p', out)"
    by (rule evict_tool_resultsE)
  then have "p' = evict_sweep parse (tool_names_by_call_id ms) keys trace reason (drop from ms) p"
    using evict_loop_projection[of parse "tool_names_by_call_id ms" keys trace reason "drop from ms" p outcome_default] by simp
  moreover have "distinct (map msg_id (drop from ms))" using assms(1) by (simp add: drop_map[symmetric])
  ultimately show ?thesis
    using evict.sweep_read[of "drop from ms" m parse "tool_names_by_call_id ms" keys trace reason p] assms(3)
    by (auto simp: evict_edit_def split: eviction_move.splits)
qed

text \<open>
  What an eviction without a written note may do to a result, by its class. A recall is
  read whole or as its own entry text, never as a pointer; external content is never rewritten
  into a reduction: it is read whole or as a pointer that names the message and the reader.
\<close>

theorem recall_survives_eviction:
  assumes "distinct (map msg_id ms)" and "evict_tool_results parse ms p from keys Absent reason = (ms', p', out)"
    and "m \<in> set (drop from ms)"
  defines "tool \<equiv> tool_name_of (tool_names_by_call_id ms) m"
  shows "(eviction_class_of parse tool (projected p m) = RecalledMemory \<longrightarrow>
      projected p' m = projected p m \<or>
      reduce_recalled_result parse tool (msg_id m) (projected p m) = Some (projected p' m)) \<and>
    (eviction_class_of parse tool (projected p m) \<noteq> RecalledMemory \<longrightarrow>
      projected p' m = projected p m \<or>
      projected p' m = compaction_pointer tool (msg_id m) keys reason)"
  using evict_reads[OF assms(1-3)]
  by (auto simp: tool_def split: eviction_move.splits dest: eviction_move_Reduce eviction_move_PointAt)

text \<open>
  Which offered tools count as memory. A tool called under the name it is offered by, which
  the requests in the transcript carry, is taken for a memory surface only if that name has a
  namespace: a name composed from a provider name without one is never classed as recalled
  memory, whichever tool it stands for, and its result is evicted to a pointer like any other.
\<close>

theorem composed_name_is_never_recall:
  assumes "compose_name location provider_name = Some name"
    and "rsplit_once NAMESPACE_SEP (strip_location name) = None"
  shows "eviction_class_of parse (Some name) result = Mechanism"
proof -
  obtain segment where seg: "name = location_root location @ segment" "segment \<noteq> []" "\<not> is_separator (hd segment)"
      "strip_location name = segment"
    using composed_segment[OF assms(1)] by blast
  have "rsplit_once ''__'' name = None"
    using rsplit_once_root[of segment location] seg assms(2) by (simp add: NAMESPACE_SEP_def)
  then have "base_tool_name name \<notin> set MEMORY_SURFACES"
    using seg(1) by (cases location) (simp_all add: base_tool_name_def MEMORY_SURFACES_def)
  moreover have "\<not> result_is_externally_controlled parse name result"
    using composed_classification[OF assms(1)] assms(2)
    by (simp add: result_is_externally_controlled_def UNCLASSIFIED_def)
  ultimately show ?thesis using seg(1) by (simp add: eviction_class_of_def)
qed

section \<open>Carrying a decision to a later turn\<close>

lemma evict_loop_records:
  assumes "distinct (map msg_id ms)" and "evict_loop parse names keys Written reason ms p out = (ms', p', out')"
    and "keys \<noteq> []" and "m \<in> set ms" and "eviction_move parse names keys Written reason p m = PointAt c"
  shows "m\<lparr>msg_distilled_into := keys\<rparr> \<in> set ms'"
  using assms
proof (induction ms arbitrary: p out ms')
  case (Cons x ms)
  have "\<exists>q out1 ms1. evict_loop parse names keys Written reason ms q out1 = (ms1, p', out') \<and> set ms1 \<subseteq> set ms' \<and>
      (q = p \<or> (\<exists>d. q = projection_replace x d p)) \<and>
      ((\<exists>d. eviction_move parse names keys Written reason p x = PointAt d) \<longrightarrow> x\<lparr>msg_distilled_into := keys\<rparr> \<in> set ms')"
  proof (cases "eviction_move parse names keys Written reason p x")
    case Leave
    then obtain ms1 where "evict_loop parse names keys Written reason ms p out = (ms1, p', out')" "ms' = x # ms1"
      using Cons.prems(2) by (auto split: prod.splits)
    then show ?thesis using Leave by (intro exI[of _ p] exI[of _ out] exI[of _ ms1]) auto
  next
    case (Reduce d)
    then obtain out1 ms1 where "evict_loop parse names keys Written reason ms (projection_replace x d p) out1 = (ms1, p', out')"
      "ms' = x # ms1" using Cons.prems(2) by (auto split: prod.splits)
    then show ?thesis using Reduce by (intro exI[of _ "projection_replace x d p"] exI[of _ out1] exI[of _ ms1]) auto
  next
    case (PointAt d)
    then obtain out1 ms1 where "evict_loop parse names keys Written reason ms (projection_replace x d p) out1 = (ms1, p', out')"
      "ms' = x\<lparr>msg_distilled_into := keys\<rparr> # ms1" using Cons.prems(2,3) by (auto split: prod.splits)
    then show ?thesis by (intro exI[of _ "projection_replace x d p"] exI[of _ out1] exI[of _ ms1]) auto
  qed
  then obtain q out1 ms1 where run: "evict_loop parse names keys Written reason ms q out1 = (ms1, p', out')"
    and sub: "set ms1 \<subseteq> set ms'" and qp: "q = p \<or> (\<exists>d. q = projection_replace x d p)"
    and hd: "m = x \<Longrightarrow> m\<lparr>msg_distilled_into := keys\<rparr> \<in> set ms'"
    using Cons.prems(5) by blast
  have q: "projected q y = projected p y" if "y \<in> set ms" for y
  proof -
    have "msg_id y \<noteq> msg_id x" using that Cons.prems(1) by (metis distinct.simps(2) imageI list.set_map list.simps(9))
    then show ?thesis using qp by (auto simp: projection_simps)
  qed
  show ?case
  proof (cases "m = x")
    case False
    then have m: "m \<in> set ms" using Cons.prems(4) by simp
    have "eviction_move parse names keys Written reason q m = PointAt c"
      using eviction_move_local[OF q[OF m]] Cons.prems(5) by simp
    then show ?thesis using Cons.IH[OF _ run Cons.prems(3) m] Cons.prems(1) sub by auto
  qed (rule hd)
qed simp

lemma projected_distilled [simp]: "projected q (m\<lparr>msg_distilled_into := ks\<rparr>) = projected q m"
  by (cases "hm_get q (msg_id m)") (simp_all add: projected_def)

lemma prefixes_differ: "prefix COMPACTION_POINTER_PREFIX c \<Longrightarrow> \<not> prefix RECALL_REDUCED_PREFIX c"
  by (auto simp: COMPACTION_POINTER_PREFIX_def RECALL_REDUCED_PREFIX_def prefix_def)

lemma skeleton_distinct: "map skeleton ms' = map skeleton ms \<Longrightarrow> map msg_id ms' = map msg_id ms"
proof -
  assume "map skeleton ms' = map skeleton ms"
  then have "map msg_id (map skeleton ms') = map msg_id (map skeleton ms)" by (rule arg_cong)
  then show ?thesis by (simp add: comp_def)
qed

lemma carry_reads:
  assumes "distinct (map msg_id ms)" and "carry_evictions ms [] live = (q, n, saved)" and "m \<in> set ms"
  shows "projected q m = (case carry_edit (tool_names_by_call_id ms) live [] m of None \<Rightarrow> msg_content m | Some c \<Rightarrow> c)"
  using carry.sweep_read[OF assms(1,3), of "tool_names_by_call_id ms" live "[]"] assms(2)
  by (simp add: carry_evictions_def projection_simps cong: option.case_cong)

lemma evicted_row_recorded:
  assumes "distinct (map msg_id ms)" and "keys \<noteq> []"
    and run: "evict_tool_results parse ms p from keys Written StepCompleted = (ms', p', out)"
    and m: "m \<in> set (drop from ms)" and "prefix COMPACTION_POINTER_PREFIX (projected p' m)"
    and "projected p' m \<noteq> projected p m"
  shows "m\<lparr>msg_distilled_into := keys\<rparr> \<in> set ms' \<and> length (projected p' m) < length (projected p m) \<and>
    projected p' m = compaction_pointer (tool_name_of (tool_names_by_call_id ms') m) (msg_id m) keys StepCompleted"
proof -
  let ?mv = "eviction_move parse (tool_names_by_call_id ms) keys Written StepCompleted p m"
  obtain c where c: "?mv = PointAt c" "projected p' m = c"
    using evict_reads[OF assms(1) run m] assms(5,6) prefixes_differ
    by (auto split: eviction_move.splits dest!: eviction_move_Reduce)
  from run obtain rest where
    loop: "evict_loop parse (tool_names_by_call_id ms) keys Written StepCompleted (drop from ms) p outcome_default = (rest, p', out)"
    and ms': "ms' = take from ms @ rest" and sk: "map skeleton ms' = map skeleton ms" by (rule evict_tool_resultsE)
  have "distinct (map msg_id (drop from ms))" using assms(1) by (simp add: drop_map[symmetric])
  then have "m\<lparr>msg_distilled_into := keys\<rparr> \<in> set ms'" using evict_loop_records[OF _ loop assms(2) m c(1)] ms' by simp
  moreover have "c = compaction_pointer (tool_name_of (tool_names_by_call_id ms') m) (msg_id m) keys StepCompleted"
    "length c < length (projected p m)"
    using eviction_move_PointAt[OF c(1)] tool_names_skeleton[OF sk] by metis+
  ultimately show ?thesis using c(2) by metis
qed

text \<open>
  C26: A later turn reads what the earlier turn decided. Let a completed step evict results into
  the notes it wrote, in a turn that reads no row longer than it is stored. The next turn,
  starting from an empty projection while those notes are there, reads the very same pointer for
  every result the eviction replaced by one; and any row whose recorded notes are not all there
  reads as its stored content.
\<close>

theorem carry_rebuilds_the_pointers:
  assumes "distinct (map msg_id ms)" and "keys \<noteq> []" and "set keys \<subseteq> live"
    and short: "\<And>m. m \<in> set ms \<Longrightarrow> length (projected p m) \<le> length (msg_content m)"
    and run: "evict_tool_results parse ms p from keys Written StepCompleted = (ms', p', out)"
    and carried: "carry_evictions ms' [] live = (q, n, saved)"
  shows "(\<forall>m\<in>set (drop from ms). prefix COMPACTION_POINTER_PREFIX (projected p' m) \<and> projected p' m \<noteq> projected p m \<longrightarrow>
      projected q m = projected p' m) \<and>
    (\<forall>m\<in>set ms'. \<not> set (msg_distilled_into m) \<subseteq> live \<longrightarrow> projected q m = msg_content m)"
proof -
  have sk: "map skeleton ms' = map skeleton ms" using run by (rule evict_tool_resultsE)
  then have dist: "distinct (map msg_id ms')" using assms(1) skeleton_distinct by metis
  have same: "projected q m = projected p' m"
    if m: "m \<in> set (drop from ms)" "prefix COMPACTION_POINTER_PREFIX (projected p' m)" "projected p' m \<noteq> projected p m" for m
  proof -
    let ?m = "m\<lparr>msg_distilled_into := keys\<rparr>"
    note ev = evicted_row_recorded[OF assms(1,2) run m]
    have cp: "carry_pointer (tool_names_by_call_id ms') ?m = projected p' m"
      using ev by (simp add: carry_pointer_def tool_name_of_def)
    have "length (projected p' m) < length (msg_content m)"
      using ev short[OF in_set_dropD[OF m(1)]] by linarith
    then have "carry_edit (tool_names_by_call_id ms') live [] ?m = Some (projected p' m)"
      using cp assms(2,3) by (simp add: carry_edit_def is_replaced_def)
    then have "projected q ?m = projected p' m" using carry_reads[OF dist carried, of ?m] ev by simp
    then show ?thesis by simp
  qed
  have gone: "projected q m = msg_content m" if "m \<in> set ms'" "\<not> set (msg_distilled_into m) \<subseteq> live" for m
    using carry_reads[OF dist carried that(1)] that(2) by (simp add: carry_edit_def)
  show ?thesis using same gone by blast
qed

section \<open>The census\<close>

definition saved_where :: "(string \<Rightarrow> bool) \<Rightarrow> projection \<Rightarrow> message list \<Rightarrow> nat" where
  "saved_where P p ms = sum_list (map (\<lambda>m. if P (projected p m) then length (msg_content m) - length (projected p m) else 0) ms)"

lemma census_fold:
  "fold (census_add p) ms c =
     \<lparr>cen_total = cen_total c + sum_list (map (\<lambda>m. length (msg_content m)) ms),
      cen_carried = cen_carried c + bytes_read p ms,
      cen_evicted = cen_evicted c + saved_where (prefix COMPACTION_POINTER_PREFIX) p ms,
      cen_reduced = cen_reduced c + saved_where (\<lambda>t. \<not> prefix COMPACTION_POINTER_PREFIX t \<and> prefix RECALL_REDUCED_PREFIX t) p ms\<rparr>"
  by (induction ms arbitrary: c) (auto simp: census_add_def bytes_read_def saved_where_def Let_def)

lemma saved_where_bound:
  "(\<And>m. m \<in> set ms \<Longrightarrow> length (projected p m) \<le> length (msg_content m)) \<Longrightarrow>
     bytes_read p ms + saved_where P p ms + saved_where (\<lambda>t. \<not> P t \<and> Q t) p ms \<le> sum_list (map (\<lambda>m. length (msg_content m)) ms)"
proof (induction ms)
  case (Cons m ms)
  have le: "length (projected p m) \<le> length (msg_content m)" using Cons.prems by simp
  have IH: "bytes_read p ms + saved_where P p ms + saved_where (\<lambda>t. \<not> P t \<and> Q t) p ms
      \<le> sum_list (map (\<lambda>m. length (msg_content m)) ms)" using Cons by simp
  have parts: "bytes_read p (m # ms) = length (projected p m) + bytes_read p ms"
    "saved_where R p (m # ms) = (if R (projected p m) then length (msg_content m) - length (projected p m) else 0) +
       saved_where R p ms" for R
    by (simp_all add: bytes_read_def saved_where_def)
  show ?case using IH le by (cases "P (projected p m)"; cases "Q (projected p m)") (simp_all add: parts)
qed (simp add: bytes_read_def saved_where_def)

text \<open>
  The census adds up. Over messages none of which is read longer than it is stored, the
  stored bytes of the tool results are the bytes the prompt carries plus the savings of
  pointers, of reductions and of the other mechanisms, each byte counted once, and the carried
  share is at most a hundred percent.
\<close>

theorem census_adds_up:
  assumes "\<And>m. m \<in> set ms \<Longrightarrow> length (projected p m) \<le> length (msg_content m)"
  defines "c \<equiv> tool_byte_census ms p" and "tools \<equiv> filter (\<lambda>m. msg_role m = ToolRole) ms"
  shows "cen_total c = sum_list (map (\<lambda>m. length (msg_content m)) tools) \<and> cen_carried c = bytes_read p tools \<and>
    cen_total c = cen_carried c + cen_evicted c + cen_reduced c + shrunk_elsewhere c \<and>
    carried_percent c \<le> 100"
proof -
  have le: "bytes_read p tools + saved_where (prefix COMPACTION_POINTER_PREFIX) p tools +
      saved_where (\<lambda>t. \<not> prefix COMPACTION_POINTER_PREFIX t \<and> prefix RECALL_REDUCED_PREFIX t) p tools
      \<le> sum_list (map (\<lambda>m. length (msg_content m)) tools)"
    by (rule saved_where_bound) (use assms(1) in \<open>simp add: tools_def\<close>)
  have c: "c = \<lparr>cen_total = sum_list (map (\<lambda>m. length (msg_content m)) tools), cen_carried = bytes_read p tools,
      cen_evicted = saved_where (prefix COMPACTION_POINTER_PREFIX) p tools,
      cen_reduced = saved_where (\<lambda>t. \<not> prefix COMPACTION_POINTER_PREFIX t \<and> prefix RECALL_REDUCED_PREFIX t) p tools\<rparr>"
    by (simp add: c_def tools_def tool_byte_census_def census_fold)
  have "cen_carried c * 100 \<le> 100 * cen_total c" using le c by simp
  then have "cen_carried c * 100 div cen_total c \<le> 100" if "0 < cen_total c"
    by (metis div_le_mono nonzero_mult_div_cancel_right that less_numeral_extra(3))
  then have "carried_percent c \<le> 100" by (simp add: carried_percent_def)
  moreover have "cen_total c = cen_carried c + cen_evicted c + cen_reduced c + shrunk_elsewhere c"
    using le c by (simp add: shrunk_elsewhere_def)
  ultimately show ?thesis using c by simp
qed

section \<open>Witnesses\<close>

text \<open>A turn with one call and its result of 600 bytes.\<close>

definition wit_result :: message where
  "wit_result = tool_result ''m2'' ''c1'' (replicate 600 CHR ''x'')"

definition wit_turn :: "message list" where
  "wit_turn =
     [assistant_with_tool_calls ''m1'' [\<lparr>tc_id = ''c1'', tc_name = ''fileio_read_lines'', tc_arguments = ''{}''\<rparr>],
      wit_result]"

definition wit_evict :: "distilled_trace \<Rightarrow> message list \<times> projection \<times> eviction_outcome" where
  "wit_evict trace = evict_tool_results (\<lambda>_. None) wit_turn [] 0 [''outcome:1''] trace StepCompleted"

lemma wit_distinct: "distinct (map msg_id wit_turn)"
  by (simp add: wit_turn_def wit_result_def assistant_with_tool_calls_def tool_result_def)

lemma wit_run: "wit_evict trace = (fst (wit_evict trace), fst (snd (wit_evict trace)), snd (snd (wit_evict trace)))"
  by simp

lemma wit_tool: "tool_name_of (tool_names_by_call_id wit_turn) wit_result = Some ''fileio_read_lines''"
  by (simp add: tool_name_of_def tool_names_by_call_id_def wit_turn_def wit_result_def
      assistant_with_tool_calls_def tool_result_def)

lemma wit_external:
  "eviction_class_of (\<lambda>_. None) (Some ''fileio_read_lines'') t = ExternalContent"
proof -
  have "tcl_provenance (classify_tool ''fileio_read_lines'') = ExternallyControlled" by code_simp
  then show ?thesis by (simp add: eviction_class_of_def result_is_externally_controlled_def)
qed

lemma wit_pointed:
  "projected (fst (snd (wit_evict trace))) wit_result =
     compaction_pointer (Some ''fileio_read_lines'') ''m2'' [''outcome:1''] StepCompleted"
proof -
  have "eviction_move (\<lambda>_. None) (tool_names_by_call_id wit_turn) [''outcome:1''] trace StepCompleted [] wit_result =
      PointAt (compaction_pointer (Some ''fileio_read_lines'') ''m2'' [''outcome:1''] StepCompleted)"
    unfolding eviction_move_def Let_def wit_tool wit_external projection_simps
    by (simp add: wit_result_def tool_result_def COMPACTION_MIN_EVICT_BYTES_def COMPACTION_POINTER_PREFIX_def
        RECALL_REDUCED_PREFIX_def compaction_pointer_def ran_clause_def TRANSCRIPT_GET_TOOL_def numeral_eq_Suc)
  then show ?thesis
    using evict_reads[OF wit_distinct wit_run[unfolded wit_evict_def], of wit_result trace]
    by (simp add: wit_evict_def wit_turn_def)
qed

theorem eviction_accounts_for_its_savings_witness:
  "bytes_read [] wit_turn = bytes_read (fst (snd (wit_evict Written))) wit_turn +
     eo_freed (snd (snd (wit_evict Written))) + eo_reduced_bytes (snd (snd (wit_evict Written)))"
  using eviction_accounts_for_its_savings[OF wit_distinct wit_run[unfolded wit_evict_def], of Written]
  by (simp add: wit_evict_def)

theorem recall_survives_eviction_witness:
  "projected (fst (snd (wit_evict Absent))) wit_result = msg_content wit_result \<or>
   projected (fst (snd (wit_evict Absent))) wit_result =
     compaction_pointer (Some ''fileio_read_lines'') ''m2'' [''outcome:1''] StepCompleted"
proof -
  have "wit_result \<in> set (drop 0 wit_turn)" by (simp add: wit_turn_def)
  from recall_survives_eviction[OF wit_distinct wit_run[unfolded wit_evict_def] this, unfolded wit_tool wit_external]
  show ?thesis by (simp add: wit_evict_def projection_simps wit_result_def tool_result_def)
qed

theorem composed_name_is_never_recall_witness:
  "eviction_class_of (\<lambda>_. None) (Some ''daemon_builtin_knowledge_base_get'') ''entry'' = Mechanism \<and>
   eviction_class_of (\<lambda>_. None) (Some ''builtin_knowledge_base_get'') [] = RecalledMemory"
proof -
  have c: "compose_name DaemonLoc ''builtin_knowledge_base_get'' = Some ''daemon_builtin_knowledge_base_get''" by code_simp
  have "rsplit_once NAMESPACE_SEP (strip_location ''daemon_builtin_knowledge_base_get'') = None" by code_simp
  moreover have "eviction_class_of (\<lambda>_. None) (Some ''builtin_knowledge_base_get'') [] = RecalledMemory" by code_simp
  ultimately show ?thesis using composed_name_is_never_recall[OF c] by blast
qed

theorem carry_rebuilds_the_pointers_witness:
  "projected (fst (carry_evictions (fst (wit_evict Written)) [] {''outcome:1''})) wit_result =
     compaction_pointer (Some ''fileio_read_lines'') ''m2'' [''outcome:1''] StepCompleted"
proof -
  let ?c = "carry_evictions (fst (wit_evict Written)) [] {''outcome:1''}"
  have c: "?c = (fst ?c, fst (snd ?c), snd (snd ?c))" by simp
  have "projected (fst (snd (wit_evict Written))) wit_result \<noteq> projected [] wit_result"
    unfolding wit_pointed by (simp add: projection_simps wit_result_def tool_result_def compaction_pointer_def
        COMPACTION_POINTER_PREFIX_def numeral_eq_Suc)
  moreover have "wit_result \<in> set (drop 0 wit_turn)" by (simp add: wit_turn_def)
  moreover have "prefix COMPACTION_POINTER_PREFIX (projected (fst (snd (wit_evict Written))) wit_result)"
    unfolding wit_pointed by simp
  moreover note carry_rebuilds_the_pointers[OF wit_distinct _ _ _ wit_run[of Written, unfolded wit_evict_def] c[unfolded wit_evict_def]]
  ultimately have "projected (fst ?c) wit_result = projected (fst (snd (wit_evict Written))) wit_result"
    unfolding wit_evict_def[symmetric] by (simp add: projection_simps)
  then show ?thesis using wit_pointed by simp
qed

theorem census_adds_up_witness:
  "cen_total (tool_byte_census wit_turn []) =
     cen_carried (tool_byte_census wit_turn []) + cen_evicted (tool_byte_census wit_turn []) +
     cen_reduced (tool_byte_census wit_turn []) + shrunk_elsewhere (tool_byte_census wit_turn [])"
  using census_adds_up[of wit_turn "[]"] by (simp add: projection_simps)

end
