(* ===== verification/Step_Plan.thy ===== *)
theory Step_Plan
  imports Tool_Provenance "HOL-Library.List_Lexorder"
begin

text \<open>
  The plan of a turn (\<^verbatim>\<open>core/src/planning.rs\<close>, \<^verbatim>\<open>build_step_stack\<close> of \<^verbatim>\<open>core/src/service.rs\<close>): the stack
  of open steps, the numbering of step keys, and the choice of the steps a round is shown.

  \<^item> \<open>step_stack\<close> is \<^verbatim>\<open>StepStack\<close>; its last frame is the innermost open step. The counters are
    32-bit and \<^verbatim>\<open>+= 1\<close> wraps around in the release profile (\<open>wrap_u32\<close>).
  \<^item> \<open>plan_items_from_notes\<close>, \<open>split_collapsible\<close> and \<open>select_plan_items\<close> choose the items;
    \<open>plan_note_keys\<close> names the notes behind them.
  \<^item> \<open>build_step_stack\<close> seeds the numbering from the listed notes; the listing is a parameter, and
    \<open>list_of_type\<close> is the one of \<^verbatim>\<open>storage/src/scratchpad.rs\<close>.
  \<^item> The lemmas show that within the 32-bit counter keys are not handed out twice in a turn and go on
    above the listed steps, that a plan of more steps than are listed is overwritten, that the current step and its ancestors are always in view, and which steps
    give way when there are too many.
\<close>

section \<open>The stack of steps\<close>

definition wrap_u32 :: "nat \<Rightarrow> nat" where
  "wrap_u32 n = n mod (u32_max + 1)"

record step_frame =
  sf_key :: string
  sf_goal :: string
  sf_watermark :: nat
  sf_child_counter :: nat
  sf_sequence :: nat

record step_stack =
  ss_frames :: "step_frame list"
  ss_root_counter :: nat

definition with_root_counter :: "nat \<Rightarrow> step_stack" where
  "with_root_counter n = \<lparr>ss_frames = [], ss_root_counter = n\<rparr>"

definition open_watermark :: "step_stack \<Rightarrow> nat option" where
  "open_watermark st = (case ss_frames st of [] \<Rightarrow> None | f # _ \<Rightarrow> Some (sf_watermark f))"

definition step_depth :: "step_stack \<Rightarrow> nat" where
  "step_depth st = length (ss_frames st)"

definition current_key :: "step_stack \<Rightarrow> string option" where
  "current_key st = (if ss_frames st = [] then None else Some (sf_key (last (ss_frames st))))"

text \<open>\<^verbatim>\<open>i32::try_from(counter).unwrap_or(i32::MAX)\<close>\<close>

definition sequence_of :: "nat \<Rightarrow> nat" where
  "sequence_of c = (if c \<le> 2147483647 then c else 2147483647)"

definition child_key :: "string \<Rightarrow> nat \<Rightarrow> string" where
  "child_key parent c = parent @ ''.'' @ show_nat c"

text \<open>The next key under the innermost frame, or under the root, with its counter advanced.\<close>

definition mint_key :: "step_stack \<Rightarrow> step_stack \<times> string \<times> nat" where
  "mint_key st =
     (if ss_frames st = []
      then let c = wrap_u32 (ss_root_counter st + 1)
           in (st\<lparr>ss_root_counter := c\<rparr>, show_nat c, sequence_of c)
      else let parent = last (ss_frames st); c = wrap_u32 (sf_child_counter parent + 1)
           in (st\<lparr>ss_frames := butlast (ss_frames st) @ [parent\<lparr>sf_child_counter := c\<rparr>]\<rparr>,
               child_key (sf_key parent) c, sequence_of c))"

definition begin_step :: "string \<Rightarrow> nat \<Rightarrow> step_stack \<Rightarrow> step_stack \<times> string \<times> nat" where
  "begin_step goal watermark st =
     (let (st', key, sequence) = mint_key st
      in (st'\<lparr>ss_frames := ss_frames st' @
              [\<lparr>sf_key = key, sf_goal = goal, sf_watermark = watermark, sf_child_counter = 0,
                sf_sequence = sequence\<rparr>]\<rparr>, key, sequence))"

definition complete_step :: "step_stack \<Rightarrow> step_stack \<times> step_frame option" where
  "complete_step st =
     (if ss_frames st = [] then (st, None)
      else (st\<lparr>ss_frames := butlast (ss_frames st)\<rparr>, Some (last (ss_frames st))))"

fun step_fan_out :: "nat \<Rightarrow> step_stack \<Rightarrow> step_stack \<times> (string \<times> nat) list" where
  "step_fan_out 0 st = (st, [])"
| "step_fan_out (Suc n) st =
     (let (st1, key, sequence) = mint_key st; (st2, rest) = step_fan_out n st1
      in (st2, (key, sequence) # rest))"

definition owner_subtree_prefix :: "string \<Rightarrow> string \<Rightarrow> string" where
  "owner_subtree_prefix owner_self step_key =
     (if owner_self = [] then step_key else owner_self @ ''.'' @ step_key)"

text \<open>The highest un-dotted numeric key, 0 when there is none.\<close>

definition max_top_level_key :: "string list \<Rightarrow> nat" where
  "max_top_level_key keys =
     fold max (List.map_filter (parse_uint u32_max) (filter (\<lambda>k. CHR ''.'' \<notin> set k) keys)) 0"

section \<open>Which steps a round is shown\<close>

definition STEP_NOTE_TYPE :: string where "STEP_NOTE_TYPE = ''todo''"
definition OUTCOME_NOTE_TYPE :: string where "OUTCOME_NOTE_TYPE = ''note''"
definition OUTCOME_KEY_PREFIX :: string where "OUTCOME_KEY_PREFIX = ''outcome:''"
definition SCRATCHPAD_GOAL_KEY :: string where "SCRATCHPAD_GOAL_KEY = ''goal''"
definition MAX_PLAN_ITEMS :: nat where "MAX_PLAN_ITEMS = 40"
definition MAX_SCRATCHPAD_INDEX_KEYS :: nat where "MAX_SCRATCHPAD_INDEX_KEYS = 40"

record raw_note =
  rn_key :: string
  rn_owner_todo :: string
  rn_content :: string
  rn_note_type :: string
  rn_done :: bool
  rn_pinned :: bool
  rn_knowledge_entry_id :: "string option"

record plan_item =
  pi_key :: string
  pi_goal :: string
  pi_done :: bool
  pi_outcome :: "string option"

text \<open>
  The stack a turn starts with (\<^verbatim>\<open>build_step_stack\<close> of \<^verbatim>\<open>core/src/service.rs\<close>): \<open>lister\<close> is the scratchpad's
  listing, if one is wired, and its second argument the type of note asked for. A listing that fails
  starts the numbering again.
\<close>

type_synonym 'n note_lister = "string \<Rightarrow> string option \<Rightarrow> nat \<Rightarrow> string + 'n raw_note_scheme list"

definition build_step_stack :: "'n note_lister option \<Rightarrow> string \<Rightarrow> step_stack \<times> nat" where
  "build_step_stack lister conversation_id =
     (case lister of
        None \<Rightarrow> (with_root_counter 0, 0)
      | Some list \<Rightarrow>
          (case list conversation_id (Some STEP_NOTE_TYPE) (MAX_PLAN_ITEMS * 3) of
             Inr notes \<Rightarrow> (let most = max_top_level_key (map rn_key notes) in (with_root_counter most, most))
           | Inl _ \<Rightarrow> (with_root_counter 0, 0)))"

text \<open>
  The listing of the scratchpad store (\<^verbatim>\<open>LIST_SQL\<close> of \<^verbatim>\<open>storage/src/scratchpad.rs\<close>) for one type of note, from
  the rows the caller can see: pinned notes first, then by sequence with the missing ones last, then the
  latest first; at most \<open>limit\<close> of them.
\<close>

record stored_note = raw_note +
  sn_seq :: "int option"
  sn_updated_at :: int

definition list_of_type :: "stored_note list \<Rightarrow> string \<Rightarrow> nat \<Rightarrow> stored_note list" where
  "list_of_type rows note_type limit =
     take limit
       (sort_key (\<lambda>n. if rn_pinned n then 0 else 1 :: nat)
         (sort_key (\<lambda>n. case sn_seq n of Some q \<Rightarrow> q | None \<Rightarrow> 2147483648)
           (sort_key (\<lambda>n. - sn_updated_at n) (filter (\<lambda>n. rn_note_type n = note_type) rows))))"

text \<open>\<^verbatim>\<open>key.split('.')\<close>\<close>

fun split_dot :: "string \<Rightarrow> string list" where
  "split_dot [] = [[]]"
| "split_dot (c # s) =
     (if c = CHR ''.'' then [] # split_dot s
      else (c # hd (split_dot s)) # tl (split_dot s))"

definition dotted_key :: "string \<Rightarrow> nat list" where
  "dotted_key key = map (\<lambda>seg. case parse_uint u64_max seg of Some n \<Rightarrow> n | None \<Rightarrow> u64_max) (split_dot key)"

definition is_ancestor_of :: "string \<Rightarrow> string \<Rightarrow> bool" where
  "is_ancestor_of ancestor key \<longleftrightarrow>
     length ancestor < length key \<and> prefix ancestor key \<and> key ! length ancestor = CHR ''.''"

definition carries_outcome :: "plan_item \<Rightarrow> bool" where
  "carries_outcome item \<longleftrightarrow> (case pi_outcome item of Some t \<Rightarrow> t \<noteq> [] | None \<Rightarrow> False)"

definition is_context :: "string option \<Rightarrow> plan_item \<Rightarrow> bool" where
  "is_context current item \<longleftrightarrow>
     (case current of Some cur \<Rightarrow> pi_key item = cur \<or> is_ancestor_of (pi_key item) cur | None \<Rightarrow> False)"

definition collapsible :: "string option \<Rightarrow> plan_item \<Rightarrow> bool" where
  "collapsible current item \<longleftrightarrow> pi_done item \<and> \<not> carries_outcome item \<and> \<not> is_context current item"

definition split_collapsible :: "plan_item list \<Rightarrow> string option \<Rightarrow> plan_item list \<times> nat" where
  "split_collapsible items current =
     (filter (\<lambda>i. \<not> collapsible current i) items, length (filter (collapsible current) items))"

text \<open>
  The closure \<^verbatim>\<open>fill\<close>: from the end of the list, mark unmarked items of one kind until the
  budget is spent. The list is walked in reverse, as the loop does.
\<close>

fun fill_rev :: "bool \<Rightarrow> nat \<Rightarrow> (plan_item \<times> bool) list \<Rightarrow> nat \<Rightarrow> (plan_item \<times> bool) list \<times> nat" where
  "fill_rev want_done max_items [] kept = ([], kept)"
| "fill_rev want_done max_items ((item, keep) # rest) kept =
     (if max_items \<le> kept then ((item, keep) # rest, kept)
      else if \<not> keep \<and> pi_done item = want_done
      then (let (rest', kept') = fill_rev want_done max_items rest (kept + 1) in ((item, True) # rest', kept'))
      else (let (rest', kept') = fill_rev want_done max_items rest kept in ((item, keep) # rest', kept')))"

text \<open>The vector \<^verbatim>\<open>keep\<close> once the three passes are done: context, open steps, done steps.\<close>

definition plan_keep :: "plan_item list \<Rightarrow> string option \<Rightarrow> nat \<Rightarrow> bool list" where
  "plan_keep items current max_items =
     (let marked = map (\<lambda>i. (i, is_context current i)) items;
          kept = length (filter (is_context current) items);
          (m1, kept1) = fill_rev False max_items (rev marked) kept;
          (m2, kept2) = fill_rev True max_items m1 kept1
      in map snd (rev m2))"

definition select_plan_items :: "plan_item list \<Rightarrow> string option \<Rightarrow> nat \<Rightarrow> plan_item list" where
  "select_plan_items items current max_items =
     map fst (filter snd (zip items (plan_keep items current max_items)))"

definition chosen_plan_items :: "plan_item list \<Rightarrow> string option \<Rightarrow> nat \<Rightarrow> plan_item list" where
  "chosen_plan_items items current max_items =
     (if length items \<le> max_items then items else select_plan_items items current max_items)"

definition done_by_key :: "raw_note list \<Rightarrow> (string \<times> string, bool) hashmap" where
  "done_by_key notes =
     fold (\<lambda>n m. hm_insert (rn_owner_todo n, rn_key n) (rn_done n) m)
       (filter (\<lambda>n. rn_note_type n = STEP_NOTE_TYPE) notes) []"

definition pending_outcomes :: "raw_note list \<Rightarrow> (string \<times> string, string) hashmap" where
  "pending_outcomes notes =
     fold (\<lambda>n m.
       (case strip_prefix OUTCOME_KEY_PREFIX (rn_key n) of
          None \<Rightarrow> m
        | Some step \<Rightarrow>
            (case rsplit_once ''.'' step of
               None \<Rightarrow> hm_insert (rn_owner_todo n, step) (rn_content n) m
             | Some (parent, _) \<Rightarrow>
                 if hm_get (done_by_key notes) (rn_owner_todo n, parent) = Some True then m
                 else hm_insert (rn_owner_todo n, step) (rn_content n) m))) notes []"

definition plan_items_from_notes :: "raw_note list \<Rightarrow> plan_item list" where
  "plan_items_from_notes notes =
     (if done_by_key notes = [] then []
      else map (\<lambda>n. \<lparr>pi_key = rn_key n, pi_goal = rn_content n, pi_done = rn_done n,
                     pi_outcome = hm_get (pending_outcomes notes) (rn_owner_todo n, rn_key n)\<rparr>)
             (filter (\<lambda>n. rn_note_type n = STEP_NOTE_TYPE) notes))"

text \<open>\<^verbatim>\<open>sort_by_key\<close> is a stable sort.\<close>

definition sorted_items :: "plan_item list \<Rightarrow> plan_item list" where
  "sorted_items items = sort_key (\<lambda>i. dotted_key (pi_key i)) items"

definition plan_note_keys :: "raw_note list \<Rightarrow> string option \<Rightarrow> nat \<Rightarrow> string list" where
  "plan_note_keys notes current max_items =
     (let items = plan_items_from_notes notes
      in if items = [] then []
         else concat (map (\<lambda>i. pi_key i # (if carries_outcome i then [OUTCOME_KEY_PREFIX @ pi_key i] else []))
                (chosen_plan_items (fst (split_collapsible (sorted_items items) current)) current max_items)))"

definition freeform_note_keys :: "raw_note list \<Rightarrow> string list" where
  "freeform_note_keys notes =
     map rn_key (filter (\<lambda>n. rn_note_type n = OUTCOME_NOTE_TYPE \<and> rn_key n \<noteq> SCRATCHPAD_GOAL_KEY \<and>
       \<not> prefix OUTCOME_KEY_PREFIX (rn_key n) \<and> \<not> rn_pinned n) notes)"

record working_state =
  wk_notes :: nat
  wk_open_todos :: nat

definition working_state_from_notes :: "raw_note list \<Rightarrow> working_state" where
  "working_state_from_notes notes =
     \<lparr>wk_notes = length (remdups (freeform_note_keys notes)),
      wk_open_todos = length (filter (\<lambda>n. rn_note_type n = STEP_NOTE_TYPE \<and> \<not> rn_done n) notes)\<rparr>"

section \<open>Keys are handed out once\<close>

text \<open>What a turn does to its stack, and the keys it is given.\<close>

datatype step_op = BeginStep string nat | CompleteStep | FanOut nat

fun run_steps :: "step_op list \<Rightarrow> step_stack \<Rightarrow> step_stack \<times> string list" where
  "run_steps [] st = (st, [])"
| "run_steps (BeginStep goal w # ops) st =
     (let (st1, key, sequence) = begin_step goal w st; (st2, keys) = run_steps ops st1 in (st2, key # keys))"
| "run_steps (CompleteStep # ops) st = run_steps ops (fst (complete_step st))"
| "run_steps (FanOut n # ops) st =
     (let (st1, minted) = step_fan_out n st; (st2, keys) = run_steps ops st1 in (st2, map fst minted @ keys))"

lemma show_nat_no_dot: "CHR ''.'' \<notin> set (show_nat n)"
  using show_nat_digits[of "CHR ''.''" n] by (auto simp: byte_of_def)

lemma dot_split_unique:
  assumes "CHR ''.'' \<notin> set b" "CHR ''.'' \<notin> set d" and "a @ ''.'' @ b = c @ ''.'' @ d"
  shows "a = c \<and> b = d"
proof -
  have "rev b @ ''.'' @ rev a = rev d @ ''.'' @ rev c" using arg_cong[OF assms(3), of rev] by simp
  then have "takeWhile (\<lambda>x. x \<noteq> CHR ''.'') (rev b @ ''.'' @ rev a) = takeWhile (\<lambda>x. x \<noteq> CHR ''.'') (rev d @ ''.'' @ rev c)"
    by simp
  moreover have "takeWhile (\<lambda>x. x \<noteq> CHR ''.'') (rev y @ ''.'' @ z) = rev y" if "CHR ''.'' \<notin> set y" for y z
    using that by (subst takeWhile_append2) auto
  ultimately have "b = d" using assms(1,2) by simp
  then show ?thesis using assms(3) by simp
qed

lemma child_key_inj [simp]: "child_key k n = child_key k' n' \<longleftrightarrow> k = k' \<and> n = n'"
  using dot_split_unique[OF show_nat_no_dot show_nat_no_dot, of k n k' n'] by (auto simp: child_key_def)

lemma child_key_dot: "CHR ''.'' \<in> set (child_key k n)"
  by (simp add: child_key_def)

lemma child_key_not_root [simp]: "child_key k n \<noteq> show_nat m" "show_nat m \<noteq> child_key k n"
  using show_nat_no_dot child_key_dot by metis+

lemma child_key_neq [simp]: "child_key k n \<noteq> k" "k \<noteq> child_key k n"
  by (simp_all add: child_key_def)

definition rooted_above :: "nat \<Rightarrow> string \<Rightarrow> bool" where
  "rooted_above seed k \<longleftrightarrow>
     (\<exists>n>seed. n \<le> u32_max \<and> (k = show_nat n \<or> prefix (show_nat n @ ''.'') k))"

text \<open>
  What holds of a stack that started at \<open>seed\<close> and has handed out the keys \<open>M\<close>.
\<close>

definition minted_ok :: "nat \<Rightarrow> string set \<Rightarrow> step_stack \<Rightarrow> bool" where
  "minted_ok seed M st \<longleftrightarrow>
     (\<forall>n. show_nat n \<in> M \<longrightarrow> n \<le> ss_root_counter st) \<and> seed \<le> ss_root_counter st \<and>
     (\<forall>k\<in>M. rooted_above seed k) \<and>
     (\<forall>k n. child_key k n \<in> M \<longrightarrow> k \<in> M) \<and>
     (\<forall>f\<in>set (ss_frames st). sf_key f \<in> M \<and> (\<forall>n. child_key (sf_key f) n \<in> M \<longrightarrow> n \<le> sf_child_counter f)) \<and>
     distinct (map sf_key (ss_frames st))"

definition room_for :: "nat \<Rightarrow> step_stack \<Rightarrow> bool" where
  "room_for n st \<longleftrightarrow> ss_root_counter st + n \<le> u32_max \<and> (\<forall>f\<in>set (ss_frames st). sf_child_counter f + n \<le> u32_max)"

lemma wrap_u32_small [simp]: "n \<le> u32_max \<Longrightarrow> wrap_u32 n = n"
  by (simp add: wrap_u32_def)

lemma rooted_above_child: "rooted_above seed k \<Longrightarrow> rooted_above seed (child_key k n)"
  by (auto simp: rooted_above_def child_key_def prefix_def)

lemma mint_fresh:
  assumes ok: "minted_ok seed M st" and room: "room_for (Suc n) st" and mint: "mint_key st = (st', key, sq)"
  shows "key \<notin> M \<and> minted_ok seed (insert key M) st' \<and> room_for n st' \<and> length (ss_frames st') = length (ss_frames st)"
proof (cases "ss_frames st = []")
  case True
  then have "st' = st\<lparr>ss_root_counter := ss_root_counter st + 1\<rparr>" "key = show_nat (ss_root_counter st + 1)"
    using mint room by (auto simp: mint_key_def room_for_def Let_def)
  moreover have "show_nat (ss_root_counter st + 1) \<notin> M" using ok by (fastforce simp: minted_ok_def)
  moreover have "rooted_above seed (show_nat (ss_root_counter st + 1))"
    using ok room unfolding minted_ok_def rooted_above_def room_for_def
    by (intro exI[of _ "ss_root_counter st + 1"]) simp
  ultimately show ?thesis using True ok room
    by (auto simp: minted_ok_def room_for_def le_Suc_eq)
next
  case False
  then obtain fs f where fs: "ss_frames st = fs @ [f]" by (metis append_butlast_last_id)
  have st': "st' = st\<lparr>ss_frames := fs @ [f\<lparr>sf_child_counter := sf_child_counter f + 1\<rparr>]\<rparr>"
    and key: "key = child_key (sf_key f) (sf_child_counter f + 1)"
    using mint room fs by (auto simp: mint_key_def room_for_def Let_def)
  have new: "key \<notin> M" using ok fs key by (fastforce simp: minted_ok_def)
  moreover have "rooted_above seed key" using ok fs key rooted_above_child by (auto simp: minted_ok_def)
  moreover have "\<forall>g\<in>set fs. sf_key g \<noteq> sf_key f" using ok fs by (fastforce simp: minted_ok_def image_iff)
  ultimately have "minted_ok seed (insert key M) st'"
    using ok fs unfolding st' key minted_ok_def by (auto simp: le_Suc_eq)
  moreover have "room_for n st'" using room fs by (auto simp: room_for_def st')
  ultimately show ?thesis using new fs by (simp add: st')
qed


text \<open>An operation keeps the promise when the keys it hands out are new and distinct.\<close>

definition hands_out :: "nat \<Rightarrow> string set \<Rightarrow> step_stack \<Rightarrow> nat \<Rightarrow> step_stack \<Rightarrow> string list \<Rightarrow> bool" where
  "hands_out seed M st n st' keys \<longleftrightarrow>
     distinct keys \<and> set keys \<inter> M = {} \<and> minted_ok seed (set keys \<union> M) st' \<and> room_for n st'"

lemma hands_out_trans:
  assumes "hands_out seed M st n st' keys" "hands_out seed (set keys \<union> M) st' m st'' keys'"
  shows "hands_out seed M st m st'' (keys @ keys')"
  using assms by (auto simp: hands_out_def ac_simps Un_left_commute)

lemma begin_step_hands_out:
  assumes "minted_ok seed M st" "room_for (Suc n) st" "begin_step goal w st = (st', key, sq)"
  shows "hands_out seed M st n st' [key]"
proof -
  obtain st1 where m: "mint_key st = (st1, key, sq)"
    and st': "st' = st1\<lparr>ss_frames := ss_frames st1 @ [\<lparr>sf_key = key, sf_goal = goal, sf_watermark = w,
                sf_child_counter = 0, sf_sequence = sq\<rparr>]\<rparr>"
    using assms(3) by (auto simp: begin_step_def Let_def split: prod.splits)
  have old: "\<forall>k i. child_key k i \<in> M \<longrightarrow> k \<in> M" and frames: "\<forall>f\<in>set (ss_frames st). sf_key f \<in> M"
    using assms(1) by (auto simp: minted_ok_def)
  have fresh: "key \<notin> M" and ok: "minted_ok seed (insert key M) st1" and room: "room_for n st1"
    using mint_fresh[OF assms(1,2) m] by auto
  have keys: "sf_key ` set (ss_frames st1) \<subseteq> M"
  proof (cases "ss_frames st = []")
    case True
    then show ?thesis using m by (auto simp: mint_key_def Let_def)
  next
    case False
    then show ?thesis using m frames in_set_butlastD by (force simp: mint_key_def Let_def)
  qed
  have "minted_ok seed (insert key M) st'"
    using ok fresh old keys unfolding st' minted_ok_def by (auto simp: image_subset_iff)
  moreover have "room_for n st'" using room by (auto simp: room_for_def st')
  ultimately show ?thesis using fresh by (simp add: hands_out_def)
qed

lemma fan_out_hands_out:
  "minted_ok seed M st \<Longrightarrow> room_for (k + n) st \<Longrightarrow> step_fan_out k st = (st', minted) \<Longrightarrow>
   hands_out seed M st n st' (map fst minted)"
proof (induction k arbitrary: M st minted)
  case 0
  then show ?case by (simp add: hands_out_def)
next
  case (Suc k)
  obtain st1 key sq rest where m: "mint_key st = (st1, key, sq)" and r: "step_fan_out k st1 = (st', rest)"
    and "minted = (key, sq) # rest"
    using Suc.prems(3) by (auto simp: Let_def split: prod.splits)
  have "room_for (Suc (k + n)) st" using Suc.prems(2) by simp
  from mint_fresh[OF Suc.prems(1) this m]
  have new: "hands_out seed M st (k + n) st1 [key]" by (simp add: hands_out_def)
  then have "hands_out seed (set [key] \<union> M) st1 n st' (map fst rest)"
    by (intro Suc.IH r) (simp_all add: hands_out_def)
  from hands_out_trans[OF new this] show ?case using \<open>minted = _\<close> by simp
qed

lemma complete_step_keeps:
  assumes "minted_ok seed M st" "room_for n st"
  shows "minted_ok seed M (fst (complete_step st)) \<and> room_for n (fst (complete_step st))"
proof (cases "ss_frames st" rule: rev_cases)
  case Nil
  then show ?thesis using assms by (simp add: complete_step_def)
next
  case (snoc fs f)
  then show ?thesis using assms by (auto simp: complete_step_def minted_ok_def room_for_def)
qed

fun keys_wanted :: "step_op list \<Rightarrow> nat" where
  "keys_wanted [] = 0"
| "keys_wanted (BeginStep goal w # ops) = Suc (keys_wanted ops)"
| "keys_wanted (CompleteStep # ops) = keys_wanted ops"
| "keys_wanted (FanOut n # ops) = n + keys_wanted ops"

lemma run_steps_hands_out:
  "minted_ok seed M st \<Longrightarrow> room_for (keys_wanted ops) st \<Longrightarrow> run_steps ops st = (st', keys) \<Longrightarrow>
   hands_out seed M st 0 st' keys"
proof (induction ops st arbitrary: M keys rule: run_steps.induct)
  case (1 st)
  then show ?case by (simp add: hands_out_def)
next
  case (2 goal w ops st)
  obtain st1 key sq rest where b: "begin_step goal w st = (st1, key, sq)" and r: "run_steps ops st1 = (st', rest)"
    and keys: "keys = key # rest"
    using "2.prems"(3) by (auto simp: Let_def split: prod.splits)
  have "room_for (Suc (keys_wanted ops)) st" using "2.prems"(2) by simp
  note first = begin_step_hands_out[OF "2.prems"(1) this b]
  have "hands_out seed (set [key] \<union> M) st1 0 st' rest"
    by (rule "2.IH"[OF b[symmetric] refl refl _ _ r]) (use first in \<open>simp_all add: hands_out_def\<close>)
  from hands_out_trans[OF first this] show ?case by (simp add: keys)
next
  case (3 ops st)
  have "minted_ok seed M (fst (complete_step st))" "room_for (keys_wanted ops) (fst (complete_step st))"
    using complete_step_keeps "3.prems"(1,2) by auto
  from "3.IH"[OF this] "3.prems"(3) show ?case by (simp add: hands_out_def)
next
  case (4 n ops st)
  obtain st1 minted rest where f: "step_fan_out n st = (st1, minted)" and r: "run_steps ops st1 = (st', rest)"
    and keys: "keys = map fst minted @ rest"
    using "4.prems"(3) by (auto simp: Let_def split: prod.splits)
  have "room_for (n + keys_wanted ops) st" using "4.prems"(2) by simp
  note first = fan_out_hands_out[OF "4.prems"(1) this f]
  have "hands_out seed (set (map fst minted) \<union> M) st1 0 st' rest"
    by (rule "4.IH"[OF f[symmetric] refl _ _ r]) (use first in \<open>simp_all add: hands_out_def\<close>)
  from hands_out_trans[OF first this] show ?case by (simp add: keys)
qed

definition top_segment :: "string \<Rightarrow> string" where
  "top_segment k = takeWhile (\<lambda>c. c \<noteq> CHR ''.'') k"

lemma top_segment_show_nat: "top_segment (show_nat n) = show_nat n" "top_segment (show_nat n @ ''.'' @ r) = show_nat n"
proof -
  have *: "\<forall>c\<in>set (show_nat n). c \<noteq> CHR ''.''" using show_nat_no_dot by blast
  then show "top_segment (show_nat n) = show_nat n" by (simp add: top_segment_def takeWhile_eq_all_conv)
  show "top_segment (show_nat n @ ''.'' @ r) = show_nat n"
    unfolding top_segment_def by (subst takeWhile_append2) (use * in auto)
qed

lemma rooted_top: "rooted_above seed k \<Longrightarrow> \<exists>n>seed. n \<le> u32_max \<and> top_segment k = show_nat n"
  unfolding rooted_above_def prefix_def using top_segment_show_nat by (metis append.assoc)

lemma fold_max_ge: "(x::nat) \<in> set xs \<or> x \<le> a \<Longrightarrow> x \<le> fold max xs a"
proof (induction xs arbitrary: a)
  case (Cons y xs)
  then show ?case using Cons.IH[of "max y a"] by fastforce
qed simp

lemma max_top_level_key_bound:
  assumes "show_nat n \<in> set noted" "n \<le> u32_max"
  shows "n \<le> max_top_level_key noted"
proof -
  have "n \<in> set (List.map_filter (parse_uint u32_max) (filter (\<lambda>k. CHR ''.'' \<notin> set k) noted))"
    using assms parse_show_nat[OF assms(2)] show_nat_no_dot by (force simp: map_filter_def)
  then show ?thesis unfolding max_top_level_key_def by (intro fold_max_ge disjI1)
qed

text \<open>
  C34: the keys a turn is handed for its steps, whatever the order in which steps are begun, completed
  and fanned out, as long as the 32-bit counter has room for the keys the turn asks for. No key is handed
  out twice. If the listing of the conversation's step notes was read, no key is at or below a top-level
  step the listing named, so no listed top-level note, and no note nested under one, is overwritten. The
  listing is asked for at most 120 notes; a step beyond them, and every step when the listing fails or
  is not there, is not protected.
\<close>

theorem step_keys_are_fresh:
  assumes "build_step_stack lister conversation_id = (st, seed)"
    and room: "seed + keys_wanted ops \<le> u32_max"
    and run: "run_steps ops st = (st', keys)"
  shows "distinct keys \<and>
    (\<forall>list notes. lister = Some list \<and> list conversation_id (Some ''todo'') 120 = Inr notes \<longrightarrow>
       (\<forall>k\<in>set keys. top_segment k \<notin> rn_key ` set notes))"
proof -
  have st: "st = with_root_counter seed"
    using assms(1) by (auto simp: build_step_stack_def Let_def split: option.splits sum.splits)
  then have "minted_ok seed {} st" "room_for (keys_wanted ops) st"
    using room by (auto simp: minted_ok_def with_root_counter_def room_for_def)
  from run_steps_hands_out[OF this run] have keys: "distinct keys" "\<forall>k\<in>set keys. rooted_above seed k"
    by (auto simp: hands_out_def minted_ok_def)
  have "top_segment k \<notin> rn_key ` set ns"
    if listing: "lister = Some list" "list conversation_id (Some ''todo'') 120 = Inr ns" and k: "k \<in> set keys" for list ns k
  proof
    assume listed: "top_segment k \<in> rn_key ` set ns"
    obtain n where n: "seed < n" "n \<le> u32_max" "top_segment k = show_nat n" using rooted_top keys(2) k by blast
    have "seed = max_top_level_key (map rn_key ns)"
      using assms(1) listing by (simp add: build_step_stack_def STEP_NOTE_TYPE_def MAX_PLAN_ITEMS_def Let_def)
    then show False using max_top_level_key_bound[of n "map rn_key ns"] n listed by simp
  qed
  then show ?thesis using keys(1) by blast
qed

text \<open>Notes keyed by the numbers in a list, as the steps of a plan are stored.\<close>

definition step_note :: "nat \<Rightarrow> stored_note" where
  "step_note i = \<lparr>rn_key = show_nat i, rn_owner_todo = [], rn_content = [], rn_note_type = STEP_NOTE_TYPE, rn_done = True,
     rn_pinned = False, rn_knowledge_entry_id = None, sn_seq = Some (int i), sn_updated_at = 0\<rparr>"

theorem step_keys_are_fresh_witness:
  "distinct (snd (run_steps [BeginStep ''a'' 0, BeginStep ''b'' 2, CompleteStep, FanOut 2, CompleteStep, BeginStep ''c'' 9]
      (fst (build_step_stack (Some (\<lambda>_ _ _. Inr [step_note 1, step_note 2])) ''conv'')))) \<and>
   snd (run_steps [BeginStep ''a'' 0, BeginStep ''b'' 2, CompleteStep, FanOut 2, CompleteStep, BeginStep ''c'' 9]
      (fst (build_step_stack (Some (\<lambda>_ _ _. Inr [step_note 1, step_note 2])) ''conv''))) =
   [''3'', ''3.1'', ''3.2'', ''3.3'', ''4'']"
proof -
  let ?ops = "[BeginStep ''a'' 0, BeginStep ''b'' 2, CompleteStep, FanOut 2, CompleteStep, BeginStep ''c'' 9]"
  let ?list = "\<lambda>_ _ _. Inr [step_note 1, step_note 2]"
  have "max_top_level_key (map rn_key [step_note 1, step_note 2]) = 2"
    by (simp add: max_top_level_key_def step_note_def map_filter_def show_nat_no_dot parse_show_nat u32_max_def)
  then have b: "build_step_stack (Some ?list) ''conv'' = (with_root_counter 2, 2)"
    by (simp add: build_step_stack_def Let_def)
  have k: "snd (run_steps ?ops (with_root_counter 2)) = [''3'', ''3.1'', ''3.2'', ''3.3'', ''4'']"
    by (simp add: begin_step_def complete_step_def mint_key_def with_root_counter_def child_key_def wrap_u32_def
        u32_max_def show_nat_small digit_char_def char_of_eq_iff numeral_2_eq_2 Let_def)
  have "distinct (snd (run_steps ?ops (with_root_counter 2)))"
    using step_keys_are_fresh[OF b, of ?ops "fst (run_steps ?ops (with_root_counter 2))"
        "snd (run_steps ?ops (with_root_counter 2))"] by (simp only: prod.collapse) (simp add: u32_max_def)
  then show ?thesis using k b by (simp only: fst_conv)
qed

text \<open>
  A long plan overwrites itself. The listing is in ascending order of the sequence and is cut after 120
  notes, so of a plan with more top-level steps the numbering is taken from the first 120, and the next
  turn is handed the key of a step that is there.
\<close>

lemma max_of_first_steps: "n \<le> u32_max \<Longrightarrow> max_top_level_key (map show_nat [1..<Suc n]) = n"
proof -
  assume n: "n \<le> u32_max"
  have "filter (\<lambda>k. CHR ''.'' \<notin> set k) (map show_nat [1..<Suc n]) = map show_nat [1..<Suc n]"
    using show_nat_no_dot by (auto intro: filter_True)
  moreover have "List.map_filter (parse_uint u32_max) (map show_nat xs) = xs" if "\<forall>x\<in>set xs. x \<le> u32_max" for xs
    using that parse_show_nat by (induction xs) (auto simp: map_filter_simps)
  ultimately have "max_top_level_key (map show_nat [1..<Suc n]) = fold max [1..<Suc n] 0"
    using n by (simp add: max_top_level_key_def del: upt_Suc)
  moreover have "fold max [1..<Suc k] 0 = k" for k :: nat by (induction k) simp_all
  ultimately show ?thesis by simp
qed

lemma long_plan_is_overwritten:
  assumes "120 < n"
  defines "rows \<equiv> map step_note [1..<Suc n]"
  shows "fst (snd (begin_step goal w (fst (build_step_stack (Some (\<lambda>_ ty limit. Inr (list_of_type rows (the ty) limit))) conversation_id))))
    \<in> rn_key ` set rows"
proof -
  have todo: "filter (\<lambda>n. rn_note_type n = STEP_NOTE_TYPE) rows = rows"
    unfolding rows_def by (rule filter_True) (auto simp: step_note_def)
  have sorted: "sort_key f rows = rows" if "mono (\<lambda>i. f (step_note i))" for f :: "stored_note \<Rightarrow> 'a :: linorder"
  proof (rule sort_key_id_if_sorted)
    have "sorted_wrt (\<lambda>i j. f (step_note i) \<le> f (step_note j)) [1..<Suc n]"
      by (rule sorted_wrt_mono_rel[OF _ sorted_upt]) (use that in \<open>simp add: mono_def\<close>)
    then show "sorted (map f rows)" by (simp add: rows_def sorted_map sorted_wrt_map del: upt_Suc)
  qed
  have "list_of_type rows STEP_NOTE_TYPE 120 = take 120 rows"
    unfolding list_of_type_def todo by (subst sorted, simp add: mono_def step_note_def)+ simp
  also have "take 120 rows = map step_note [1..<Suc 120]" using assms(1) by (simp add: rows_def take_map del: upt_Suc)
  finally have "map rn_key (list_of_type rows STEP_NOTE_TYPE 120) = map show_nat [1..<Suc 120]"
    by (simp add: step_note_def comp_def del: upt_Suc)
  then have "build_step_stack (Some (\<lambda>_ ty limit. Inr (list_of_type rows (the ty) limit))) conversation_id = (with_root_counter 120, 120)"
    using max_of_first_steps[of 120] by (simp add: build_step_stack_def MAX_PLAN_ITEMS_def u32_max_def Let_def del: upt_Suc)
  then have "fst (snd (begin_step goal w (fst (build_step_stack (Some (\<lambda>_ ty limit. Inr (list_of_type rows (the ty) limit))) conversation_id))))
      = rn_key (step_note 121)"
    by (simp add: begin_step_def mint_key_def with_root_counter_def u32_max_def step_note_def Let_def)
  moreover have "step_note 121 \<in> set rows" unfolding rows_def set_map by (rule imageI) (use assms(1) in auto)
  ultimately show ?thesis by (metis imageI)
qed

text \<open>
  The counter wraps around: a note keyed with the largest 32-bit number seeds a counter whose
  next key is \<open>0\<close>, below every key of the conversation.
\<close>

lemma step_key_wraps:
  "max_top_level_key [show_nat u32_max] = u32_max \<and>
   fst (snd (begin_step goal w (with_root_counter u32_max))) = show_nat 0"
proof
  have "parse_uint u32_max (show_nat u32_max) = Some u32_max" by (rule parse_show_nat) simp
  then show "max_top_level_key [show_nat u32_max] = u32_max"
    by (simp add: max_top_level_key_def map_filter_def show_nat_no_dot)
  show "fst (snd (begin_step goal w (with_root_counter u32_max))) = show_nat 0"
    by (simp add: begin_step_def mint_key_def with_root_counter_def wrap_u32_def Let_def)
qed

section \<open>The steps in view\<close>

text \<open>One pass of \<^verbatim>\<open>fill\<close>: what it leaves alone, how far it goes, and which items it takes first.\<close>

lemma fill_rev_items: "fill_rev w m xs k = (ys, k') \<Longrightarrow> map fst ys = map fst xs"
  by (induction w m xs k arbitrary: ys k' rule: fill_rev.induct) (auto simp: Let_def split: if_splits prod.splits)

lemma fill_rev_marks:
  "fill_rev w m xs k = (ys, k') \<Longrightarrow>
   list_all2 (\<lambda>(a, b) (a', b'). a' = a \<and> (b \<longrightarrow> b') \<and> (b' \<longrightarrow> b \<or> pi_done a = w)) xs ys"
  by (induction w m xs k arbitrary: ys k' rule: fill_rev.induct)
    (auto simp: Let_def list_all2_same split: if_splits prod.splits)

lemma fill_rev_ConsE:
  assumes "fill_rev w m ((item, keep) # rest) k = (ys, k')"
  obtains (spent) "m \<le> k" "ys = (item, keep) # rest" "k' = k"
  | (left) taken ys' where "k < m" "taken \<longleftrightarrow> \<not> keep \<and> pi_done item = w" "ys = (item, keep \<or> taken) # ys'"
      "fill_rev w m rest (if taken then k + 1 else k) = (ys', k')"
  using assms by (cases "\<not> keep \<and> pi_done item = w") (auto simp: Let_def split: if_splits prod.splits)

lemma fill_rev_count:
  "fill_rev w m xs k = (ys, k') \<Longrightarrow>
   length (filter snd ys) + k = length (filter snd xs) + k' \<and> k \<le> k' \<and> k' \<le> max k m \<and>
   (k' < m \<longrightarrow> (\<forall>x\<in>set ys. pi_done (fst x) = w \<longrightarrow> snd x)) \<and> (m \<le> k \<longrightarrow> ys = xs)"
proof (induction xs arbitrary: k ys)
  case Nil
  then show ?case by simp
next
  case (Cons x xs)
  obtain item keep where x: "x = (item, keep)" by (cases x)
  from Cons.prems[unfolded x] show ?case
  proof (cases rule: fill_rev_ConsE)
    case spent
    then show ?thesis by (simp add: x)
  next
    case (left taken ys')
    from Cons.IH[OF left(4)] left(1-3) show ?thesis by (cases taken) (auto simp: x)
  qed
qed

definition first_taken :: "bool \<Rightarrow> (plan_item \<times> bool) \<times> (plan_item \<times> bool) \<Rightarrow> (plan_item \<times> bool) \<times> (plan_item \<times> bool) \<Rightarrow> bool" where
  "first_taken w p q \<longleftrightarrow>
     pi_done (fst (fst p)) = w \<and> \<not> snd (fst p) \<and> pi_done (fst (fst q)) = w \<and> \<not> snd (fst q) \<and> snd (snd q) \<longrightarrow>
     snd (snd p)"

lemma first_taken_same: "sorted_wrt (first_taken w) (zip xs xs)"
proof (induction xs)
  case (Cons x xs)
  then show ?case by (simp, auto simp: first_taken_def in_set_zip)
qed simp

lemma fill_rev_order: "fill_rev w m xs k = (ys, k') \<Longrightarrow> sorted_wrt (first_taken w) (zip xs ys)"
proof (induction xs arbitrary: k ys)
  case (Cons x xs)
  obtain item keep where x: "x = (item, keep)" by (cases x)
  from Cons.prems[unfolded x] show ?case
  proof (cases rule: fill_rev_ConsE)
    case spent
    then show ?thesis using first_taken_same[of w "x # xs"] by (simp add: x)
  next
    case (left taken ys')
    from Cons.IH[OF left(4)] left(2,3) show ?thesis by (simp add: x, simp add: first_taken_def)
  qed
qed simp

lemma count_true_eq_length: "length (filter snd xs) = length xs \<longleftrightarrow> (\<forall>x\<in>set xs. snd x)"
  by (metis filter_True length_filter_less not_less_iff_gr_or_eq)

text \<open>The marks after each of the two passes, read by position in the reversed list.\<close>

lemma plan_keep_passes:
  assumes "N = length items" and "ctx = is_context current" and "x = (\<lambda>r. items ! (N - 1 - r))"
    and "pk = plan_keep items current m"
  obtains k1 k2 :: "nat \<Rightarrow> bool" where
    "length (pk) = N"
    "\<And>r. r < N \<Longrightarrow> pk ! (N - 1 - r) = k2 r"
    "\<And>r. r < N \<Longrightarrow> (ctx (x r) \<longrightarrow> k1 r) \<and> (k1 r \<longrightarrow> ctx (x r) \<or> \<not> pi_done (x r)) \<and>
        (k1 r \<longrightarrow> k2 r) \<and> (k2 r \<longrightarrow> k1 r \<or> pi_done (x r))"
    "\<And>r s. r < s \<Longrightarrow> s < N \<Longrightarrow> \<not> pi_done (x r) \<Longrightarrow> \<not> pi_done (x s) \<Longrightarrow> \<not> ctx (x r) \<Longrightarrow> \<not> ctx (x s) \<Longrightarrow> k1 s \<Longrightarrow> k1 r"
    "\<And>r s. r < s \<Longrightarrow> s < N \<Longrightarrow> pi_done (x r) \<Longrightarrow> pi_done (x s) \<Longrightarrow> \<not> k1 r \<Longrightarrow> \<not> k1 s \<Longrightarrow> k2 s \<Longrightarrow> k2 r"
    "\<And>r s. r < N \<Longrightarrow> s < N \<Longrightarrow> k2 r \<Longrightarrow> \<not> k1 r \<Longrightarrow> \<not> pi_done (x s) \<Longrightarrow> k1 s"
    "length (filter id (pk)) = max (length (filter ctx items)) (min m N)"
proof -
  define M where "M = rev (map (\<lambda>i. (i, ctx i)) items)"
  define c where "c = length (filter ctx items)"
  obtain m1 c1 where p1: "fill_rev False m M c = (m1, c1)" by (cases "fill_rev False m M c")
  obtain m2 c2 where p2: "fill_rev True m m1 c1 = (m2, c2)" by (cases "fill_rev True m m1 c1")
  have keep: "pk = map snd (rev m2)"
    using p1 p2 by (simp add: plan_keep_def Let_def M_def c_def assms(2,4))
  have items: "map fst m1 = map fst M" "map fst m2 = map fst M"
    using fill_rev_items[OF p1] fill_rev_items[OF p2] by auto
  have len: "length M = N" "length m1 = N" "length m2 = N"
    using arg_cong[OF items(1), of length] arg_cong[OF items(2), of length] by (simp_all add: M_def assms(1))
  have M: "M ! r = (x r, ctx (x r))" if "r < N" for r
    using that by (simp add: M_def assms(1,3) rev_nth)
  have fsts: "fst (m1 ! r) = x r" "fst (m2 ! r) = x r" if "r < N" for r
    using that items len M by (metis fst_conv nth_map)+
  note marks = fill_rev_marks[OF p1, THEN list_all2_nthD] fill_rev_marks[OF p2, THEN list_all2_nthD]
  note count = fill_rev_count[OF p1] fill_rev_count[OF p2]
  have zips: "zip M m1 ! r = ((x r, ctx (x r)), (x r, snd (m1 ! r)))"
    "zip m1 m2 ! r = ((x r, snd (m1 ! r)), (x r, snd (m2 ! r)))" if "r < N" for r
    using that len M fsts by (simp_all add: prod_eq_iff)
  have c: "length (filter snd M) = c"
    by (simp add: M_def c_def filter_map rev_filter[symmetric] comp_def)
  show thesis
  proof (rule that[of "\<lambda>r. snd (m2 ! r)" "\<lambda>r. snd (m1 ! r)"])
    show "length (pk) = N" by (simp add: keep len)
    show "pk ! (N - 1 - r) = snd (m2 ! r)" if "r < N" for r
      using that by (simp add: keep len rev_nth)
    show "(ctx (x r) \<longrightarrow> snd (m1 ! r)) \<and> (snd (m1 ! r) \<longrightarrow> ctx (x r) \<or> \<not> pi_done (x r)) \<and>
        (snd (m1 ! r) \<longrightarrow> snd (m2 ! r)) \<and> (snd (m2 ! r) \<longrightarrow> snd (m1 ! r) \<or> pi_done (x r))" if "r < N" for r
      using marks(1)[of r] marks(2)[of r] that fsts[OF that] len M by (auto simp: case_prod_beta)
    show "snd (m1 ! r)" if "r < s" "s < N" "\<not> pi_done (x r)" "\<not> pi_done (x s)" "\<not> ctx (x r)" "\<not> ctx (x s)"
      "snd (m1 ! s)" for r s
      using sorted_wrt_nth_less[OF fill_rev_order[OF p1] \<open>r < s\<close>] that len zips(1)[of r] zips(1)[of s]
      by (simp add: first_taken_def)
    show "snd (m2 ! r)" if "r < s" "s < N" "pi_done (x r)" "pi_done (x s)" "\<not> snd (m1 ! r)" "\<not> snd (m1 ! s)"
      "snd (m2 ! s)" for r s
      using sorted_wrt_nth_less[OF fill_rev_order[OF p2] \<open>r < s\<close>] that len zips(2)[of r] zips(2)[of s]
      by (simp add: first_taken_def)
    show "snd (m1 ! s)" if "r < N" "s < N" "snd (m2 ! r)" "\<not> snd (m1 ! r)" "\<not> pi_done (x s)" for r s
    proof -
      have "c1 < m" using count(2) that by (metis not_le)
      moreover have "m1 ! s \<in> set m1" using that len by simp
      ultimately show ?thesis using count(1) that fsts(1)[of s] by auto
    qed
    have total: "length (filter snd m2) = c2" using count c by auto
    have full: "length (filter snd m2) = N" if "c2 < m"
    proof -
      have "snd (m2 ! r)" if "r < N" for r
      proof (cases "pi_done (x r)")
        case True
        moreover have "m2 ! r \<in> set m2" using that len by simp
        ultimately show ?thesis using count(2) \<open>c2 < m\<close> fsts(2)[OF that] by auto
      next
        case False
        have "m1 ! r \<in> set m1" using that len by simp
        moreover have "c1 < m" using count(2) \<open>c2 < m\<close> by simp
        ultimately have "snd (m1 ! r)" using count(1) False fsts(1)[OF that] by auto
        then show ?thesis using marks(2)[of r] that len by (auto simp: case_prod_beta)
      qed
      then show ?thesis using count_true_eq_length[of m2] len by (metis in_set_conv_nth)
    qed
    have "c2 \<le> N" using total len length_filter_le[of snd m2] by simp
    moreover have "c \<le> c1" "c1 \<le> max c m" "c1 \<le> c2" "c2 \<le> max c1 m" using count by simp_all
    ultimately have "c2 = max c (min m N)" using full total by linarith
    then show "length (filter id (pk)) = max (length (filter ctx items)) (min m N)"
      using total by (simp add: keep c_def filter_map rev_filter[symmetric] comp_def)
  qed
qed

text \<open>
  The steps a round is shown. The current step and its ancestors are always among them, even
  when there are more of them than the limit; otherwise exactly the limit is shown (or everything,
  when it fits). A done step is kept only when every open step is, and of two steps with the
  same status the later one in the plan is kept first. What is shown keeps the plan's order.
\<close>

theorem steps_in_view:
  "let keep = plan_keep items current m; ctx = (\<lambda>i. is_context current (items ! i)); N = length items in
   select_plan_items items current m = map fst (filter snd (zip items keep)) \<and>
   length (select_plan_items items current m) = max (length (filter (is_context current) items)) (min m N) \<and>
   (\<forall>i<N. ctx i \<longrightarrow> keep ! i) \<and>
   (\<forall>j<N. \<forall>i<j. pi_done (items ! i) = pi_done (items ! j) \<and> \<not> ctx i \<and> \<not> ctx j \<and> keep ! i \<longrightarrow> keep ! j) \<and>
   (\<forall>i<N. \<forall>j<N. pi_done (items ! i) \<and> \<not> ctx i \<and> keep ! i \<and> \<not> pi_done (items ! j) \<longrightarrow> keep ! j)"
proof -
  define N where "N = length items"
  define x where "x = (\<lambda>r. items ! (N - 1 - r))"
  define keep where "keep = plan_keep items current m"
  let ?ctx = "is_context current"
  obtain k1 k2 where len: "length keep = N" and k: "\<And>r. r < N \<Longrightarrow> keep ! (N - 1 - r) = k2 r"
    and m: "\<And>r. r < N \<Longrightarrow> (?ctx (x r) \<longrightarrow> k1 r) \<and> (k1 r \<longrightarrow> ?ctx (x r) \<or> \<not> pi_done (x r)) \<and>
        (k1 r \<longrightarrow> k2 r) \<and> (k2 r \<longrightarrow> k1 r \<or> pi_done (x r))"
    and op: "\<And>r s. r < s \<Longrightarrow> s < N \<Longrightarrow> \<not> pi_done (x r) \<Longrightarrow> \<not> pi_done (x s) \<Longrightarrow> \<not> ?ctx (x r) \<Longrightarrow> \<not> ?ctx (x s) \<Longrightarrow>
        k1 s \<Longrightarrow> k1 r"
    and dn: "\<And>r s. r < s \<Longrightarrow> s < N \<Longrightarrow> pi_done (x r) \<Longrightarrow> pi_done (x s) \<Longrightarrow> \<not> k1 r \<Longrightarrow> \<not> k1 s \<Longrightarrow> k2 s \<Longrightarrow> k2 r"
    and od: "\<And>r s. r < N \<Longrightarrow> s < N \<Longrightarrow> k2 r \<Longrightarrow> \<not> k1 r \<Longrightarrow> \<not> pi_done (x s) \<Longrightarrow> k1 s"
    and n: "length (filter id keep) = max (length (filter ?ctx items)) (min m N)"
    by (rule plan_keep_passes[OF N_def refl x_def keep_def]) (rule that; assumption)
  have sel: "select_plan_items items current m = map fst (filter snd (zip items keep))"
    by (simp add: select_plan_items_def keep_def)
  have "length (filter snd (zip items keep)) = length (filter id (map snd (zip items keep)))"
    by (simp add: filter_map comp_def)
  then have size: "length (select_plan_items items current m) = max (length (filter ?ctx items)) (min m N)"
    using len n by (simp add: sel N_def)
  have at: "x (N - 1 - i) = items ! i" "keep ! i = k2 (N - 1 - i)" "N - 1 - i < N" if "i < N" for i
    using that k[of "N - 1 - i"] by (auto simp: x_def)
  have later: "keep ! j" if "j < N" "i < j" "pi_done (items ! i) = pi_done (items ! j)" "\<not> ?ctx (items ! i)"
    "\<not> ?ctx (items ! j)" "keep ! i" for i j
  proof -
    have "N - 1 - j < N - 1 - i" "i < N" using that by auto
    then show ?thesis
      using m[of "N - 1 - i"] m[of "N - 1 - j"] op[of "N - 1 - j" "N - 1 - i"] dn[of "N - 1 - j" "N - 1 - i"]
        at[of i] at[of j] that by (cases "pi_done (items ! j)") simp_all
  qed
  have open_first: "keep ! j" if "i < N" "j < N" "pi_done (items ! i)" "\<not> ?ctx (items ! i)" "keep ! i"
    "\<not> pi_done (items ! j)" for i j
    using m[of "N - 1 - i"] m[of "N - 1 - j"] od[of "N - 1 - i" "N - 1 - j"] at[of i] at[of j] that by simp
  have "keep ! i" if "i < N" "?ctx (items ! i)" for i
    using m[of "N - 1 - i"] at[of i] that by simp
  then show ?thesis using sel size later open_first unfolding Let_def N_def[symmetric] keep_def[symmetric] by blast
qed

definition sample_plan :: "plan_item list" where
  "sample_plan = map (\<lambda>(k, d). \<lparr>pi_key = k, pi_goal = [], pi_done = d, pi_outcome = None\<rparr>)
     [(''1'', True), (''2'', True), (''2.1'', False), (''3'', True), (''4'', False)]"

theorem steps_in_view_witness:
  "map pi_key (select_plan_items sample_plan (Some ''2.1'') 3) = [''2'', ''2.1'', ''4''] \<and>
   length (select_plan_items sample_plan (Some ''2.1'') 3) = max 2 (min 3 5) \<and>
   plan_keep sample_plan (Some ''2.1'') 3 ! 1"
proof (intro conjI)
  show "map pi_key (select_plan_items sample_plan (Some ''2.1'') 3) = [''2'', ''2.1'', ''4'']" by code_simp
  have n: "length sample_plan = 5" "length (filter (is_context (Some ''2.1'')) sample_plan) = 2" by code_simp+
  show "length (select_plan_items sample_plan (Some ''2.1'') 3) = max 2 (min 3 5)"
    using steps_in_view[of sample_plan "Some ''2.1''" 3] n unfolding Let_def by metis
  have "1 < length sample_plan" "is_context (Some ''2.1'') (sample_plan ! 1)" by code_simp+
  then show "plan_keep sample_plan (Some ''2.1'') 3 ! 1"
    using steps_in_view[of sample_plan "Some ''2.1''" 3] unfolding Let_def by metis
qed

end
