(* ===== verification/Context_Window.thy ===== *)
theory Context_Window
  imports Eviction
begin

text \<open>
  What of a conversation a round carries, and what becomes of the rest (the second half of
  \<^verbatim>\<open>core/src/context/mod.rs\<close>, \<^verbatim>\<open>core/src/verbatim_window.rs\<close>, \<^verbatim>\<open>core/src/context_window.rs\<close>, and
  their use in \<^verbatim>\<open>core/src/service.rs\<close>).

  \<^item> The window: \<open>window_start\<close>, the token bound \<open>messages_within_tokens\<close>, and the pre-flight check
    that halves the window while the assembled prompt is over budget. The lemmas show where a window
    opens and that the token bound keeps whole turns and as many as fit.
  \<^item> The ladder: what a round does when the provider refuses its prompt as too long. The lemmas
    show which messages it rewrites and when it reports progress, and account for every token it frees
    in one-byte text.
  \<^item> The fold: the messages the window drops go into a rolling summary, \<open>compacted_through\<close> marks
    how far. The summariser is a parameter: from the prompt to its text, or a failure. The lemmas
    refine the fold to a specification, \<open>narrates\<close>: the summary is a chain of calls over exactly
    the messages before the marker.
  \<^item> The token estimator is a parameter, \<open>estimate_tokens\<close> the one a client has by default. The
    floating-point products with a budget (the share of the window, the threshold of the pre-flight
    check) are arguments, and so is what an assembly of a window adds up to. Sums of token counts are
    natural numbers: they stay far below the 64 bits the code gives them.
\<close>

section \<open>The token estimator\<close>

text \<open>The estimate a model client gives unless it has a tokenizer of its own: characters by four.\<close>

definition estimate_tokens :: "string \<Rightarrow> nat" where
  "estimate_tokens s = (length (filter (\<lambda>b. \<not> is_cont_byte b) s) + 3) div 4"

section \<open>The window\<close>

definition MAX_CONTEXT_MESSAGES :: nat where "MAX_CONTEXT_MESSAGES = 40"
definition MIN_CONTEXT_MESSAGES :: nat where "MIN_CONTEXT_MESSAGES = 8"
definition COMPACTION_INTERVAL :: nat where "COMPACTION_INTERVAL = 20"
definition ESTIMATE_SAFETY_MARGIN :: nat where "ESTIMATE_SAFETY_MARGIN = 2"
definition MAX_OVERFLOW_RETRIES :: nat where "MAX_OVERFLOW_RETRIES = 3"
definition MIN_TRUNCATION_TOKENS :: nat where "MIN_TRUNCATION_TOKENS = 1024"
definition MAX_PREFLIGHT_SHRINK_ITERATIONS :: nat where "MAX_PREFLIGHT_SHRINK_ITERATIONS = 5"
definition MAX_COMPACTION_SPAN :: nat where "MAX_COMPACTION_SPAN = 100"

lemmas window_consts = MAX_CONTEXT_MESSAGES_def MIN_CONTEXT_MESSAGES_def COMPACTION_INTERVAL_def
  MAX_COMPACTION_SPAN_def

definition window_start :: "message list \<Rightarrow> nat \<Rightarrow> nat" where
  "window_start ms max_messages =
     (let most = max max_messages MIN_CONTEXT_MESSAGES in
      if length ms \<le> most then 0
      else let tentative = length ms - most; search = drop tentative ms in
           case position (\<lambda>m. msg_role m = User) search of
             Some offset \<Rightarrow> tentative + offset
           | None \<Rightarrow>
               (case position (\<lambda>m. msg_role m \<noteq> ToolRole) search of
                  Some offset \<Rightarrow> tentative + offset
                | None \<Rightarrow>
                    (case rposition (\<lambda>m. msg_role m \<noteq> ToolRole) (take tentative ms) of
                       Some i \<Rightarrow> i
                     | None \<Rightarrow> 0)))"

text \<open>
  The loop of the pre-flight check. \<open>tokens\<close> is what the breakdown of an assembly at a window
  size adds up to; the size the loop settles on is returned.
\<close>

fun preflight_shrink :: "nat \<Rightarrow> (nat \<Rightarrow> nat) \<Rightarrow> nat \<Rightarrow> nat \<Rightarrow> nat" where
  "preflight_shrink 0 tokens threshold current_max = current_max"
| "preflight_shrink (Suc n) tokens threshold current_max =
     (if tokens current_max \<le> threshold then current_max
      else if current_max \<le> MIN_CONTEXT_MESSAGES then current_max
      else let new_max = max (current_max div 2) MIN_CONTEXT_MESSAGES in
           if new_max = current_max then current_max
           else preflight_shrink n tokens threshold new_max)"

definition assembled_window :: "(nat \<Rightarrow> nat) \<Rightarrow> nat option \<Rightarrow> nat \<Rightarrow> nat" where
  "assembled_window tokens threshold max_messages =
     (case threshold of
        None \<Rightarrow> max_messages
      | Some t \<Rightarrow> preflight_shrink MAX_PREFLIGHT_SHRINK_ITERATIONS tokens t max_messages)"

section \<open>The token bound\<close>

definition turn_starts :: "message list \<Rightarrow> nat list" where
  "turn_starts ms = map fst (filter (\<lambda>(_, m). msg_role m = User) (enumerate 0 ms))"

definition cost_of :: "projection \<Rightarrow> (string \<Rightarrow> nat) \<Rightarrow> message list \<Rightarrow> nat" where
  "cost_of p estimate ms = sum_list (map (\<lambda>m. estimate (projected p m)) ms)"

fun widen_window ::
  "message list \<Rightarrow> projection \<Rightarrow> (string \<Rightarrow> nat) \<Rightarrow> nat \<Rightarrow> nat list \<Rightarrow> nat \<Rightarrow> nat \<Rightarrow> nat" where
  "widen_window ms p estimate target [] count spent = count"
| "widen_window ms p estimate target (start # starts) count spent =
     (let window_start = length ms - count;
          cost = cost_of p estimate (take (window_start - start) (drop start ms))
      in if target < min (spent + cost) u64_max then count
         else widen_window ms p estimate target starts (length ms - start) (spent + cost))"

definition messages_within_tokens :: "message list \<Rightarrow> projection \<Rightarrow> (string \<Rightarrow> nat) \<Rightarrow> nat \<Rightarrow> nat" where
  "messages_within_tokens ms p estimate target =
     (case rev (turn_starts ms) of
        [] \<Rightarrow> length ms
      | newest # earlier \<Rightarrow>
          widen_window ms p estimate target earlier (length ms - newest)
            (cost_of p estimate (drop newest ms)))"

text \<open>The window a round asks the assembler for: the recovery window, narrowed by the token bound.\<close>

definition assembly_window :: "message list \<Rightarrow> projection \<Rightarrow> (string \<Rightarrow> nat) \<Rightarrow> nat option \<Rightarrow> nat \<Rightarrow> nat" where
  "assembly_window ms p estimate target_tokens target_window =
     (case target_tokens of
        None \<Rightarrow> target_window
      | Some t \<Rightarrow> min target_window (max (messages_within_tokens ms p estimate t) MIN_CONTEXT_MESSAGES))"

definition COMMON_WINDOW_SIZES :: "nat list" where
  "COMMON_WINDOW_SIZES = [4096, 8192, 16384, 32768, 65536, 100000, 128000, 160000, 192000, 200000, 224000,
     256000, 384000, 512000, 768000, 1000000]"

definition snap_down_to_common :: "nat \<Rightarrow> nat option" where
  "snap_down_to_common n = List.find (\<lambda>rung. rung \<le> n) (rev COMMON_WINDOW_SIZES)"

lemma snap_down_largest:
  "snap_down_to_common n = Some r \<Longrightarrow> r \<in> set COMMON_WINDOW_SIZES \<and> r \<le> n \<and> (\<forall>x\<in>set COMMON_WINDOW_SIZES. x \<le> n \<longrightarrow> x \<le> r)"
  "snap_down_to_common n = None \<longleftrightarrow> n < 4096"
  by (auto simp: snap_down_to_common_def COMMON_WINDOW_SIZES_def split: if_splits)

section \<open>The fold into the rolling summary\<close>

text \<open>The fields of \<^verbatim>\<open>Conversation\<close> that the fold reads and writes; its other fields are labels it never touches.\<close>

record conversation =
  cv_messages :: "message list"
  cv_context_summary :: string
  cv_compacted_through :: nat

definition compaction_range :: "conversation \<Rightarrow> nat \<Rightarrow> (nat \<times> nat) option" where
  "compaction_range conv max_messages =
     (let start = window_start (cv_messages conv) max_messages; through = cv_compacted_through conv in
      if start = 0 then None
      else if through = 0 then Some (0, start)
      else if through + COMPACTION_INTERVAL \<le> start \<or> max_messages < MAX_CONTEXT_MESSAGES \<and> through < start
      then Some (through, start)
      else None)"

definition SUMMARY_PROSE_BYTES :: nat where "SUMMARY_PROSE_BYTES = 2000"
definition SUMMARY_TOOL_RESULT_BYTES :: nat where "SUMMARY_TOOL_RESULT_BYTES = 600"
definition SUMMARY_TOOL_ARGS_BYTES :: nat where "SUMMARY_TOOL_ARGS_BYTES = 200"

definition truncate_on_char_boundary :: "string \<Rightarrow> nat \<Rightarrow> string" where
  "truncate_on_char_boundary s max_bytes =
     (if length s \<le> max_bytes then s else take (floor_boundary s max_bytes) s)"

definition truncated :: "string \<Rightarrow> nat \<Rightarrow> string" where
  "truncated t max_bytes =
     (if max_bytes < length t then truncate_on_char_boundary t max_bytes @ ''...[truncated]'' else t)"

fun join_calls :: "tool_call list \<Rightarrow> string" where
  "join_calls [] = []"
| "join_calls [c] = tc_name c @ ''('' @ truncated (tc_arguments c) SUMMARY_TOOL_ARGS_BYTES @ '')''"
| "join_calls (c # cs) =
     tc_name c @ ''('' @ truncated (tc_arguments c) SUMMARY_TOOL_ARGS_BYTES @ ''), '' @ join_calls cs"

definition transcript_line :: "message \<Rightarrow> string" where
  "transcript_line m =
     (case msg_role m of
        User \<Rightarrow> ''User: '' @ truncated (msg_content m) SUMMARY_PROSE_BYTES @ [CHR 0x0A]
      | Assistant \<Rightarrow>
          (if msg_content m = [] then []
           else ''Assistant: '' @ truncated (msg_content m) SUMMARY_PROSE_BYTES @ [CHR 0x0A]) @
          (if msg_tool_calls m = [] then []
           else ''Assistant called: '' @ join_calls (msg_tool_calls m) @ [CHR 0x0A])
      | ToolRole \<Rightarrow>
          if msg_content m = [] then []
          else ''Tool result: '' @ truncated (msg_content m) SUMMARY_TOOL_RESULT_BYTES @ [CHR 0x0A]
      | SystemRole \<Rightarrow> [])"

definition summary_transcript :: "message list \<Rightarrow> string" where
  "summary_transcript ms = concat (map transcript_line ms)"

datatype summary_outcome = Summarised string | NothingToSummarise | SummaryFailed

definition summary_prompt :: "string \<Rightarrow> string \<Rightarrow> string" where
  "summary_prompt existing transcript =
     (if existing \<noteq> []
      then ''Existing summary of earlier messages:'' @ [CHR 0x0A] @ existing @ [CHR 0x0A, CHR 0x0A] @
           ''New messages to incorporate:'' @ [CHR 0x0A]
      else ''Messages to summarize:'' @ [CHR 0x0A]) @ transcript"

type_synonym summariser = "string \<Rightarrow> string option"

definition generate_context_summary :: "summariser \<Rightarrow> string \<Rightarrow> message list \<Rightarrow> summary_outcome" where
  "generate_context_summary llm existing ms =
     (let transcript = summary_transcript ms in
      if transcript = [] then NothingToSummarise
      else case llm (summary_prompt existing transcript) of
             Some t \<Rightarrow> if trim t \<noteq> [] then Summarised (trim t) else SummaryFailed
           | None \<Rightarrow> SummaryFailed)"

datatype fold_result = FoldMoved | FoldNothing | FoldFailed

definition compact_range_into_summary ::
  "summariser \<Rightarrow> nat \<Rightarrow> nat \<Rightarrow> conversation \<Rightarrow> conversation \<times> fold_result" where
  "compact_range_into_summary llm from upto' conv =
     (let to' = min (min upto' (from + MAX_COMPACTION_SPAN)) (length (cv_messages conv)) in
      if to' \<le> from then (conv, FoldNothing)
      else case generate_context_summary llm (cv_context_summary conv) (take (to' - from) (drop from (cv_messages conv))) of
             Summarised summary \<Rightarrow>
               (conv\<lparr>cv_context_summary := summary, cv_compacted_through := to'\<rparr>, FoldMoved)
           | NothingToSummarise \<Rightarrow> (conv, FoldNothing)
           | SummaryFailed \<Rightarrow> (conv, FoldFailed))"

definition compact_into_summary :: "summariser \<Rightarrow> nat \<Rightarrow> conversation \<Rightarrow> conversation \<times> bool" where
  "compact_into_summary llm max_messages conv =
     (case compaction_range conv max_messages of
        None \<Rightarrow> (conv, False)
      | Some (from, upto') \<Rightarrow>
          (let (conv', r) = compact_range_into_summary llm from upto' conv in (conv', r = FoldMoved)))"

datatype preflight_fold = NotNeeded | Folded | Declined

definition compact_preflight_shrink ::
  "summariser \<Rightarrow> nat \<Rightarrow> nat \<Rightarrow> conversation \<Rightarrow> conversation \<times> preflight_fold" where
  "compact_preflight_shrink llm window_from requested_window conv =
     (if window_from \<le> window_start (cv_messages conv) requested_window then (conv, NotNeeded)
      else if window_from \<le> cv_compacted_through conv then (conv, NotNeeded)
      else case compact_range_into_summary llm (cv_compacted_through conv) window_from conv of
             (conv', FoldMoved) \<Rightarrow> (conv', Folded)
           | (conv', FoldNothing) \<Rightarrow> (conv', NotNeeded)
           | (conv', FoldFailed) \<Rightarrow> (conv', Declined))"

section \<open>The recovery ladder\<close>

definition overflow_truncation_notice :: "string \<Rightarrow> nat \<Rightarrow> nat option \<Rightarrow> nat option \<Rightarrow> string" where
  "overflow_truncation_notice message_id original_bytes prompt_tokens max_tokens =
     (let measured = (case (prompt_tokens, max_tokens) of
        (Some p, Some m) \<Rightarrow> '' (prompt was '' @
     show_nat p @
     '' tokens vs '' @
     show_nat m @
     '' max)''
      | _ \<Rightarrow> [])
      in ''<tool output omitted: '' @
     show_nat original_bytes @
     '' bytes exceeded the model'' @
     [CHR 0x27] @
     ''s context window'' @
     measured @
     ''. The call above and its arguments are unchanged. Read the output back in '' @
     ''ranges with '' @
     TRANSCRIPT_GET_TOOL @
     '' message_id='' @
     [CHR 0x22] @
     message_id @
     [CHR 0x22] @
     '' rather than running the tool again. Where you do need to run it again, ask for '' @
     ''a narrower request '' @
     [CHR 0xE2, CHR 0x80, CHR 0x94] @
     '' for example read the file in smaller byte/line ranges, list a single directory '' @
     ''level with filters, or query for only the fields you need.>'')"

definition overflow_compaction_notice :: "string \<Rightarrow> nat \<Rightarrow> string" where
  "overflow_compaction_notice message_id original_bytes =
     ''<earlier tool output omitted: '' @
     show_nat original_bytes @
     '' bytes are out of view to fit the model'' @
     [CHR 0x27] @
     ''s context window. The call above and its arguments are unchanged. Read the '' @
     ''output back with '' @
     TRANSCRIPT_GET_TOOL @
     '' message_id='' @
     [CHR 0x22] @
     message_id @
     [CHR 0x22] @
     '' rather than running the tool again.>''"

text \<open>\<^verbatim>\<open>max_by_key\<close> keeps the last of equal maxima.\<close>

fun largest_above ::
  "projection \<Rightarrow> nat \<Rightarrow> (string \<Rightarrow> nat) \<Rightarrow> nat \<Rightarrow> message list \<Rightarrow> (nat \<times> nat) option \<Rightarrow> (nat \<times> nat) option" where
  "largest_above p min_tokens estimate i [] best = best"
| "largest_above p min_tokens estimate i (m # ms) best =
     (let tokens = estimate (projected p m);
          better = (case best of None \<Rightarrow> True | Some (_, t) \<Rightarrow> t \<le> tokens)
      in largest_above p min_tokens estimate (Suc i) ms
           (if msg_role m = ToolRole \<and> min_tokens \<le> tokens \<and> better then Some (i, tokens) else best))"

definition find_largest_tool_result_above ::
  "message list \<Rightarrow> projection \<Rightarrow> nat \<Rightarrow> (string \<Rightarrow> nat) \<Rightarrow> nat option" where
  "find_largest_tool_result_above ms p min_tokens estimate =
     map_option fst (largest_above p min_tokens estimate 0 ms None)"

definition is_worth_compacting :: "message \<Rightarrow> projection \<Rightarrow> bool" where
  "is_worth_compacting m p \<longleftrightarrow>
     msg_role m = ToolRole \<and> COMPACTION_MIN_EVICT_BYTES \<le> length (projected p m)"

definition is_tool :: "message \<Rightarrow> bool" where
  "is_tool m \<longleftrightarrow> msg_role m = ToolRole"

function tool_groups :: "message list \<Rightarrow> message list list" where
  "tool_groups [] = []"
| "tool_groups (m # ms) =
     (if msg_role m = Assistant \<and> msg_tool_calls m \<noteq> []
      then (m # takeWhile is_tool ms) # tool_groups (dropWhile is_tool ms)
      else tool_groups ms)"
  by pat_completeness auto
termination
  by (relation "measure length") (auto simp: less_Suc_eq_le length_dropWhile_le)

record compaction_result =
  cr_compacted :: nat
  cr_freed_bytes :: nat
  cr_freed_tokens :: nat

definition compaction_default :: compaction_result where
  "compaction_default = \<lparr>cr_compacted = 0, cr_freed_bytes = 0, cr_freed_tokens = 0\<rparr>"

definition compact_edit :: "projection \<Rightarrow> message \<Rightarrow> string option" where
  "compact_edit p m =
     (let notice = overflow_compaction_notice (msg_id m) (length (projected p m)) in
      if is_worth_compacting m p \<and> length notice < length (projected p m) then Some notice else None)"

fun compact_messages ::
  "(string \<Rightarrow> nat) \<Rightarrow> message list \<Rightarrow> projection \<Rightarrow> compaction_result \<Rightarrow> projection \<times> compaction_result" where
  "compact_messages estimate [] p r = (p, r)"
| "compact_messages estimate (m # ms) p r =
     (case compact_edit p m of
        None \<Rightarrow> compact_messages estimate ms p r
      | Some notice \<Rightarrow>
          compact_messages estimate ms (projection_replace m notice p)
            \<lparr>cr_compacted = cr_compacted r + 1,
             cr_freed_bytes = cr_freed_bytes r + (length (projected p m) - length notice),
             cr_freed_tokens = cr_freed_tokens r + (estimate (projected p m) - estimate notice)\<rparr>)"

definition compact_oldest_tool_groups ::
  "message list \<Rightarrow> projection \<Rightarrow> (string \<Rightarrow> nat) \<Rightarrow> projection \<times> compaction_result" where
  "compact_oldest_tool_groups ms p estimate =
     (let groups = filter (\<lambda>g. list_ex (\<lambda>m. is_worth_compacting m p) g) (tool_groups ms) in
      if length groups \<le> 1 then (p, compaction_default)
      else compact_messages estimate (concat (take (length groups div 2) groups)) p compaction_default)"

datatype recovery_outcome = Progressed | Exhausted

record recovery =
  rc_outcome :: recovery_outcome
  rc_compacted :: bool

text \<open>Step 1: the projection, and the tokens it freed.\<close>

definition truncate_largest ::
  "message list \<Rightarrow> projection \<Rightarrow> nat option \<Rightarrow> nat option \<Rightarrow> (string \<Rightarrow> nat) \<Rightarrow> projection \<times> nat" where
  "truncate_largest window p prompt_tokens max_tokens estimate =
     (case find_largest_tool_result_above window p MIN_TRUNCATION_TOKENS estimate of
        None \<Rightarrow> (p, 0)
      | Some idx \<Rightarrow>
          (let m = window ! idx;
               notice = overflow_truncation_notice (msg_id m) (length (projected p m)) prompt_tokens max_tokens;
               freed = estimate (projected p m) - estimate notice
           in if 0 < freed then (projection_replace m notice p, freed) else (p, 0)))"

text \<open>Steps 1 and 2: the second runs when the first frees nothing.\<close>

definition rewrite_rungs ::
  "message list \<Rightarrow> projection \<Rightarrow> nat option \<Rightarrow> nat option \<Rightarrow> (string \<Rightarrow> nat) \<Rightarrow> projection \<times> nat" where
  "rewrite_rungs window p prompt_tokens max_tokens estimate =
     (let (p1, freed1) = truncate_largest window p prompt_tokens max_tokens estimate in
      if freed1 = 0
      then (let (q, r) = compact_oldest_tool_groups window p1 estimate in (q, cr_freed_tokens r))
      else (p1, freed1))"

definition sat_mul_u64 :: "nat \<Rightarrow> nat \<Rightarrow> nat" where
  "sat_mul_u64 a b = min (a * b) u64_max"

definition recover_from_overflow ::
  "summariser \<Rightarrow> (string \<Rightarrow> nat) \<Rightarrow> nat option \<Rightarrow> nat option \<Rightarrow> nat \<Rightarrow> conversation \<Rightarrow> projection \<Rightarrow> nat \<Rightarrow>
   conversation \<times> projection \<times> nat \<times> recovery" where
  "recover_from_overflow llm estimate prompt_tokens max_tokens window_from conv p target_window =
     (let window = drop (min window_from (length (cv_messages conv))) (cv_messages conv);
          (p2, freed) = rewrite_rungs window p prompt_tokens max_tokens estimate;
          enough = (case (prompt_tokens, max_tokens) of
             (Some prompt, Some most) \<Rightarrow> most < prompt \<and> sat_mul_u64 (prompt - most) ESTIMATE_SAFETY_MARGIN \<le> freed
           | _ \<Rightarrow> False)
      in if enough then (conv, p2, target_window, \<lparr>rc_outcome = Progressed, rc_compacted = False\<rparr>)
         else
           (let new_window = max (target_window div 2) MIN_CONTEXT_MESSAGES;
                shrank = new_window < target_window;
                target' = (if shrank then new_window else target_window);
                (conv', summarised) = compact_into_summary llm target' conv
            in (conv', p2, target',
                \<lparr>rc_outcome = (if 0 < freed \<or> shrank then Progressed else Exhausted), rc_compacted = shrank\<rparr>)))"

section \<open>Where a window opens\<close>

lemma position_NoneD: "position P xs = None \<Longrightarrow> \<forall>x\<in>set xs. \<not> P x"
  using position_None[of P xs] by (auto simp: find_None_iff)

lemma position_first: "position P xs = Some i \<Longrightarrow> \<forall>j < i. \<not> P (xs ! j)"
  by (induction xs arbitrary: i) (auto simp: nth_Cons split: if_splits nat.splits)

text \<open>
  The four ways a window opens: the whole conversation; a prompt; where no prompt is in reach a
  message that is not a tool result; and the call all the results in reach belong to.
\<close>

lemma window_start_cases:
  assumes "ms \<noteq> []" and "msg_role (hd ms) \<noteq> ToolRole"
  obtains (whole) "length ms \<le> max n MIN_CONTEXT_MESSAGES" "window_start ms n = 0"
  | (prompt) "max n MIN_CONTEXT_MESSAGES < length ms" "length ms - max n MIN_CONTEXT_MESSAGES \<le> window_start ms n"
      "window_start ms n < length ms" "msg_role (ms ! window_start ms n) = User"
  | (step) "max n MIN_CONTEXT_MESSAGES < length ms" "length ms - max n MIN_CONTEXT_MESSAGES \<le> window_start ms n"
      "window_start ms n < length ms" "msg_role (ms ! window_start ms n) \<noteq> ToolRole"
  | (fan_out) "max n MIN_CONTEXT_MESSAGES < length ms" "window_start ms n < length ms - max n MIN_CONTEXT_MESSAGES"
      "msg_role (ms ! window_start ms n) \<noteq> ToolRole"
      "\<forall>i. window_start ms n < i \<longrightarrow> i < length ms \<longrightarrow> msg_role (ms ! i) = ToolRole"
proof -
  let ?most = "max n MIN_CONTEXT_MESSAGES"
  let ?tent = "length ms - ?most"
  let ?search = "drop ?tent ms"
  show thesis
  proof (cases "length ms \<le> ?most")
    case True
    then show ?thesis using whole by (simp add: window_start_def Let_def)
  next
    case False
    then have tent: "?tent \<le> length ms" and long: "?most < length ms" by auto
    show ?thesis
    proof (cases "position (\<lambda>m. msg_role m = User) ?search")
      case (Some i)
      then have "window_start ms n = ?tent + i" using False by (simp add: window_start_def Let_def)
      then show ?thesis using prompt position_Some[OF Some] long by auto
    next
      case no_user: None
      show ?thesis
      proof (cases "position (\<lambda>m. msg_role m \<noteq> ToolRole) ?search")
        case (Some i)
        then have "window_start ms n = ?tent + i" using False no_user by (simp add: window_start_def Let_def)
        then show ?thesis using step position_Some[OF Some] long by auto
      next
        case all_tools: None
        have tail: "msg_role (ms ! i) = ToolRole" if "?tent \<le> i" "i < length ms" for i
        proof -
          have "ms ! i \<in> set ?search"
            using that by (auto simp: in_set_conv_nth intro!: exI[of _ "i - ?tent"])
          then show ?thesis using position_NoneD[OF all_tools] by blast
        qed
        have "0 < ?tent"
          using long by simp
        then have "hd ms \<in> set (take ?tent ms)"
          using assms(1) by (cases ms; cases ?tent) auto
        then obtain i where i: "rposition (\<lambda>m. msg_role m \<noteq> ToolRole) (take ?tent ms) = Some i"
          using rposition_None[of "\<lambda>m. msg_role m \<noteq> ToolRole" "take ?tent ms"] assms(2) by (cases "rposition (\<lambda>m. msg_role m \<noteq> ToolRole) (take ?tent ms)") auto
        have eq: "window_start ms n = i" using False no_user all_tools i by (simp add: window_start_def Let_def)
        note found = rposition_Some[OF i]
        have "msg_role (ms ! j) = ToolRole" if "i < j" "j < length ms" for j
          using that found tail[of j] by (cases "j < ?tent") auto
        then show ?thesis using fan_out long found eq by auto
      qed
    qed
  qed
qed

lemma window_start_lt:
  "ms \<noteq> [] \<Longrightarrow> msg_role (hd ms) \<noteq> ToolRole \<Longrightarrow> window_start ms n < length ms"
  by (rule window_start_cases[of ms n]) auto

text \<open>
  The messages a round carries never open on the result of a tool. Whatever window is asked for, a
  conversation that does not begin with a tool result is cut at a message that exists and is not one, so
  that no result reaches the provider without the call it answers. The cut keeps the number of messages
  asked for, or eight where fewer are asked for; it keeps more only where all of those are results, and
  then it keeps exactly the call they belong to and its results.
\<close>

theorem window_opens_on_a_boundary:
  assumes "ms \<noteq> []" and "msg_role (hd ms) \<noteq> ToolRole"
  shows "window_start ms n < length ms \<and> msg_role (ms ! window_start ms n) \<noteq> ToolRole \<and>
    (length ms - window_start ms n \<le> max n MIN_CONTEXT_MESSAGES \<or>
     (\<forall>i. window_start ms n < i \<longrightarrow> i < length ms \<longrightarrow> msg_role (ms ! i) = ToolRole))"
  by (rule window_start_cases[OF assms, of n]) (use assms in \<open>auto simp: hd_conv_nth\<close>)

theorem window_opens_on_a_boundary_witness:
  "window_start (message_new ''u'' User ''go'' # assistant_with_tool_calls ''a'' [] # replicate 9 (tool_result ''r'' ''c'' ''x'')) 3 = 1 \<and>
   msg_role ((message_new ''u'' User ''go'' # assistant_with_tool_calls ''a'' [] # replicate 9 (tool_result ''r'' ''c'' ''x'')) !
     window_start (message_new ''u'' User ''go'' # assistant_with_tool_calls ''a'' [] # replicate 9 (tool_result ''r'' ''c'' ''x'')) 3) \<noteq> ToolRole"
  using window_opens_on_a_boundary[of "message_new ''u'' User ''go'' # assistant_with_tool_calls ''a'' [] #
      replicate 9 (tool_result ''r'' ''c'' ''x'')" 3]
  by (simp add: window_start_def MIN_CONTEXT_MESSAGES_def message_new_def assistant_with_tool_calls_def tool_result_def
      numeral_eq_Suc)

lemma widen_window_turns:
  assumes "t < u64_max" and "sorted_wrt (>) (s # starts)" and "s \<le> length ms"
    and "\<forall>x\<in>set starts. x \<le> length ms"
  shows "\<exists>r. widen_window ms p est t starts (length ms - s) (cost_of p est (drop s ms)) = length ms - r \<and>
     r \<in> insert s (set starts) \<and> (r = s \<or> cost_of p est (drop r ms) \<le> t) \<and>
     (\<forall>x\<in>set starts. x < r \<longrightarrow> t < cost_of p est (drop x ms))"
  using assms(2-)
proof (induction starts arbitrary: s)
  case (Cons b starts)
  have "b < s" using Cons.prems by simp
  have split: "cost_of p est (drop x ms) = cost_of p est (take (y - x) (drop x ms)) + cost_of p est (drop y ms)"
    if "x \<le> y" for x y
    using that by (simp add: cost_of_def flip: sum_list_append map_append) (metis append_take_drop_id drop_drop le_add_diff_inverse2)
  have sum: "cost_of p est (drop s ms) + cost_of p est (take (s - b) (drop b ms)) = cost_of p est (drop b ms)"
    using split[of b s] \<open>b < s\<close> by simp
  have pos: "length ms - (length ms - s) = s" using Cons.prems by simp
  show ?case
  proof (cases "t < cost_of p est (drop b ms)")
    case True
    then have out: "widen_window ms p est t (b # starts) (length ms - s) (cost_of p est (drop s ms)) = length ms - s"
      using assms(1) sum pos by (simp add: Let_def)
    have "t < cost_of p est (drop x ms)" if "x \<in> set (b # starts)" for x
      using that Cons.prems split[of x b] True by fastforce
    then show ?thesis using out by (intro exI[of _ s]) auto
  next
    case False
    then have out: "widen_window ms p est t (b # starts) (length ms - s) (cost_of p est (drop s ms)) =
        widen_window ms p est t starts (length ms - b) (cost_of p est (drop b ms))"
      using sum pos by (simp add: Let_def min_def)
    obtain r where "widen_window ms p est t starts (length ms - b) (cost_of p est (drop b ms)) = length ms - r"
        "r \<in> insert b (set starts)" "r = b \<or> cost_of p est (drop r ms) \<le> t"
        "\<forall>x\<in>set starts. x < r \<longrightarrow> t < cost_of p est (drop x ms)"
      using Cons.IH[of b] Cons.prems by auto
    moreover from this Cons.prems have "r \<le> b" by auto
    ultimately show ?thesis using out False unfolding out by (intro exI[of _ r]) auto
  qed
qed simp

lemma turn_starts_filter: "turn_starts ms = filter (\<lambda>i. msg_role (ms ! i) = User) [0..<length ms]"
proof -
  have "enumerate 0 ms = map (\<lambda>i. (i, ms ! i)) [0..<length ms]"
    by (rule nth_equalityI) (simp_all add: enumerate_eq_zip)
  then show ?thesis by (simp add: turn_starts_def filter_map comp_def)
qed

lemma turn_starts_last:
  assumes "turn_starts ms \<noteq> []"
  obtains newest earlier where "rev (turn_starts ms) = newest # earlier" "sorted_wrt (>) (newest # earlier)"
    "newest < length ms" "msg_role (ms ! newest) = User"
    "\<forall>i. newest < i \<longrightarrow> i < length ms \<longrightarrow> msg_role (ms ! i) \<noteq> User"
    "set (newest # earlier) = {i. i < length ms \<and> msg_role (ms ! i) = User}"
proof -
  obtain newest earlier where eq: "rev (turn_starts ms) = newest # earlier"
    using assms by (cases "rev (turn_starts ms)") auto
  have set: "set (newest # earlier) = {i. i < length ms \<and> msg_role (ms ! i) = User}"
    by (simp only: eq[symmetric]) (auto simp: turn_starts_filter)
  have "sorted_wrt (<) (turn_starts ms)"
    by (simp add: turn_starts_filter sorted_wrt_filter)
  then have desc: "sorted_wrt (>) (newest # earlier)"
    by (simp only: eq[symmetric] sorted_wrt_rev)
  then have "msg_role (ms ! i) \<noteq> User" if "newest < i" "i < length ms" for i
    using that set by (metis (mono_tags, lifting) mem_Collect_eq not_less_iff_gr_or_eq set_ConsD sorted_wrt.simps(2))
  then show thesis using that eq desc set by auto
qed

lemma window_start_at_turn:
  assumes "r < length ms" and "msg_role (ms ! r) = User"
  shows "window_start ms (max (length ms - r) MIN_CONTEXT_MESSAGES) \<le> r"
    and "MIN_CONTEXT_MESSAGES \<le> length ms - r \<Longrightarrow>
      window_start ms (max (length ms - r) MIN_CONTEXT_MESSAGES) = r"
proof -
  let ?most = "max (length ms - r) MIN_CONTEXT_MESSAGES"
  let ?tent = "length ms - ?most"
  have le: "?tent \<le> r" by simp
  have at: "drop ?tent ms ! (r - ?tent) = ms ! r" using assms(1) le by simp
  have found: "\<exists>i \<le> r - ?tent. position (\<lambda>m. msg_role m = User) (drop ?tent ms) = Some i"
  proof (cases "position (\<lambda>m. msg_role m = User) (drop ?tent ms)")
    case None
    have "r - ?tent < length (drop ?tent ms)" using diff_less_mono[OF assms(1) le] by simp
    then have "ms ! r \<in> set (drop ?tent ms)" using nth_mem at by metis
    then show ?thesis using position_NoneD[OF None] assms(2) by blast
  next
    case (Some i)
    then show ?thesis using position_first[OF Some] at assms(2) by (metis not_le_imp_less)
  qed
  then obtain i where "i \<le> r - ?tent" "position (\<lambda>m. msg_role m = User) (drop ?tent ms) = Some i" by blast
  moreover from this le have "?tent + i \<le> r" by linarith
  ultimately show "window_start ms ?most \<le> r"
    by (simp only: window_start_def Let_def option.simps max.idem max.assoc split: if_split) simp
  show "window_start ms ?most = r" if "MIN_CONTEXT_MESSAGES \<le> length ms - r"
  proof -
    have "?most = length ms - r" using that by simp
    then show ?thesis using found assms(1) by (auto simp: window_start_def Let_def)
  qed
qed

text \<open>
  C23: The token bound of the window keeps whole turns. In a conversation that has a prompt, the window that
  \<^verbatim>\<open>messages_within_tokens\<close> settles on opens at a prompt; it costs no more than the target, or is the
  most recent turn alone, which travels whole whatever it costs; and no turn that would still fit is left
  out. The cut the assembler makes for the window a round asks for then never falls inside the most recent
  turn, and is exactly the bound's own wherever that keeps eight messages or more.
\<close>

theorem token_window_keeps_whole_turns:
  assumes "\<exists>m\<in>set ms. msg_role m = User" and "t < u64_max"
    and "max (messages_within_tokens ms p estimate t) MIN_CONTEXT_MESSAGES \<le> w"
  shows "\<exists>r newest. messages_within_tokens ms p estimate t = length ms - r \<and> r \<le> newest \<and>
    r < length ms \<and> msg_role (ms ! r) = User \<and>
    newest < length ms \<and> msg_role (ms ! newest) = User \<and>
    (\<forall>i. newest < i \<longrightarrow> i < length ms \<longrightarrow> msg_role (ms ! i) \<noteq> User) \<and>
    (r = newest \<or> cost_of p estimate (drop r ms) \<le> t) \<and>
    (\<forall>i < r. msg_role (ms ! i) = User \<longrightarrow> t < cost_of p estimate (drop i ms)) \<and>
    window_start ms (assembly_window ms p estimate (Some t) w) \<le> r \<and>
    (MIN_CONTEXT_MESSAGES \<le> length ms - r \<longrightarrow> window_start ms (assembly_window ms p estimate (Some t) w) = r)"
proof -
  have "turn_starts ms \<noteq> []"
    using assms(1) by (fastforce simp: turn_starts_filter filter_empty_conv in_set_conv_nth)
  then obtain newest earlier where eq: "rev (turn_starts ms) = newest # earlier" "sorted_wrt (>) (newest # earlier)"
      and new: "newest < length ms" "msg_role (ms ! newest) = User"
        "\<forall>i. newest < i \<longrightarrow> i < length ms \<longrightarrow> msg_role (ms ! i) \<noteq> User"
      and set: "set (newest # earlier) = {i. i < length ms \<and> msg_role (ms ! i) = User}"
    by (rule turn_starts_last)
  have mem: "i = newest \<or> i \<in> set earlier \<longleftrightarrow> i < length ms \<and> msg_role (ms ! i) = User" for i
    using eqset_imp_iff[OF set, of i] by simp
  have "\<forall>x\<in>set earlier. x \<le> length ms" using mem by (meson less_imp_le)
  from widen_window_turns[OF assms(2) eq(2) less_imp_le[OF new(1)] this, of p estimate]
  obtain r where w: "widen_window ms p estimate t earlier (length ms - newest) (cost_of p estimate (drop newest ms)) = length ms - r"
      and r2: "r \<in> insert newest (set earlier)"
      and r3: "r = newest \<or> cost_of p estimate (drop r ms) \<le> t"
      and r4: "\<forall>x\<in>set earlier. x < r \<longrightarrow> t < cost_of p estimate (drop x ms)"
    by blast
  have r1: "messages_within_tokens ms p estimate t = length ms - r"
    using w by (simp add: messages_within_tokens_def eq(1))
  have at: "r < length ms" "msg_role (ms ! r) = User" using r2 mem[of r] by simp_all
  have "r \<le> newest" using r2 eq(2) by auto
  have "t < cost_of p estimate (drop i ms)" if "i < r" "msg_role (ms ! i) = User" for i
  proof -
    have "i \<in> set earlier" using that at(1) mem[of i] \<open>r \<le> newest\<close> by simp
    then show ?thesis using that r4 by blast
  qed
  moreover have "assembly_window ms p estimate (Some t) w = max (length ms - r) MIN_CONTEXT_MESSAGES"
    using assms(3) r1 by (simp add: assembly_window_def min_absorb2)
  ultimately show ?thesis
    using r1 r3 new at \<open>r \<le> newest\<close> window_start_at_turn[OF at]
    by (intro exI[of _ r] exI[of _ newest] conjI) simp_all
qed

theorem token_window_keeps_whole_turns_witness:
  "\<exists>r. messages_within_tokens [message_new ''u'' User ''go'', message_new ''a'' Assistant ''done''] [] estimate_tokens 100 = 2 - r \<and>
     window_start [message_new ''u'' User ''go'', message_new ''a'' Assistant ''done'']
       (assembly_window [message_new ''u'' User ''go'', message_new ''a'' Assistant ''done''] [] estimate_tokens (Some 100) 40) \<le> r \<and>
     r < 2"
proof -
  let ?ms = "[message_new ''u'' User ''go'', message_new ''a'' Assistant ''done'']"
  have "messages_within_tokens ?ms [] estimate_tokens 100 \<le> 2"
    by (simp add: messages_within_tokens_def turn_starts_def message_new_def)
  then have "max (messages_within_tokens ?ms [] estimate_tokens 100) MIN_CONTEXT_MESSAGES \<le> 40"
    by (simp add: MIN_CONTEXT_MESSAGES_def)
  moreover have "\<exists>m\<in>set ?ms. msg_role m = User" by (simp add: message_new_def)
  moreover have "(100 :: nat) < u64_max" by (simp add: u64_max_def)
  ultimately obtain r where "messages_within_tokens ?ms [] estimate_tokens 100 = length ?ms - r" "r < length ?ms"
      "window_start ?ms (assembly_window ?ms [] estimate_tokens (Some 100) 40) \<le> r"
    using token_window_keeps_whole_turns[of ?ms 100 "[]" estimate_tokens 40] by blast
  then show ?thesis by (intro exI[of _ r]) simp
qed

lemma preflight_shrink_bounds:
  "preflight_shrink n tokens t w \<le> w \<and> min w MIN_CONTEXT_MESSAGES \<le> preflight_shrink n tokens t w"
proof (induction n tokens t w rule: preflight_shrink.induct)
  case (2 n tokens t w)
  show ?case
  proof (cases "w \<le> MIN_CONTEXT_MESSAGES")
    case False
    then have "max (w div 2) MIN_CONTEXT_MESSAGES \<le> w" by simp
    then show ?thesis using 2[OF _ False refl] False
      by (cases "tokens w \<le> t"; cases "max (w div 2) MIN_CONTEXT_MESSAGES = w") (auto simp: Let_def intro: order_trans)
  qed simp
qed simp

lemma preflight_shrink_settles:
  "w \<le> MIN_CONTEXT_MESSAGES * 2 ^ n \<Longrightarrow>
   tokens (preflight_shrink n tokens t w) \<le> t \<or> preflight_shrink n tokens t w \<le> MIN_CONTEXT_MESSAGES"
proof (induction n tokens t w rule: preflight_shrink.induct)
  case (2 n tokens t w)
  have "max (w div 2) MIN_CONTEXT_MESSAGES \<le> MIN_CONTEXT_MESSAGES * 2 ^ n"
    using 2(2) by (auto simp: MIN_CONTEXT_MESSAGES_def)
  then show ?case using 2(1) by (auto simp: Let_def)
qed simp

text \<open>
  The pre-flight check ends with a prompt under its threshold or with the smallest window, for every
  window up to 256 messages: its five halvings are enough for the forty the service starts from.
\<close>

lemma preflight_is_enough:
  assumes "w \<le> 256"
  shows "assembled_window tokens (Some t) w \<le> w \<and>
    (tokens (assembled_window tokens (Some t) w) \<le> t \<or> assembled_window tokens (Some t) w \<le> MIN_CONTEXT_MESSAGES)"
  using preflight_shrink_bounds[of 5 tokens t w] preflight_shrink_settles[of w 5 tokens t] assms
  by (simp add: assembled_window_def MAX_PREFLIGHT_SHRINK_ITERATIONS_def MIN_CONTEXT_MESSAGES_def)

section \<open>What the ladder frees\<close>

lemma cost_of_sum: "distinct ms \<Longrightarrow> cost_of p est ms = (\<Sum>m\<in>set ms. est (projected p m))"
  by (simp add: cost_of_def sum_list_distinct_conv_sum_set)

lemma cost_of_subset:
  assumes "distinct ms" and "distinct sub" and "set sub \<subseteq> set ms"
    and "\<And>m. m \<in> set ms \<Longrightarrow> m \<notin> set sub \<Longrightarrow> projected q m = projected p m"
    and "cost_of q est sub + freed = cost_of p est sub"
  shows "cost_of q est ms + freed = cost_of p est ms"
proof -
  have "(\<Sum>m\<in>set ms - set sub. est (projected q m)) = (\<Sum>m\<in>set ms - set sub. est (projected p m))"
    using assms(4) by (intro sum.cong) auto
  then show ?thesis
    using assms(1,2,5) sum.subset_diff[OF assms(3), of "\<lambda>m. est (projected q m)"]
      sum.subset_diff[OF assms(3), of "\<lambda>m. est (projected p m)"]
    by (simp add: cost_of_sum)
qed

lemma estimate_tokens_le: "estimate_tokens s \<le> (length s + 3) div 4"
  by (simp add: estimate_tokens_def div_le_mono)

lemma estimate_tokens_ascii: "\<forall>b\<in>set s. \<not> is_cont_byte b \<Longrightarrow> estimate_tokens s = (length s + 3) div 4"
  by (simp add: estimate_tokens_def)

lemma estimate_tokens_shorter:
  "length s \<le> length u \<Longrightarrow> \<forall>b\<in>set u. \<not> is_cont_byte b \<Longrightarrow> estimate_tokens s \<le> estimate_tokens u"
  using estimate_tokens_le[of s] by (simp add: estimate_tokens_ascii)

lemma largest_above_found:
  "largest_above p n est i ms best = Some (j, k) \<Longrightarrow>
   best = Some (j, k) \<or> (i \<le> j \<and> j - i < length ms \<and> msg_role (ms ! (j - i)) = ToolRole)"
proof (induction p n est i ms best rule: largest_above.induct)
  case (2 p n est i m ms best)
  let ?best = "if msg_role m = ToolRole \<and> n \<le> est (projected p m) \<and>
      (case best of None \<Rightarrow> True | Some (_, t) \<Rightarrow> t \<le> est (projected p m)) then Some (i, est (projected p m)) else best"
  have "largest_above p n est (Suc i) ms ?best = Some (j, k)" using 2(2) by (simp add: Let_def)
  from 2(1)[OF refl refl this] show ?case
  proof
    assume "?best = Some (j, k)"
    then show ?thesis by (auto split: if_splits)
  next
    assume later: "Suc i \<le> j \<and> j - Suc i < length ms \<and> msg_role (ms ! (j - Suc i)) = ToolRole"
    then have "j - i = Suc (j - Suc i)" by linarith
    then show ?thesis using later by simp
  qed
qed simp

lemma find_largest_found:
  "find_largest_tool_result_above ms p n est = Some j \<Longrightarrow> j < length ms \<and> msg_role (ms ! j) = ToolRole"
  using largest_above_found[of p n est 0 ms None] by (auto simp: find_largest_tool_result_above_def)

lemma truncate_largest_frees:
  assumes "distinct (map msg_id ms)" and "truncate_largest ms p pt mt est = (q, freed)"
  shows "cost_of q est ms + freed = cost_of p est ms"
    and "msg_id m \<in> msg_id ` {m \<in> set ms. msg_role m = ToolRole} \<or> projected q m = projected p m"
proof -
  consider "q = p" "freed = 0"
    | j c where "j < length ms" "msg_role (ms ! j) = ToolRole" "est c < est (projected p (ms ! j))"
        "q = projection_replace (ms ! j) c p" "freed = est (projected p (ms ! j)) - est c"
  proof (cases "find_largest_tool_result_above ms p MIN_TRUNCATION_TOKENS est")
    case None
    then show ?thesis using assms(2) that(1) by (simp add: truncate_largest_def)
  next
    case (Some j)
    let ?c = "overflow_truncation_notice (msg_id (ms ! j)) (length (projected p (ms ! j))) pt mt"
    have "(q, freed) = (if 0 < est (projected p (ms ! j)) - est ?c
        then (projection_replace (ms ! j) ?c p, est (projected p (ms ! j)) - est ?c) else (p, 0))"
      by (simp only: assms(2)[symmetric] truncate_largest_def Some option.case Let_def)
    then show ?thesis
      using that(1) that(2)[of j ?c] find_largest_found[OF Some]
      by (cases "0 < est (projected p (ms ! j)) - est ?c") (simp_all only: if_True if_False prod.inject zero_less_diff simp_thms)
  qed
  then have "cost_of q est ms + freed = cost_of p est ms \<and>
      (msg_id m \<in> msg_id ` {m \<in> set ms. msg_role m = ToolRole} \<or> projected q m = projected p m)"
  proof cases
    case (2 j c)
    have "cost_of q est ms + freed = cost_of p est ms"
    proof (rule cost_of_subset[where sub = "[ms ! j]"])
      show "distinct ms" using assms(1) by (simp add: distinct_map)
      show "projected q m = projected p m" if "m \<in> set ms" "m \<notin> set [ms ! j]" for m
        using that 2 assms(1) by (auto simp: projection_simps distinct_map dest: inj_onD)
    qed (use 2 in \<open>auto simp: cost_of_def projection_simps\<close>)
    then show ?thesis using 2 by (auto simp: projection_simps)
  qed simp
  then show "cost_of q est ms + freed = cost_of p est ms"
    and "msg_id m \<in> msg_id ` {m \<in> set ms. msg_role m = ToolRole} \<or> projected q m = projected p m"
    by simp_all
qed

lemma compact_edit_local:
  "msg_id m' \<noteq> msg_id m \<Longrightarrow> compact_edit (projection_replace m c p) m' = compact_edit p m'"
  by (simp add: compact_edit_def is_worth_compacting_def projection_simps)

lemma compact_edit_tool: "compact_edit p m = Some c \<Longrightarrow> msg_role m = ToolRole \<and> length c < length (projected p m)"
  by (auto simp: compact_edit_def is_worth_compacting_def Let_def split: if_splits)

lemma compact_messages_frees:
  assumes "distinct (map msg_id ms)"
    and "\<And>m c. m \<in> set ms \<Longrightarrow> compact_edit p m = Some c \<Longrightarrow> est c \<le> est (projected p m)"
    and "compact_messages est ms p r = (q, r')"
  shows "cost_of q est ms + cr_freed_tokens r' = cost_of p est ms + cr_freed_tokens r \<and>
    (\<forall>m. msg_id m \<in> msg_id ` {m \<in> set ms. msg_role m = ToolRole} \<or> projected q m = projected p m)"
  using assms
proof (induction ms arbitrary: p r)
  case (Cons x ms)
  have ids: "\<And>m. m \<in> set ms \<Longrightarrow> msg_id m \<noteq> msg_id x" and "distinct (map msg_id ms)"
    using Cons.prems(1) by (simp_all) (metis image_eqI)
  show ?case
  proof (cases "compact_edit p x")
    case None
    have "projected q x = projected p x" using Cons.IH[of p r] Cons.prems None ids by fastforce
    then show ?thesis using Cons.IH[of p r] Cons.prems None by (auto simp: cost_of_def)
  next
    case (Some c)
    let ?p = "projection_replace x c p"
    let ?r = "\<lparr>cr_compacted = cr_compacted r + 1,
      cr_freed_bytes = cr_freed_bytes r + (length (projected p x) - length c),
      cr_freed_tokens = cr_freed_tokens r + (est (projected p x) - est c)\<rparr>"
    have run: "compact_messages est ms ?p ?r = (q, r')" using Cons.prems(3) Some by simp
    have IH: "cost_of q est ms + cr_freed_tokens r' = cost_of ?p est ms + cr_freed_tokens ?r"
      "\<And>m. msg_id m \<in> msg_id ` {m \<in> set ms. msg_role m = ToolRole} \<or> projected q m = projected ?p m"
      using Cons.IH[OF \<open>distinct (map msg_id ms)\<close> _ run] Cons.prems(2) ids
      by (auto simp: compact_edit_local projection_simps)
    have "msg_id x \<notin> msg_id ` {m \<in> set ms. msg_role m = ToolRole}" using ids by force
    then have x: "projected q x = c" using IH(2)[of x] by (simp add: projection_simps)
    have "cost_of ?p est ms = cost_of p est ms"
      using ids by (auto simp: cost_of_def projection_simps intro!: arg_cong[where f = sum_list])
    then have "cost_of q est (x # ms) + cr_freed_tokens r' = cost_of p est (x # ms) + cr_freed_tokens r"
      using IH(1) x Cons.prems(2)[OF _ Some] by (simp add: cost_of_def)
    moreover have "msg_id m \<in> msg_id ` {m \<in> set (x # ms). msg_role m = ToolRole} \<or> projected q m = projected p m" for m
      using IH(2)[of m] compact_edit_tool[OF Some] by (auto simp: projection_simps split: if_splits)
    ultimately show ?thesis by blast
  qed
qed simp

lemma tool_groups_subseq: "subseq (concat (tool_groups ms)) ms"
proof (induction ms rule: tool_groups.induct)
  case (2 m ms)
  have "subseq (takeWhile is_tool ms @ concat (tool_groups (dropWhile is_tool ms)))
      (takeWhile is_tool ms @ dropWhile is_tool ms)"
    if "msg_role m = Assistant \<and> msg_tool_calls m \<noteq> []"
    using 2(1)[OF that] by (intro list_emb_append_mono) auto
  then show ?case using 2(2) by auto
qed simp

lemma concat_filter_subseq: "subseq (concat (filter P gs)) (concat gs)"
  by (induction gs) (auto intro: list_emb_append_mono list_emb_append2)

lemma concat_take_subseq: "subseq (concat (take k gs)) (concat gs)"
proof -
  have "concat gs = concat (take k gs) @ concat (drop k gs)"
    by (metis append_take_drop_id concat_append)
  then show ?thesis
    using list_emb_append_mono[of "(=)" "concat (take k gs)" "concat (take k gs)" "[]" "concat (drop k gs)"] by simp
qed

lemma distinct_subseq: "subseq xs ys \<Longrightarrow> distinct (map f ys) \<Longrightarrow> distinct (map f xs) \<and> set xs \<subseteq> set ys"
  by (induction rule: list_emb.induct) auto

lemma compact_oldest_frees:
  assumes ids: "distinct (map msg_id ms)"
    and est: "\<And>m c. m \<in> set ms \<Longrightarrow> compact_edit p m = Some c \<Longrightarrow> est c \<le> est (projected p m)"
    and run: "compact_oldest_tool_groups ms p est = (q, r)"
  shows "cost_of q est ms + cr_freed_tokens r = cost_of p est ms"
    and "msg_id m \<in> msg_id ` {m \<in> set ms. msg_role m = ToolRole} \<or> projected q m = projected p m"
proof -
  let ?groups = "filter (\<lambda>g. list_ex (\<lambda>m. is_worth_compacting m p) g) (tool_groups ms)"
  let ?old = "concat (take (length ?groups div 2) ?groups)"
  have "cost_of q est ms + cr_freed_tokens r = cost_of p est ms \<and>
      (msg_id m \<in> msg_id ` {m \<in> set ms. msg_role m = ToolRole} \<or> projected q m = projected p m)"
  proof (cases "length ?groups \<le> 1")
    case True
    then show ?thesis using run by (auto simp: compact_oldest_tool_groups_def compaction_default_def Let_def)
  next
    case False
    have "subseq ?old ms"
      by (rule subseq_order.trans[OF concat_take_subseq subseq_order.trans[OF concat_filter_subseq tool_groups_subseq]])
    note old = conjunct1[OF distinct_subseq[OF this ids]] conjunct2[OF distinct_subseq[OF this ids]]
    have sweep: "compact_messages est ?old p compaction_default = (q, r)"
      using run False by (simp only: compact_oldest_tool_groups_def Let_def if_False)
    from compact_messages_frees[OF old(1) est sweep] old(2)
    have freed: "cost_of q est ?old + cr_freed_tokens r = cost_of p est ?old"
      and kept: "\<And>m. msg_id m \<in> msg_id ` {m \<in> set ?old. msg_role m = ToolRole} \<or> projected q m = projected p m"
      by (auto simp: compaction_default_def)
    have "cost_of q est ms + cr_freed_tokens r = cost_of p est ms"
    proof (rule cost_of_subset[OF _ _ old(2) _ freed])
      show "distinct ms" "distinct ?old" using ids old(1) by (simp_all only: distinct_map)
      show "projected q m = projected p m" if "m \<in> set ms" "m \<notin> set ?old" for m
        using kept[of m] that ids old(2) by (auto simp: distinct_map dest: inj_onD)
    qed
    then show ?thesis using kept[of m] old(2) by blast
  qed
  then show "cost_of q est ms + cr_freed_tokens r = cost_of p est ms"
    and "msg_id m \<in> msg_id ` {m \<in> set ms. msg_role m = ToolRole} \<or> projected q m = projected p m"
    by simp_all
qed

lemma compact_range_messages: "cv_messages (fst (compact_range_into_summary llm from to' conv)) = cv_messages conv"
  by (simp add: compact_range_into_summary_def Let_def split: summary_outcome.split)

lemma compact_into_messages: "cv_messages (fst (compact_into_summary llm n conv)) = cv_messages conv"
  using compact_range_messages by (auto simp: compact_into_summary_def split: option.split prod.splits) (metis fst_conv)

lemma rewrite_rungs_free:
  assumes "distinct (map msg_id ms)" and "\<forall>m\<in>set ms. \<forall>b\<in>set (projected p m). \<not> is_cont_byte b"
    and "rewrite_rungs ms p pt mt estimate_tokens = (q, freed)"
  shows "cost_of q estimate_tokens ms + freed = cost_of p estimate_tokens ms"
    and "msg_id m \<in> msg_id ` {m \<in> set ms. msg_role m = ToolRole} \<or> projected q m = projected p m"
proof -
  obtain p1 freed1 where step1: "truncate_largest ms p pt mt estimate_tokens = (p1, freed1)" by fastforce
  have "cost_of q estimate_tokens ms + freed = cost_of p estimate_tokens ms \<and>
      (msg_id m \<in> msg_id ` {m \<in> set ms. msg_role m = ToolRole} \<or> projected q m = projected p m)"
  proof (cases "freed1 = 0")
    case False
    then show ?thesis
      using truncate_largest_frees[OF assms(1) step1] assms(3) step1 by (simp add: rewrite_rungs_def)
  next
    case True
    have p1: "p1 = p" using step1 True
      by (auto simp: truncate_largest_def Let_def split: option.splits if_splits)
    obtain r where "compact_oldest_tool_groups ms p estimate_tokens = (q, r)" "freed = cr_freed_tokens r"
      using assms(3) step1 True p1 by (auto simp: rewrite_rungs_def split: prod.splits)
    moreover have "estimate_tokens c \<le> estimate_tokens (projected p m)"
      if "m \<in> set ms" "compact_edit p m = Some c" for m c
      using estimate_tokens_shorter compact_edit_tool[OF that(2)] assms(2) that(1) by simp
    ultimately show ?thesis using compact_oldest_frees[OF assms(1)] by blast
  qed
  then show "cost_of q estimate_tokens ms + freed = cost_of p estimate_tokens ms"
    and "msg_id m \<in> msg_id ` {m \<in> set ms. msg_role m = ToolRole} \<or> projected q m = projected p m"
    by simp_all
qed

lemma recover_cases:
  assumes "recover_from_overflow llm est pt mt opens conv p w = (conv', p', w', r)"
  obtains freed where "rewrite_rungs (drop opens (cv_messages conv)) p pt mt est = (p', freed)"
    "cv_messages conv' = cv_messages conv" "w' = (if rc_compacted r then max (w div 2) MIN_CONTEXT_MESSAGES else w)"
    "rc_compacted r \<Longrightarrow> w' < w" "rc_outcome r = Progressed \<longleftrightarrow> 0 < freed \<or> rc_compacted r"
    "conv' = conv \<or> conv' = fst (compact_into_summary llm w' conv)"
proof -
  obtain q freed where run: "rewrite_rungs (drop opens (cv_messages conv)) p pt mt est = (q, freed)" by fastforce
  have window: "drop (min opens (length (cv_messages conv))) (cv_messages conv) = drop opens (cv_messages conv)"
    by (simp add: min_def)
  let ?enough = "case (pt, mt) of
             (Some prompt, Some most) \<Rightarrow> most < prompt \<and> sat_mul_u64 (prompt - most) ESTIMATE_SAFETY_MARGIN \<le> freed
           | _ \<Rightarrow> False"
  let ?new = "max (w div 2) MIN_CONTEXT_MESSAGES"
  let ?w = "if ?new < w then ?new else w"
  have eq: "(conv', p', w', r) = (if ?enough then (conv, q, w, \<lparr>rc_outcome = Progressed, rc_compacted = False\<rparr>)
      else (fst (compact_into_summary llm ?w conv), q, ?w,
        \<lparr>rc_outcome = (if 0 < freed \<or> ?new < w then Progressed else Exhausted), rc_compacted = ?new < w\<rparr>))"
    using assms[symmetric]
    by (simp only: recover_from_overflow_def window run Let_def prod.case case_prod_beta fst_conv snd_conv)
  have "0 < freed" if ?enough
    using that by (auto simp: sat_mul_u64_def ESTIMATE_SAFETY_MARGIN_def u64_max_def split: option.splits)
  note pos = this
  show thesis
  proof (cases ?enough)
    case True
    have "conv' = conv \<and> p' = q \<and> w' = w \<and> r = \<lparr>rc_outcome = Progressed, rc_compacted = False\<rparr>"
      using eq unfolding if_P[OF True] by simp
    then show ?thesis using that[of freed] run pos[OF True] by simp
  next
    case False
    have "conv' = fst (compact_into_summary llm ?w conv) \<and> p' = q \<and> w' = ?w \<and>
        r = \<lparr>rc_outcome = (if 0 < freed \<or> ?new < w then Progressed else Exhausted), rc_compacted = ?new < w\<rparr>"
      using eq unfolding if_not_P[OF False] by simp
    then show ?thesis using that[of freed] run compact_into_messages[of llm ?w conv] by simp
  qed
qed

text \<open>What a recovery makes of one message of the window, for every estimator and every text.\<close>

definition text_shrinks :: "(string \<Rightarrow> nat) \<Rightarrow> string \<Rightarrow> string \<Rightarrow> bool" where
  "text_shrinks est new old \<longleftrightarrow> est new < est old \<or> length new < length old"

lemma truncate_largest_changes:
  assumes "distinct (map msg_id ms)" "truncate_largest ms p pt mt est = (q, freed)"
    and "m \<in> set ms" "projected q m \<noteq> projected p m"
  shows "msg_role m = ToolRole \<and> est (projected q m) < est (projected p m)"
proof (cases "find_largest_tool_result_above ms p MIN_TRUNCATION_TOKENS est")
  case None
  then show ?thesis using assms(2,4) by (simp add: truncate_largest_def)
next
  case (Some j)
  let ?x = "ms ! j"
  let ?c = "overflow_truncation_notice (msg_id ?x) (length (projected p ?x)) pt mt"
  have q: "q = projection_replace ?x ?c p" "est ?c < est (projected p ?x)"
    using assms(2,4) Some by (auto simp: truncate_largest_def Let_def split: if_splits)
  note found = find_largest_found[OF Some]
  have "msg_id m = msg_id ?x" using assms(4) by (auto simp: q(1) projection_simps split: if_splits)
  then have "m = ?x" using assms(1,3) found by (auto simp: distinct_map dest: inj_onD)
  then show ?thesis using found q by (simp add: projection_simps)
qed

lemma compact_messages_changes:
  "distinct (map msg_id ms) \<Longrightarrow> compact_messages est ms p r = (q, r') \<Longrightarrow> m \<in> set ms \<Longrightarrow> projected q m \<noteq> projected p m \<Longrightarrow>
   msg_role m = ToolRole \<and> length (projected q m) < length (projected p m)"
  "distinct (map msg_id ms) \<Longrightarrow> compact_messages est ms p r = (q, r') \<Longrightarrow> msg_id m \<notin> msg_id ` set ms \<Longrightarrow>
   projected q m = projected p m"
proof (induction ms arbitrary: p r)
  case (Cons x ms)
  have ids: "msg_id x \<notin> msg_id ` set ms" "distinct (map msg_id ms)"
    if "distinct (map msg_id (x # ms))" using that by simp_all
  {
    case 1
    note ids = ids[OF 1(1)]
    show ?case
    proof (cases "compact_edit p x")
      case None
      then show ?thesis using Cons.IH[OF ids(2)] 1 ids(1) by auto
    next
      case (Some c)
      let ?p = "projection_replace x c p"
      obtain r1 where run: "compact_messages est ms ?p r1 = (q, r')" using 1(2) Some by auto
      show ?thesis
      proof (cases "m = x")
        case True
        then have "projected q m = c" using Cons.IH(2)[OF ids(2) run] ids(1) by (simp add: projection_simps)
        then show ?thesis using compact_edit_tool[OF Some] True by simp
      next
        case False
        then have m: "m \<in> set ms" using 1(3) by simp
        then have "msg_id m \<noteq> msg_id x" using ids(1) by (metis imageI)
        then have "projected ?p m = projected p m" by (simp add: projection_simps)
        then show ?thesis using Cons.IH(1)[OF ids(2) run m] 1(4) by simp
      qed
    qed
  next
    case 2
    note ids = ids[OF 2(1)]
    show ?case
    proof (cases "compact_edit p x")
      case None
      then show ?thesis using Cons.IH(2)[OF ids(2)] 2 by auto
    next
      case (Some c)
      then obtain r1 where "compact_messages est ms (projection_replace x c p) r1 = (q, r')" using 2(2) by auto
      from Cons.IH(2)[OF ids(2) this] show ?thesis using 2(3) by (simp add: projection_simps)
    qed
  }
qed simp_all

lemma compact_oldest_changes:
  assumes ids: "distinct (map msg_id ms)" and run: "compact_oldest_tool_groups ms p est = (q, r)"
    and m: "projected q m \<noteq> projected p m"
  shows "\<exists>x\<in>set ms. msg_id x = msg_id m" "m \<in> set ms \<Longrightarrow> msg_role m = ToolRole \<and> length (projected q m) < length (projected p m)"
proof -
  let ?groups = "filter (\<lambda>g. list_ex (\<lambda>m. is_worth_compacting m p) g) (tool_groups ms)"
  let ?old = "concat (take (length ?groups div 2) ?groups)"
  have "subseq ?old ms"
    by (rule subseq_order.trans[OF concat_take_subseq subseq_order.trans[OF concat_filter_subseq tool_groups_subseq]])
  note old = conjunct1[OF distinct_subseq[OF this ids]] conjunct2[OF distinct_subseq[OF this ids]]
  have sweep: "compact_messages est ?old p compaction_default = (q, r)"
    using run m by (simp only: compact_oldest_tool_groups_def Let_def split: if_splits) auto
  have hit: "msg_id m \<in> msg_id ` set ?old" using compact_messages_changes(2)[OF old(1) sweep] m by blast
  then show "\<exists>x\<in>set ms. msg_id x = msg_id m" using old(2) by force
  show "msg_role m = ToolRole \<and> length (projected q m) < length (projected p m)" if "m \<in> set ms"
  proof -
    have "m \<in> set ?old" using hit that old(2) ids by (auto simp: distinct_map dest!: inj_onD)
    then show ?thesis using compact_messages_changes(1)[OF old(1) sweep] m by blast
  qed
qed

lemma rewrite_rungs_changes:
  assumes "distinct (map msg_id ms)" and "rewrite_rungs ms p pt mt est = (q, freed)" and "projected q m \<noteq> projected p m"
  shows "\<exists>x\<in>set ms. msg_id x = msg_id m"
    "m \<in> set ms \<Longrightarrow> msg_role m = ToolRole \<and> text_shrinks est (projected q m) (projected p m)"
proof -
  obtain p1 freed1 where step1: "truncate_largest ms p pt mt est = (p1, freed1)" by fastforce
  have "(\<exists>x\<in>set ms. msg_id x = msg_id m) \<and>
      (m \<in> set ms \<longrightarrow> msg_role m = ToolRole \<and> text_shrinks est (projected q m) (projected p m))"
  proof (cases "freed1 = 0")
    case False
    then have q: "q = p1" using assms(2) step1 by (simp add: rewrite_rungs_def)
    then show ?thesis
      using truncate_largest_frees(2)[OF assms(1) step1, of m] truncate_largest_changes[OF assms(1) step1, of m] assms(3)
      by (auto simp: text_shrinks_def)
  next
    case True
    have p1: "p1 = p" using step1 True
      by (auto simp: truncate_largest_def Let_def split: option.splits if_splits)
    obtain r where "compact_oldest_tool_groups ms p est = (q, r)"
      using assms(2) step1 True p1 by (auto simp: rewrite_rungs_def split: prod.splits)
    from compact_oldest_changes[OF assms(1) this assms(3)] show ?thesis by (auto simp: text_shrinks_def)
  qed
  then show "\<exists>x\<in>set ms. msg_id x = msg_id m"
    "m \<in> set ms \<Longrightarrow> msg_role m = ToolRole \<and> text_shrinks est (projected q m) (projected p m)" by blast+
qed

text \<open>
  C22: what a recovery from an overflow may touch, and what it reports. For every estimator and every text: no
  stored message changes, and the conversation is as it was or has been through one summarising step for
  the window asked for next, which may rewrite its summary and marker; of what the round reads, only
  tool results inside the window change, each to a text that is cheaper by the estimator or shorter
  in bytes; the number of messages asked for stays or is halved down to the minimum, and
  \<open>rc_compacted\<close> tells which; and a recovery that reports \<open>Exhausted\<close> has not narrowed it. With the estimator a client has
  by default, and a window of one-byte characters, the cost of the window's text never rises, and
  \<open>Progressed\<close> is reported exactly when that cost went down or fewer messages are asked for than before
  (the conversation may hold no more than that, and the next prompt is then the same).
\<close>

theorem recovery_touches_only_tool_results:
  assumes "distinct (map msg_id (cv_messages conv))"
    and "recover_from_overflow llm est pt mt opens conv p w = (conv', p', w', r)"
    and window: "window = drop opens (cv_messages conv)"
  shows "cv_messages conv' = cv_messages conv \<and>
    (conv' = conv \<or> conv' = fst (compact_into_summary llm w' conv)) \<and>
    w' = (if rc_compacted r then max (w div 2) MIN_CONTEXT_MESSAGES else w) \<and> (rc_compacted r \<longleftrightarrow> w' < w) \<and>
    (\<forall>m\<in>set (cv_messages conv). projected p' m \<noteq> projected p m \<longrightarrow>
       m \<in> set window \<and> msg_role m = ToolRole \<and>
       (est (projected p' m) < est (projected p m) \<or> length (projected p' m) < length (projected p m))) \<and>
    (rc_outcome r = Exhausted \<longrightarrow> w' = w) \<and>
    (est = estimate_tokens \<and> (\<forall>m\<in>set window. \<forall>b\<in>set (projected p m). \<not> is_cont_byte b) \<longrightarrow>
       cost_of p' est window \<le> cost_of p est window \<and>
       (rc_outcome r = Progressed \<longleftrightarrow> cost_of p' est window < cost_of p est window \<or> w' < w))"
proof -
  obtain freed where run: "rewrite_rungs window p pt mt est = (p', freed)"
    and facts: "cv_messages conv' = cv_messages conv" "w' = (if rc_compacted r then max (w div 2) MIN_CONTEXT_MESSAGES else w)"
      "rc_compacted r \<Longrightarrow> w' < w" "rc_outcome r = Progressed \<longleftrightarrow> 0 < freed \<or> rc_compacted r"
      "conv' = conv \<or> conv' = fst (compact_into_summary llm w' conv)"
    using recover_cases[OF assms(2)] unfolding window by metis
  have ids: "distinct (map msg_id window)" using assms(1) by (simp add: window drop_map[symmetric])
  have narrower: "rc_compacted r \<longleftrightarrow> w' < w" using facts(2,3) by (cases "rc_compacted r") auto
  have "m \<in> set window \<and> msg_role m = ToolRole \<and>
      (est (projected p' m) < est (projected p m) \<or> length (projected p' m) < length (projected p m))"
    if stored: "m \<in> set (cv_messages conv)" and changed: "projected p' m \<noteq> projected p m" for m
  proof -
    obtain x where x: "x \<in> set window" "msg_id x = msg_id m" using rewrite_rungs_changes(1)[OF ids run changed] by blast
    then have "x = m" using assms(1) stored by (auto simp: window distinct_map dest: inj_onD in_set_dropD)
    then have "m \<in> set window" using x(1) by simp
    then show ?thesis using rewrite_rungs_changes(2)[OF ids run changed] by (simp add: text_shrinks_def)
  qed
  moreover have "cost_of p' est window \<le> cost_of p est window \<and>
       (rc_outcome r = Progressed \<longleftrightarrow> cost_of p' est window < cost_of p est window \<or> w' < w)"
    if plain: "est = estimate_tokens" "\<forall>m\<in>set window. \<forall>b\<in>set (projected p m). \<not> is_cont_byte b"
    using rewrite_rungs_free(1)[OF ids plain(2) run[unfolded plain(1)]] facts(4) narrower plain(1) by auto
  moreover have "rc_outcome r = Exhausted \<longrightarrow> w' = w" using facts(2,4) by (cases "rc_outcome r") auto
  ultimately show ?thesis using facts(1,2,5) narrower by blast
qed

definition refused_conv :: conversation where
  "refused_conv = \<lparr>cv_messages = [message_new ''u'' User ''go'',
     assistant_with_tool_calls ''a'' [\<lparr>tc_id = ''c'', tc_name = ''t'', tc_arguments = ''{}''\<rparr>],
     tool_result ''b'' ''c'' (replicate 8192 (CHR ''x''))], cv_context_summary = [], cv_compacted_through = 0\<rparr>"

theorem recovery_touches_only_tool_results_witness:
  "\<exists>conv' p' w' r. recover_from_overflow (\<lambda>_. None) estimate_tokens None None 0 refused_conv [] 40 = (conv', p', w', r) \<and>
     cv_messages conv' = cv_messages refused_conv \<and> w' \<le> 40 \<and>
     cost_of p' estimate_tokens (cv_messages refused_conv) \<le> cost_of [] estimate_tokens (cv_messages refused_conv)"
proof -
  obtain conv' p' w' r where run: "recover_from_overflow (\<lambda>_. None) estimate_tokens None None 0 refused_conv [] 40 = (conv', p', w', r)"
    by (rule prod_cases4)
  have "distinct (map msg_id (cv_messages refused_conv))"
    by (simp add: refused_conv_def message_new_def assistant_with_tool_calls_def tool_result_def)
  note facts = recovery_touches_only_tool_results[OF this run refl]
  have "\<forall>m\<in>set (drop 0 (cv_messages refused_conv)). \<forall>b\<in>set (projected [] m). \<not> is_cont_byte b"
    by (simp add: refused_conv_def message_new_def assistant_with_tool_calls_def tool_result_def projection_simps
        is_cont_byte_def byte_of_def)
  then have "cost_of p' estimate_tokens (cv_messages refused_conv) \<le> cost_of [] estimate_tokens (cv_messages refused_conv)"
    using facts by (simp only: drop_0 simp_thms)
  moreover have "w' \<le> 40" using facts by (cases "rc_compacted r") auto
  ultimately show ?thesis using facts run by blast
qed

text \<open>
  The sweep's guard compares bytes, and the estimate counts characters. For text of several bytes a
  character the notice can be shorter in bytes and dearer in tokens.
\<close>

definition emoji_text :: "nat \<Rightarrow> string" where
  "emoji_text n = concat (replicate n [CHR 0xF0, CHR 0x9F, CHR 0x98, CHR 0x80])"

definition grown_conv :: conversation where
  "grown_conv = \<lparr>cv_messages =
     [assistant_with_tool_calls ''a'' [\<lparr>tc_id = ''c'', tc_name = ''t'', tc_arguments = ''{}''\<rparr>],
      tool_result ''b'' ''c'' (replicate 512 (CHR ''x'')),
      tool_result ''d'' ''c'' (emoji_text 128), tool_result ''e'' ''c'' (emoji_text 128),
      tool_result ''i'' ''c'' (emoji_text 128),
      assistant_with_tool_calls ''f'' [\<lparr>tc_id = ''g'', tc_name = ''t'', tc_arguments = ''{}''\<rparr>],
      tool_result ''h'' ''g'' (replicate 512 (CHR ''x''))],
     cv_context_summary = [], cv_compacted_through = 0\<rparr>"

lemma emoji_text_tokens: "length (emoji_text n) = 4 * n" "estimate_tokens (emoji_text n) = (n + 3) div 4"
proof -
  have "length (filter (\<lambda>b. \<not> is_cont_byte b) (emoji_text n)) = n" "length (emoji_text n) = 4 * n"
    by (induction n) (simp_all add: emoji_text_def is_cont_byte_def byte_of_def)
  then show "length (emoji_text n) = 4 * n" "estimate_tokens (emoji_text n) = (n + 3) div 4"
    by (simp_all add: estimate_tokens_def)
qed

lemma estimate_replicate: "estimate_tokens (replicate n (CHR ''x'')) = (n + 3) div 4"
  by (simp add: estimate_tokens_def is_cont_byte_def byte_of_def)

lemma notice_512:
  "length (overflow_compaction_notice [c] 512) = 239"
  "\<not> is_cont_byte c \<Longrightarrow> estimate_tokens (overflow_compaction_notice [c] 512) = 60"
  by (simp_all add: overflow_compaction_notice_def TRANSCRIPT_GET_TOOL_def show_nat.simps estimate_tokens_def
      digit_char_def is_cont_byte_def byte_of_def)

lemmas grown_simps = tool_result_def assistant_with_tool_calls_def estimate_replicate emoji_text_tokens projection_simps

lemma grown_step_1:
  "truncate_largest (cv_messages grown_conv) [] None None estimate_tokens = ([], 0)"
  by (simp add: truncate_largest_def find_largest_tool_result_above_def grown_conv_def MIN_TRUNCATION_TOKENS_def
      grown_simps estimate_tokens_def[of "[]"])

lemma grown_groups:
  "tool_groups (cv_messages grown_conv) = [take 5 (cv_messages grown_conv), drop 5 (cv_messages grown_conv)]"
  by (simp add: grown_conv_def is_tool_def tool_result_def assistant_with_tool_calls_def)

lemma grown_edits:
  "msg_content m = replicate 512 (CHR ''x'') \<or> msg_content m = emoji_text 128 \<Longrightarrow> msg_role m = ToolRole \<Longrightarrow>
   \<not> is_replaced p m \<Longrightarrow> msg_id m = [c] \<Longrightarrow> compact_edit p m = Some (overflow_compaction_notice [c] 512)"
  by (auto simp: compact_edit_def is_worth_compacting_def COMPACTION_MIN_EVICT_BYTES_def projection_simps
      emoji_text_tokens notice_512(1))

definition grown_notices :: projection where
  "grown_notices = fold (\<lambda>c p. projection_replace (tool_result [c] [] []) (overflow_compaction_notice [c] 512) p) ''bdei'' []"

lemma grown_edit_step:
  assumes "m = tool_result [c] ''c'' s" and "s = replicate 512 (CHR ''x'') \<or> s = emoji_text 128" and "\<not> is_replaced p m"
  shows "\<exists>r'. compact_messages estimate_tokens (m # ms) p r =
      compact_messages estimate_tokens ms (projection_replace m (overflow_compaction_notice [c] 512) p) r' \<and>
    cr_freed_tokens r' = cr_freed_tokens r + (estimate_tokens s - estimate_tokens (overflow_compaction_notice [c] 512))"
proof -
  have "compact_edit p m = Some (overflow_compaction_notice [c] 512)"
    using assms by (intro grown_edits) (auto simp: tool_result_def)
  moreover have "projected p m = s" using assms(1,3) by (simp add: projection_simps tool_result_def)
  ultimately show ?thesis
    by (intro exI[of _ "\<lparr>cr_compacted = cr_compacted r + 1,
        cr_freed_bytes = cr_freed_bytes r + (length s - length (overflow_compaction_notice [c] 512)),
        cr_freed_tokens = cr_freed_tokens r + (estimate_tokens s - estimate_tokens (overflow_compaction_notice [c] 512))\<rparr>"]) simp
qed

lemma replace_by_id: "msg_id m = msg_id m' \<Longrightarrow> projection_replace m c p = projection_replace m' c p"
  by (simp add: projection_replace_def)

lemma grown_step_2:
  "\<exists>r. compact_oldest_tool_groups (cv_messages grown_conv) [] estimate_tokens = (grown_notices, r) \<and> cr_freed_tokens r = 68"
proof -
  let ?x = "replicate 512 (CHR ''x'')" and ?y = "emoji_text 128"
  let ?m = "\<lambda>c s. tool_result [c] ''c'' s"
  let ?n = "\<lambda>c p. projection_replace (?m c []) (overflow_compaction_notice [c] 512) p"
  have swap: "projection_replace (?m c s) k p = projection_replace (?m c []) k p" for c s k p
    by (rule replace_by_id) (simp add: tool_result_def)
  have worth: "is_worth_compacting (?m c ?x) []" "is_worth_compacting (tool_result ''h'' ''g'' ?x) []" for c
    by (simp_all add: is_worth_compacting_def COMPACTION_MIN_EVICT_BYTES_def grown_simps)
  have run: "compact_oldest_tool_groups (cv_messages grown_conv) [] estimate_tokens =
      compact_messages estimate_tokens [?m CHR ''b'' ?x, ?m CHR ''d'' ?y, ?m CHR ''e'' ?y, ?m CHR ''i'' ?y] [] compaction_default"
    unfolding compact_oldest_tool_groups_def grown_groups
    by (simp add: grown_conv_def worth Let_def compact_edit_def[of _ "assistant_with_tool_calls _ _"]
        is_worth_compacting_def[of "assistant_with_tool_calls _ _"]) (simp add: assistant_with_tool_calls_def)
  have fresh: "is_replaced (?n c p) (?m d s) \<longleftrightarrow> c = d \<or> is_replaced p (?m d s)" "\<not> is_replaced [] (?m d s)" for c d p s
    by (auto simp: is_replaced_replace tool_result_def is_replaced_def[of "[]"])
  obtain r1 where 1: "compact_messages estimate_tokens [?m CHR ''b'' ?x, ?m CHR ''d'' ?y, ?m CHR ''e'' ?y, ?m CHR ''i'' ?y] [] compaction_default =
      compact_messages estimate_tokens [?m CHR ''d'' ?y, ?m CHR ''e'' ?y, ?m CHR ''i'' ?y] (?n CHR ''b'' []) r1"
      "cr_freed_tokens r1 = 68"
    using grown_edit_step[of "?m CHR ''b'' ?x" "CHR ''b''" ?x "[]" "[?m CHR ''d'' ?y, ?m CHR ''e'' ?y, ?m CHR ''i'' ?y]" compaction_default]
    by (auto simp: fresh swap[of _ ?x] notice_512 estimate_replicate is_cont_byte_def byte_of_def compaction_default_def)
  have more: "\<exists>r'. compact_messages estimate_tokens (?m c ?y # ms) p r = compact_messages estimate_tokens ms (?n c p) r' \<and>
      cr_freed_tokens r' = cr_freed_tokens r" if "\<not> is_replaced p (?m c ?y)" "c \<in> set ''dei''" for c ms p r
    using grown_edit_step[of "?m c ?y" c ?y p ms r] that
    by (auto simp: swap[of _ ?y] notice_512 emoji_text_tokens is_cont_byte_def byte_of_def)
  obtain r2 where 2: "compact_messages estimate_tokens [?m CHR ''d'' ?y, ?m CHR ''e'' ?y, ?m CHR ''i'' ?y] (?n CHR ''b'' []) r1 =
      compact_messages estimate_tokens [?m CHR ''e'' ?y, ?m CHR ''i'' ?y] (?n CHR ''d'' (?n CHR ''b'' [])) r2" "cr_freed_tokens r2 = 68"
    using more[of "?n CHR ''b'' []" "CHR ''d''"] 1(2) by (fastforce simp: fresh)
  obtain r3 where 3: "compact_messages estimate_tokens [?m CHR ''e'' ?y, ?m CHR ''i'' ?y] (?n CHR ''d'' (?n CHR ''b'' [])) r2 =
      compact_messages estimate_tokens [?m CHR ''i'' ?y] (?n CHR ''e'' (?n CHR ''d'' (?n CHR ''b'' []))) r3" "cr_freed_tokens r3 = 68"
    using more[of "?n CHR ''d'' (?n CHR ''b'' [])" "CHR ''e''"] 2(2) by (fastforce simp: fresh)
  obtain r4 where 4: "compact_messages estimate_tokens [?m CHR ''i'' ?y] (?n CHR ''e'' (?n CHR ''d'' (?n CHR ''b'' []))) r3 =
      (?n CHR ''i'' (?n CHR ''e'' (?n CHR ''d'' (?n CHR ''b'' []))), r4)" "cr_freed_tokens r4 = 68"
    using more[of "?n CHR ''e'' (?n CHR ''d'' (?n CHR ''b'' []))" "CHR ''i''" "[]" r3] 3(2) by (fastforce simp: fresh)
  have "grown_notices = ?n CHR ''i'' (?n CHR ''e'' (?n CHR ''d'' (?n CHR ''b'' [])))"
    by (simp add: grown_notices_def projection_replace_def tool_result_def)
  then show ?thesis using run 1(1) 2(1) 3(1) 4 by simp
qed

text \<open>
  A recovery can report progress and leave a dearer prompt. The sweep of the oldest tool groups replaces
  a result when the notice has fewer bytes, and adds up the tokens it saves with a subtraction that stops
  at zero, so a result of four-byte characters counts as saving nothing where its notice costs more. On a
  window at its floor that holds one ASCII result and three such results in the older of two groups, the
  recovery reports \<open>Progressed\<close>, with the window as it was, and what the round reads costs more tokens than
  the prompt the provider refused.
\<close>

theorem progress_can_cost_more:
  "\<exists>conv p'. recover_from_overflow llm estimate_tokens None None 0 conv [] MIN_CONTEXT_MESSAGES =
     (conv, p', MIN_CONTEXT_MESSAGES, \<lparr>rc_outcome = Progressed, rc_compacted = False\<rparr>) \<and>
   cost_of [] estimate_tokens (cv_messages conv) < cost_of p' estimate_tokens (cv_messages conv)"
proof -
  obtain r where r: "compact_oldest_tool_groups (cv_messages grown_conv) [] estimate_tokens = (grown_notices, r)" "cr_freed_tokens r = 68"
    using grown_step_2 by blast
  then have rungs: "rewrite_rungs (cv_messages grown_conv) [] None None estimate_tokens = (grown_notices, 68)"
    by (simp add: rewrite_rungs_def grown_step_1)
  have idle: "compact_into_summary llm MIN_CONTEXT_MESSAGES grown_conv = (grown_conv, False)"
    by (simp add: compact_into_summary_def compaction_range_def window_start_def MIN_CONTEXT_MESSAGES_def) (simp add: grown_conv_def)
  have "recover_from_overflow llm estimate_tokens None None 0 grown_conv [] MIN_CONTEXT_MESSAGES =
      (grown_conv, grown_notices, MIN_CONTEXT_MESSAGES, \<lparr>rc_outcome = Progressed, rc_compacted = False\<rparr>)"
    using idle by (simp add: recover_from_overflow_def rungs MIN_CONTEXT_MESSAGES_def)
  moreover have "cost_of [] estimate_tokens (cv_messages grown_conv) < cost_of grown_notices estimate_tokens (cv_messages grown_conv)"
    by (simp add: cost_of_def grown_conv_def grown_notices_def grown_simps notice_512 is_cont_byte_def byte_of_def estimate_tokens_def[of "[]"])
  ultimately show ?thesis by blast
qed

section \<open>What the rolling summary describes\<close>

text \<open>
  The specification of a rolling summary: \<open>narrates answers ms s\<close> says that \<open>s\<close> is what a chain of
  summariser calls made of exactly the messages \<open>ms\<close>, each call given the summary so far and the
  transcript of the next slice. \<open>answers\<close> relates a prompt to the replies the summariser may give.
\<close>

inductive narrates :: "(string \<Rightarrow> string option \<Rightarrow> bool) \<Rightarrow> message list \<Rightarrow> string \<Rightarrow> bool"
  for answers where
  nothing_yet: "narrates answers [] []"
| next_slice: "narrates answers ms s \<Longrightarrow> slice \<noteq> [] \<Longrightarrow> length slice \<le> MAX_COMPACTION_SPAN \<Longrightarrow>
    answers (summary_prompt s (summary_transcript slice)) (Some reply) \<Longrightarrow> trim reply \<noteq> [] \<Longrightarrow>
    narrates answers (ms @ slice) (trim reply)"

text \<open>
  What happens to a conversation: messages are appended; a fold at a turn's entry or under token
  pressure; the fold of what a pre-flight check dropped; a run of the recovery ladder. Windows, the
  place the prompt opens and the estimator are whatever they are at that moment.
\<close>

inductive conversation_step :: "(string \<Rightarrow> string option \<Rightarrow> bool) \<Rightarrow> conversation \<Rightarrow> conversation \<Rightarrow> bool"
  for answers where
  appended: "conversation_step answers c (c\<lparr>cv_messages := cv_messages c @ ms\<rparr>)"
| folded: "(\<And>q. answers q (llm q)) \<Longrightarrow> conversation_step answers c (fst (compact_into_summary llm n c))"
| pre_flight: "(\<And>q. answers q (llm q)) \<Longrightarrow>
    conversation_step answers c (fst (compact_preflight_shrink llm opens n c))"
| recovered: "(\<And>q. answers q (llm q)) \<Longrightarrow>
    conversation_step answers c (fst (recover_from_overflow llm est pt mt opens c p w))"

inductive conversation_steps :: "(string \<Rightarrow> string option \<Rightarrow> bool) \<Rightarrow> conversation \<Rightarrow> conversation \<Rightarrow> bool"
  for answers c where
  steps_none: "conversation_steps answers c c"
| steps_more: "conversation_steps answers c c' \<Longrightarrow> conversation_step answers c' c'' \<Longrightarrow> conversation_steps answers c c''"

definition fresh_conversation :: conversation where
  "fresh_conversation = \<lparr>cv_messages = [], cv_context_summary = [], cv_compacted_through = 0\<rparr>"

text \<open>Every step is an append or a fold of a range that starts at the marker.\<close>

lemma compaction_range_from: "compaction_range c n = Some (f, to') \<Longrightarrow> f = cv_compacted_through c"
  by (auto simp: compaction_range_def Let_def split: if_splits)

lemma compact_into_fold:
  obtains "fst (compact_into_summary llm n c) = c"
  | to' where "fst (compact_into_summary llm n c) = fst (compact_range_into_summary llm (cv_compacted_through c) to' c)"
proof (cases "compaction_range c n")
  case None
  then show ?thesis using that(1) by (simp add: compact_into_summary_def)
next
  case (Some a)
  obtain f to' where a: "a = (f, to')" by fastforce
  then have "f = cv_compacted_through c" using Some compaction_range_from by blast
  then show ?thesis using that(2)[of to'] Some a by (simp add: compact_into_summary_def split: prod.split)
qed

lemma conversation_step_cases:
  assumes "conversation_step answers c c'"
  obtains (append) ms where "c' = c\<lparr>cv_messages := cv_messages c @ ms\<rparr>"
  | (fold) llm to' where "\<And>q. answers q (llm q)"
      "c' = fst (compact_range_into_summary llm (cv_compacted_through c) to' c)"
  using assms
proof cases
  case (appended ms)
  then show ?thesis using append by blast
next
  case (folded llm n)
  show ?thesis
  proof (rule compact_into_fold[of llm n c])
    assume "fst (compact_into_summary llm n c) = c"
    then show ?thesis using append[of "[]"] folded by simp
  qed (use fold folded in metis)
next
  case (pre_flight llm opens n)
  show ?thesis
  proof (cases "opens \<le> window_start (cv_messages c) n \<or> opens \<le> cv_compacted_through c")
    case True
    then have "c' = c" using pre_flight by (auto simp: compact_preflight_shrink_def)
    then show ?thesis using append[of "[]"] by simp
  next
    case False
    then have "c' = fst (compact_range_into_summary llm (cv_compacted_through c) opens c)"
      using pre_flight by (auto simp: compact_preflight_shrink_def split: prod.split fold_result.split)
    then show ?thesis using fold pre_flight by metis
  qed
next
  case (recovered llm est pt mt opens p w)
  have "c' = c \<or> (\<exists>n. c' = fst (compact_into_summary llm n c))"
    using recovered(1) by (auto simp: recover_from_overflow_def Let_def case_prod_beta)
  then show ?thesis
  proof (elim disjE exE)
    assume "c' = c"
    then show ?thesis using append[of "[]"] by simp
  next
    fix n assume "c' = fst (compact_into_summary llm n c)"
    then show ?thesis using append[of "[]"] fold recovered(2) by (metis compact_into_fold append_Nil2 conversation.surjective conversation.update_convs(1))
  qed
qed

lemma compact_range_folds:
  obtains (kept) "fst (compact_range_into_summary llm (cv_compacted_through c) to' c) = c"
  | (moved) k reply where "k \<noteq> 0" "k \<le> MAX_COMPACTION_SPAN" "cv_compacted_through c + k \<le> length (cv_messages c)"
      "summary_transcript (take k (drop (cv_compacted_through c) (cv_messages c))) \<noteq> []"
      "llm (summary_prompt (cv_context_summary c) (summary_transcript (take k (drop (cv_compacted_through c) (cv_messages c))))) = Some reply"
      "trim reply \<noteq> []"
      "fst (compact_range_into_summary llm (cv_compacted_through c) to' c) =
         c\<lparr>cv_context_summary := trim reply, cv_compacted_through := cv_compacted_through c + k\<rparr>"
proof -
  let ?f = "cv_compacted_through c"
  define to where "to = min (min to' (?f + MAX_COMPACTION_SPAN)) (length (cv_messages c))"
  define slice where "slice = take (to - ?f) (drop ?f (cv_messages c))"
  have run: "compact_range_into_summary llm ?f to' c =
    (if to \<le> ?f then (c, FoldNothing)
     else case generate_context_summary llm (cv_context_summary c) slice of
            Summarised s \<Rightarrow> (c\<lparr>cv_context_summary := s, cv_compacted_through := to\<rparr>, FoldMoved)
          | NothingToSummarise \<Rightarrow> (c, FoldNothing)
          | SummaryFailed \<Rightarrow> (c, FoldFailed))"
    by (simp only: compact_range_into_summary_def Let_def to_def slice_def)
  consider "fst (compact_range_into_summary llm ?f to' c) = c"
    | s where "?f < to" "generate_context_summary llm (cv_context_summary c) slice = Summarised s"
    unfolding run by (cases "to \<le> ?f"; cases "generate_context_summary llm (cv_context_summary c) slice") auto
  then show thesis
  proof cases
    case 1
    then show ?thesis by (rule kept)
  next
    case (2 s)
    obtain reply where reply: "summary_transcript slice \<noteq> []"
        "llm (summary_prompt (cv_context_summary c) (summary_transcript slice)) = Some reply" "trim reply \<noteq> []" "s = trim reply"
      using 2(2) unfolding generate_context_summary_def Let_def by (auto split: if_splits option.splits)
    have bounds: "to - ?f \<noteq> 0" "to - ?f \<le> MAX_COMPACTION_SPAN" "?f + (to - ?f) \<le> length (cv_messages c)" "?f + (to - ?f) = to"
      using 2(1) by (auto simp: to_def)
    show ?thesis
      by (rule moved[OF bounds(1-3) reply(1)[unfolded slice_def] reply(2)[unfolded slice_def] reply(3)])
        (simp only: bounds(4) run 2 not_le[symmetric] if_False summary_outcome.case fst_conv reply(4) linorder_not_le[THEN iffD2, OF 2(1)])
  qed
qed

lemma narrates_step:
  assumes "conversation_step answers c c'" and "cv_compacted_through c \<le> length (cv_messages c)"
    and "narrates answers (take (cv_compacted_through c) (cv_messages c)) (cv_context_summary c)"
  shows "cv_compacted_through c' \<le> length (cv_messages c') \<and> prefix (cv_messages c) (cv_messages c') \<and>
    cv_compacted_through c \<le> cv_compacted_through c' \<and>
    narrates answers (take (cv_compacted_through c') (cv_messages c')) (cv_context_summary c')"
  using assms(1)
proof (cases rule: conversation_step_cases)
  case (append ms)
  then show ?thesis using assms(2,3) by simp
next
  case (fold llm to')
  show ?thesis
  proof (rule compact_range_folds[of llm c to'])
    assume "fst (compact_range_into_summary llm (cv_compacted_through c) to' c) = c"
    then show ?thesis using fold(2) assms(2,3) by simp
  next
    fix k reply
    assume moved: "k \<noteq> 0" "k \<le> MAX_COMPACTION_SPAN" "cv_compacted_through c + k \<le> length (cv_messages c)"
      "llm (summary_prompt (cv_context_summary c) (summary_transcript (take k (drop (cv_compacted_through c) (cv_messages c))))) = Some reply"
      "trim reply \<noteq> []"
      "fst (compact_range_into_summary llm (cv_compacted_through c) to' c) =
         c\<lparr>cv_context_summary := trim reply, cv_compacted_through := cv_compacted_through c + k\<rparr>"
    let ?slice = "take k (drop (cv_compacted_through c) (cv_messages c))"
    have "narrates answers (take (cv_compacted_through c) (cv_messages c) @ ?slice) (trim reply)"
    proof (rule next_slice[OF assms(3)])
      show "answers (summary_prompt (cv_context_summary c) (summary_transcript ?slice)) (Some reply)"
        using fold(1)[of "summary_prompt (cv_context_summary c) (summary_transcript ?slice)"] moved(4) by simp
    qed (use moved in auto)
    then show ?thesis using moved(3,6) fold(2) by (simp add: take_add)
  qed
qed

text \<open>
  C5: The rolling summary describes exactly the messages behind its marker. Whatever a conversation goes
  through from its creation (messages appended, folds at any window, pre-flight folds, recoveries, and
  summariser calls that answer, fail or answer blank), the marker never passes the end of the transcript,
  and the summary is what a chain of successful calls made of precisely the messages before the marker: in
  order, none left out and none told twice, at most a hundred a call, each call given the summary so far. No
  step takes a message out of the transcript or moves the marker back.
\<close>

theorem summary_narrates_the_prefix:
  assumes "conversation_steps answers fresh_conversation c" and "conversation_step answers c c'"
  shows "cv_compacted_through c \<le> length (cv_messages c) \<and>
    narrates answers (take (cv_compacted_through c) (cv_messages c)) (cv_context_summary c) \<and>
    prefix (cv_messages c) (cv_messages c') \<and> cv_compacted_through c \<le> cv_compacted_through c'"
proof -
  have "cv_compacted_through c \<le> length (cv_messages c) \<and>
    narrates answers (take (cv_compacted_through c) (cv_messages c)) (cv_context_summary c)"
    using assms(1)
  proof (induction c)
    case steps_none
    then show ?case by (simp add: fresh_conversation_def nothing_yet)
  qed (use narrates_step in blast)
  then show ?thesis using narrates_step[OF assms(2)] by blast
qed

theorem summary_narrates_the_prefix_witness:
  "\<exists>c. conversation_steps (\<lambda>_ r. r = Some ''s'') fresh_conversation c \<and> cv_compacted_through c = 1 \<and>
     narrates (\<lambda>_ r. r = Some ''s'') (take 1 (cv_messages c)) (cv_context_summary c)"
proof -
  let ?u = "message_new ''u'' User ''go''" and ?answers = "\<lambda>_ r. r = Some ''s''"
  let ?c = "fresh_conversation\<lparr>cv_messages := cv_messages fresh_conversation @ replicate 9 ?u\<rparr>"
  let ?d = "fst (compact_into_summary (\<lambda>_. Some ''s'') 8 ?c)"
  have trim: "trim ''s'' \<noteq> []" by code_simp
  have "cv_compacted_through ?d = 1"
    using trim by (simp add: compact_into_summary_def compaction_range_def window_start_def fresh_conversation_def message_new_def
        compact_range_into_summary_def generate_context_summary_def summary_transcript_def transcript_line_def
        window_consts MAX_COMPACTION_SPAN_def numeral_eq_Suc)
  moreover have "conversation_steps ?answers fresh_conversation ?d"
    by (rule steps_more[OF steps_more[OF steps_none appended] folded]) simp
  moreover from this have "narrates ?answers (take (cv_compacted_through ?d) (cv_messages ?d)) (cv_context_summary ?d)"
    using summary_narrates_the_prefix[OF _ appended[of ?answers ?d "[]"]] by blast
  ultimately show ?thesis by metis
qed

lemma summary_transcript_nonempty: "m \<in> set ms \<Longrightarrow> transcript_line m \<noteq> [] \<Longrightarrow> summary_transcript ms \<noteq> []"
  by (auto simp: summary_transcript_def)

lemma compact_pass_advances:
  assumes llm: "\<And>q. \<exists>reply. llm q = Some reply \<and> trim reply \<noteq> []"
    and line: "\<And>m. m \<in> set (cv_messages c) \<Longrightarrow> transcript_line m \<noteq> []"
    and lag: "cv_compacted_through c + COMPACTION_INTERVAL \<le> window_start (cv_messages c) n"
    and start: "window_start (cv_messages c) n \<le> length (cv_messages c)"
  shows "cv_compacted_through (fst (compact_into_summary llm n c)) =
    min (window_start (cv_messages c) n) (cv_compacted_through c + MAX_COMPACTION_SPAN)"
proof -
  let ?f = "cv_compacted_through c" and ?s = "window_start (cv_messages c) n"
  let ?to = "min ?s (?f + MAX_COMPACTION_SPAN)"
  have range: "compaction_range c n = Some (?f, ?s)" using lag by (simp add: compaction_range_def Let_def window_consts)
  have lt: "?f < ?to" using lag by (auto simp: window_consts)
  let ?slice = "take (?to - ?f) (drop ?f (cv_messages c))"
  have len: "?to \<le> length (cv_messages c)" using start by simp
  have "cv_messages c ! ?f \<in> set ?slice"
    using lt len by (auto simp: in_set_conv_nth intro!: exI[of _ 0])
  moreover have "cv_messages c ! ?f \<in> set (cv_messages c)" by (rule nth_mem) (rule less_le_trans[OF lt len])
  ultimately have "summary_transcript ?slice \<noteq> []" using line summary_transcript_nonempty by blast
  then obtain s where "generate_context_summary llm (cv_context_summary c) ?slice = Summarised s"
    using llm[of "summary_prompt (cv_context_summary c) (summary_transcript ?slice)"]
    by (auto simp: generate_context_summary_def Let_def)
  moreover have "min ?to (length (cv_messages c)) = ?to" using len by simp
  ultimately have "compact_range_into_summary llm ?f ?s c = (c\<lparr>cv_context_summary := s, cv_compacted_through := ?to\<rparr>, FoldMoved)"
    using lt by (simp only: compact_range_into_summary_def Let_def not_le[symmetric] if_False summary_outcome.case)
  then show ?thesis using range by (simp add: compact_into_summary_def)
qed

lemma compact_pass_mono: "cv_compacted_through c \<le> cv_compacted_through (fst (compact_into_summary llm n c))"
proof (rule compact_into_fold[of llm n c])
  fix to' assume fold: "fst (compact_into_summary llm n c) = fst (compact_range_into_summary llm (cv_compacted_through c) to' c)"
  show ?thesis unfolding fold by (rule compact_range_folds[of llm c to']) simp_all
qed simp

lemma compact_passes_mono:
  "cv_compacted_through c \<le> cv_compacted_through (((\<lambda>c. fst (compact_into_summary llm n c)) ^^ k) c)"
proof (induction k)
  case (Suc k)
  then show ?case using compact_pass_mono order_trans by fastforce
qed simp

text \<open>
  A backlog of any length is folded in bounded calls: with a summariser that answers and messages that
  have something to tell, as many passes as there are spans of a hundred bring the marker to within the
  cadence of the window.
\<close>

lemma fold_catches_up:
  assumes llm: "\<And>q. \<exists>reply. llm q = Some reply \<and> trim reply \<noteq> []"
    and line: "\<And>m. m \<in> set (cv_messages c) \<Longrightarrow> transcript_line m \<noteq> []"
    and head: "cv_messages c \<noteq> []" "msg_role (hd (cv_messages c)) \<noteq> ToolRole"
    and spans: "window_start (cv_messages c) n \<le> cv_compacted_through c + k * MAX_COMPACTION_SPAN"
  shows "window_start (cv_messages c) n <
    cv_compacted_through (((\<lambda>c. fst (compact_into_summary llm n c)) ^^ k) c) + COMPACTION_INTERVAL"
  using line head spans
proof (induction k arbitrary: c)
  case (Suc k)
  let ?pass = "\<lambda>c. fst (compact_into_summary llm n c)"
  have same: "cv_messages (?pass c) = cv_messages c" by (rule compact_into_messages)
  have start: "window_start (cv_messages c) n \<le> length (cv_messages c)"
    using window_start_lt[OF Suc.prems(2,3)] by (rule less_imp_le)
  show ?case
  proof (cases "cv_compacted_through c + COMPACTION_INTERVAL \<le> window_start (cv_messages c) n")
    case True
    have "window_start (cv_messages c) n \<le> cv_compacted_through (?pass c) + k * MAX_COMPACTION_SPAN"
      using compact_pass_advances[OF llm Suc.prems(1) True start] Suc.prems(4) by auto
    then show ?thesis using Suc.IH[of "?pass c"] Suc.prems(1-3) by (simp add: same funpow_Suc_right del: funpow.simps)
  next
    case False
    then show ?thesis using compact_passes_mono[where k = "Suc k" and llm = llm and n = n and c = c] by linarith
  qed
qed (simp add: window_consts)

text \<open>
  A span of a hundred messages that have nothing to tell stops the fold for good: the range is capped
  to the span, the span has an empty transcript, and an empty transcript leaves the marker where it is.
\<close>

lemma blank_span_stops_the_fold:
  assumes "conversation_steps answers c c'"
    and "cv_compacted_through c + MAX_COMPACTION_SPAN \<le> length (cv_messages c)"
    and "\<And>m. m \<in> set (take MAX_COMPACTION_SPAN (drop (cv_compacted_through c) (cv_messages c))) \<Longrightarrow> transcript_line m = []"
  shows "cv_compacted_through c' = cv_compacted_through c"
proof -
  have "cv_compacted_through c' = cv_compacted_through c \<and> prefix (cv_messages c) (cv_messages c')"
    using assms(1)
  proof (induction c')
    case (steps_more c' c'')
    obtain rest where rest: "cv_messages c' = cv_messages c @ rest" using steps_more.IH by (auto simp: prefix_def)
    from steps_more(2) show ?case
    proof (cases rule: conversation_step_cases)
      case (append ms)
      then show ?thesis using steps_more.IH by (auto simp: prefix_def)
    next
      case (fold llm to')
      have "fst (compact_range_into_summary llm (cv_compacted_through c') to' c') = c'"
      proof (rule compact_range_folds[of llm c' to'])
        fix k assume k: "k \<le> MAX_COMPACTION_SPAN"
          "summary_transcript (take k (drop (cv_compacted_through c') (cv_messages c'))) \<noteq> []"
        have "take k (drop (cv_compacted_through c') (cv_messages c')) = take k (take MAX_COMPACTION_SPAN (drop (cv_compacted_through c) (cv_messages c)))"
          using steps_more.IH rest k(1) assms(2) by simp
        then have "\<forall>m\<in>set (take k (drop (cv_compacted_through c') (cv_messages c'))). transcript_line m = []"
          by (metis assms(3) in_set_takeD)
        then have "summary_transcript (take k (drop (cv_compacted_through c') (cv_messages c'))) = []"
          by (simp add: summary_transcript_def)
        then show ?thesis using k(2) by blast
      qed
      then show ?thesis using fold(2) steps_more.IH by simp
    qed
  qed simp
  then show ?thesis by simp
qed

end
