(* ===== verification/Client_Tools.thy ===== *)
theory Client_Tools
  imports Dispatch Tool_Routing
begin

text \<open>
  Tools that run on the client (\<^verbatim>\<open>application/src/client_tools.rs\<close>, the two commands in
  \<^verbatim>\<open>application/src/lib.rs\<close>, the row types of \<^verbatim>\<open>core/src/ports/store.rs\<close>). A turn that calls such a
  tool writes its row, emits the call, installs a slot with a one-shot channel and waits; the
  client's answer takes the slot and sends on the channel.

  \<^item> \<open>coordinator\<close> holds the registrations per connection and the slots per task; \<open>turn_store\<close> is
    the in-memory store of rows.
  \<^item> A call in progress is a \<open>suspension\<close>. Its phases are the awaits of
    \<^verbatim>\<open>suspend_for_client_tool\<close>: between two phases other turns, answers and cancellations run.
    \<open>suspend_step\<close> runs one phase, and \<open>client_step\<close> interleaves all of it. \<^verbatim>\<open>tokio::select!\<close> takes
    any branch that is ready, so waking, cancelling and timing out are separate steps.
  \<^item> The task-locals of a request (user, session) are arguments. A turn runs its tool calls one
    after another, so a call starts only when its task has no other call in progress.
\<close>

section \<open>Registrations\<close>

record 'j client_tool_registration =
  ctr_name :: string
  ctr_description :: string
  ctr_input_schema :: 'j

type_synonym registration_key = "string \<times> string"

record pending_slot =
  ps_user_id :: string
  ps_expected_tool_call_id :: string
  ps_waker :: nat

record 'j client_coordinator =
  cc_registrations :: "(registration_key, 'j client_tool_registration list) hashmap"
  cc_pending :: "(string, pending_slot) hashmap"

definition client_coordinator_new :: "'j client_coordinator" where
  "client_coordinator_new = \<lparr>cc_registrations = [], cc_pending = []\<rparr>"

text \<open>The body of the loop in \<^verbatim>\<open>register\<close>: a repeated name keeps its place and takes the later tool.\<close>

definition hold_tool :: "'j client_tool_registration \<Rightarrow> 'j client_tool_registration list \<Rightarrow> 'j client_tool_registration list" where
  "hold_tool t held =
     (case position (\<lambda>h. ctr_name h = ctr_name t) held of
        Some i \<Rightarrow> held[i := t]
      | None \<Rightarrow> held @ [t])"

definition register_tools ::
  "registration_key \<Rightarrow> 'j client_tool_registration list \<Rightarrow> 'j client_coordinator \<Rightarrow> 'j client_coordinator \<times> nat" where
  "register_tools key tools c =
     (let set' = fold hold_tool tools []
      in (c\<lparr>cc_registrations := hm_insert key set' (cc_registrations c)\<rparr>, min (length set') u32_max))"

definition registered_set :: "registration_key \<Rightarrow> 'j client_coordinator \<Rightarrow> 'j client_tool_registration list" where
  "registered_set key c = (case hm_get (cc_registrations c) key of Some ts \<Rightarrow> ts | None \<Rightarrow> [])"

definition is_client_registered :: "registration_key \<Rightarrow> string \<Rightarrow> 'j client_coordinator \<Rightarrow> bool" where
  "is_client_registered key name c \<longleftrightarrow> list_ex (\<lambda>t. ctr_name t = name) (registered_set key c)"

definition is_registered_in_any_session :: "string \<Rightarrow> 'j client_coordinator \<Rightarrow> bool" where
  "is_registered_in_any_session name c \<longleftrightarrow>
     list_ex (\<lambda>(_, ts). list_ex (\<lambda>t. ctr_name t = name) ts) (cc_registrations c)"

definition registered_definitions :: "registration_key \<Rightarrow> 'j client_coordinator \<Rightarrow> 'j tool_definition list" where
  "registered_definitions key c =
     map (\<lambda>t. \<lparr>td_name = ctr_name t, td_description = ctr_description t, td_parameters = ctr_input_schema t\<rparr>)
       (registered_set key c)"

definition clear_session :: "string \<Rightarrow> 'j client_coordinator \<Rightarrow> 'j client_coordinator" where
  "clear_session session c =
     c\<lparr>cc_registrations := filter (\<lambda>((_, sess), _). sess \<noteq> session) (cc_registrations c)\<rparr>"

section \<open>Rows\<close>

datatype turn_status = PendingLlm | PendingToolDispatch | PendingClientTool | TurnComplete | TurnFailed

fun turn_status_as_key :: "turn_status \<Rightarrow> string" where
  "turn_status_as_key PendingLlm = ''pending_llm''"
| "turn_status_as_key PendingToolDispatch = ''pending_tool_dispatch''"
| "turn_status_as_key PendingClientTool = ''pending_client_tool''"
| "turn_status_as_key TurnComplete = ''complete''"
| "turn_status_as_key TurnFailed = ''failed''"

definition turn_status_from_key :: "string \<Rightarrow> turn_status option" where
  "turn_status_from_key s =
     (if s = ''pending_llm'' then Some PendingLlm
      else if s = ''pending_tool_dispatch'' then Some PendingToolDispatch
      else if s = ''pending_client_tool'' then Some PendingClientTool
      else if s = ''complete'' then Some TurnComplete
      else if s = ''failed'' then Some TurnFailed else None)"

fun is_terminal_turn :: "turn_status \<Rightarrow> bool" where
  "is_terminal_turn TurnComplete = True"
| "is_terminal_turn TurnFailed = True"
| "is_terminal_turn _ = False"

record 'j pending_call =
  pcl_tool_call_id :: string
  pcl_tool_name :: string
  pcl_arguments :: 'j

record 'j turn_state_json =
  tsj_version :: nat
  tsj_pending_client_tool :: "'j pending_call option"

record 'j turn_row =
  tro_id :: string
  tro_user_id :: string
  tro_conversation_id :: string
  tro_status :: turn_status
  tro_state :: "'j turn_state_json"
  tro_last_error :: "string option"

datatype core_error = ToolExecution string | Cancelled | Storage string

type_synonym 'j turn_store = "(string, 'j turn_row) hashmap"

definition create_turn :: "'j turn_row \<Rightarrow> 'j turn_store \<Rightarrow> 'j turn_store \<times> (core_error + unit)" where
  "create_turn row rows =
     (if hm_get rows (tro_id row) \<noteq> None then (rows, Inl (Storage (''duplicate turn id: '' @ tro_id row)))
      else (hm_insert (tro_id row) row rows, Inr ()))"

definition update_turn ::
  "string \<Rightarrow> turn_status \<Rightarrow> 'j turn_state_json \<Rightarrow> string option \<Rightarrow> 'j turn_store \<Rightarrow> 'j turn_store \<times> (core_error + unit)" where
  "update_turn i status state last_error rows =
     (case hm_get rows i of
        None \<Rightarrow> (rows, Inl (Storage (''turn missing: '' @ i)))
      | Some row \<Rightarrow>
          (if is_terminal_turn status then hm_remove i rows
           else hm_insert i (row\<lparr>tro_status := status, tro_state := state, tro_last_error := last_error\<rparr>) rows,
           Inr ()))"

definition scan_non_terminal :: "'j turn_store \<Rightarrow> 'j turn_row list" where
  "scan_non_terminal rows = filter (\<lambda>r. \<not> is_terminal_turn (tro_status r)) (map snd rows)"

fun sweep_rows :: "'j turn_row list \<Rightarrow> nat \<Rightarrow> 'j turn_store \<Rightarrow> 'j turn_store \<times> (core_error + nat)" where
  "sweep_rows [] count rows = (rows, Inr count)"
| "sweep_rows (r # rs) count rows =
     (case update_turn (tro_id r) TurnFailed (tro_state r) (Some ''daemon_restarted'') rows of
        (rows', Inl e) \<Rightarrow> (rows', Inl e)
      | (rows', Inr _) \<Rightarrow> sweep_rows rs (sat_add_u32 count 1) rows')"

definition sweep_non_terminal_turns_on_startup :: "'j turn_store \<Rightarrow> 'j turn_store \<times> (core_error + nat)" where
  "sweep_non_terminal_turns_on_startup rows = sweep_rows (scan_non_terminal rows) 0 rows"

section \<open>A call in progress\<close>

text \<open>
  The channel of a slot. \<open>ChTaken\<close>: an answer has taken the waker and not yet sent.
  \<open>ChDropped\<close>: the slot was overwritten and its waker dropped.
\<close>

datatype channel = ChOpen | ChTaken "string + string" | ChSent "string + string" | ChDropped

datatype phase =
    SpStart | SpRow | SpChecked | SpWritten | SpEmitted | SpWaiting
  | SpOutcome "string + string" | SpCancelled | SpDone "core_error + string"

record 'j suspension =
  su_user :: string
  su_session :: string
  su_task :: string
  su_conversation :: string
  su_call :: "'j pending_call"
  su_timeout_secs :: nat
  su_phase :: phase
  su_chan :: channel

definition pending_state :: "'j suspension \<Rightarrow> 'j turn_state_json" where
  "pending_state su = \<lparr>tsj_version = 1, tsj_pending_client_tool = Some (su_call su)\<rparr>"

definition cleared_state :: "'j turn_state_json" where
  "cleared_state = \<lparr>tsj_version = 1, tsj_pending_client_tool = None\<rparr>"

record 'j client_world =
  cw_coord :: "'j client_coordinator"
  cw_rows :: "'j turn_store"
  cw_events :: "'j event list"
  cw_susp :: "'j suspension list"

definition ensure_turn_row :: "'j suspension \<Rightarrow> 'j turn_store \<Rightarrow> 'j turn_store" where
  "ensure_turn_row su rows =
     fst (create_turn \<lparr>tro_id = su_task su, tro_user_id = su_user su, tro_conversation_id = su_conversation su,
                       tro_status = PendingLlm, tro_state = cleared_state, tro_last_error = None\<rparr> rows)"

definition client_tool_call_event :: "'j suspension \<Rightarrow> 'j event" where
  "client_tool_call_event su =
     ClientToolCall (su_task su) (su_conversation su) (pcl_tool_call_id (su_call su))
       (pcl_tool_name (su_call su)) (pcl_arguments (su_call su))"

definition not_registered_text :: "string \<Rightarrow> string" where
  "not_registered_text name =
     ''tool '' @ [CHR 0x27] @ name @ [CHR 0x27] @ '' is not registered as a client-local tool for this user''"

definition dropped_text :: string where
  "dropped_text = ''coordinator dropped the suspension waker''"

definition no_answer_text :: "'j suspension \<Rightarrow> string" where
  "no_answer_text su =
     ''client did not respond to tool call '' @ [CHR 0x27] @ pcl_tool_name (su_call su) @ [CHR 0x27] @
     '' within '' @ show_nat (su_timeout_secs su) @ ''s''"

definition set_susp :: "nat \<Rightarrow> ('j suspension \<Rightarrow> 'j suspension) \<Rightarrow> 'j client_world \<Rightarrow> 'j client_world" where
  "set_susp i f w = w\<lparr>cw_susp := (cw_susp w)[i := f (cw_susp w ! i)]\<rparr>"

definition set_pending :: "((string, pending_slot) hashmap \<Rightarrow> (string, pending_slot) hashmap) \<Rightarrow> 'j client_world \<Rightarrow> 'j client_world" where
  "set_pending f w = w\<lparr>cw_coord := (cw_coord w)\<lparr>cc_pending := f (cc_pending (cw_coord w))\<rparr>\<rparr>"

text \<open>Inserting a slot drops the waker of the slot it replaces.\<close>

definition install_slot :: "nat \<Rightarrow> 'j client_world \<Rightarrow> 'j client_world" where
  "install_slot i w =
     (let su = cw_susp w ! i;
          w1 = (case hm_get (cc_pending (cw_coord w)) (su_task su) of
                  Some old \<Rightarrow> set_susp (ps_waker old) (\<lambda>s. s\<lparr>su_chan := ChDropped\<rparr>) w
                | None \<Rightarrow> w)
      in set_pending (hm_insert (su_task su)
           \<lparr>ps_user_id = su_user su, ps_expected_tool_call_id = pcl_tool_call_id (su_call su), ps_waker = i\<rparr>) w1)"

text \<open>
  One phase of \<^verbatim>\<open>execute\<close> and \<^verbatim>\<open>suspend_for_client_tool\<close> up to the wait, and what follows the
  wait. A call that waits or has returned does not move by itself.
\<close>

definition suspend_step :: "nat \<Rightarrow> 'j client_world \<Rightarrow> 'j client_world" where
  "suspend_step i w =
     (let su = cw_susp w ! i; to = (\<lambda>p. set_susp i (\<lambda>s. s\<lparr>su_phase := p\<rparr>)) in
      case su_phase su of
        SpStart \<Rightarrow> to SpRow (w\<lparr>cw_rows := ensure_turn_row su (cw_rows w)\<rparr>)
      | SpRow \<Rightarrow>
          if is_client_registered (su_user su, su_session su) (pcl_tool_name (su_call su)) (cw_coord w)
          then to SpChecked w
          else to (SpDone (Inl (ToolExecution (not_registered_text (pcl_tool_name (su_call su)))))) w
      | SpChecked \<Rightarrow>
          (case update_turn (su_task su) PendingClientTool (pending_state su) None (cw_rows w) of
             (rows, Inl e) \<Rightarrow> to (SpDone (Inl e)) (w\<lparr>cw_rows := rows\<rparr>)
           | (rows, Inr _) \<Rightarrow> to SpWritten (w\<lparr>cw_rows := rows\<rparr>))
      | SpWritten \<Rightarrow> to SpEmitted (w\<lparr>cw_events := cw_events w @ [client_tool_call_event su]\<rparr>)
      | SpEmitted \<Rightarrow> to SpWaiting (install_slot i w)
      | SpWaiting \<Rightarrow> w
      | SpOutcome (Inr payload) \<Rightarrow>
          (case update_turn (su_task su) PendingLlm cleared_state None (cw_rows w) of
             (rows, Inl e) \<Rightarrow> to (SpDone (Inl e)) (w\<lparr>cw_rows := rows\<rparr>)
           | (rows, Inr _) \<Rightarrow> to (SpDone (Inr payload)) (w\<lparr>cw_rows := rows\<rparr>))
      | SpOutcome (Inl reason) \<Rightarrow>
          to (SpDone (Inl (ToolExecution reason)))
            (w\<lparr>cw_rows := fst (update_turn (su_task su) TurnFailed (pending_state su) (Some reason) (cw_rows w))\<rparr>)
      | SpCancelled \<Rightarrow>
          to (SpDone (Inl Cancelled))
            (w\<lparr>cw_rows := fst (update_turn (su_task su) TurnFailed (pending_state su) (Some ''cancelled'') (cw_rows w))\<rparr>)
      | SpDone _ \<Rightarrow> w)"

text \<open>The three branches of the \<^verbatim>\<open>select!\<close>: the channel is ready, the token is cancelled, the time is up.\<close>

definition wake :: "nat \<Rightarrow> 'j client_world \<Rightarrow> 'j client_world option" where
  "wake i w =
     (case su_chan (cw_susp w ! i) of
        ChSent payload \<Rightarrow> Some (set_susp i (\<lambda>s. s\<lparr>su_phase := SpOutcome payload\<rparr>) w)
      | ChDropped \<Rightarrow> Some (set_susp i (\<lambda>s. s\<lparr>su_phase := SpOutcome (Inl dropped_text)\<rparr>) w)
      | _ \<Rightarrow> None)"

definition cancel_wait :: "nat \<Rightarrow> 'j client_world \<Rightarrow> 'j client_world" where
  "cancel_wait i w = set_susp i (\<lambda>s. s\<lparr>su_phase := SpCancelled\<rparr>) (set_pending (hm_remove (su_task (cw_susp w ! i))) w)"

definition time_out :: "nat \<Rightarrow> 'j client_world \<Rightarrow> 'j client_world" where
  "time_out i w =
     set_susp i (\<lambda>s. s\<lparr>su_phase := SpOutcome (Inl (no_answer_text s))\<rparr>)
       (set_pending (hm_remove (su_task (cw_susp w ! i))) w)"

section \<open>The answer\<close>

definition MAX_CLIENT_TOOL_RESULT_BYTES :: nat where "MAX_CLIENT_TOOL_RESULT_BYTES = 1048576"

datatype resolution_error =
    TurnNotFound string
  | ToolCallIdMismatch string string string
  | MalformedResult string

fun payload_text :: "string + string \<Rightarrow> string" where
  "payload_text (Inl reason) = reason"
| "payload_text (Inr body) = body"

definition oversize_text :: "string + string \<Rightarrow> string" where
  "oversize_text payload =
     (case payload of Inr _ \<Rightarrow> ''result body'' | Inl _ \<Rightarrow> ''error reason'') @ '' exceeds size cap ('' @
     show_nat (length (payload_text payload)) @ '' > '' @ show_nat MAX_CLIENT_TOOL_RESULT_BYTES @ '' bytes)''"

text \<open>The locked section of \<^verbatim>\<open>resolve_client_tool_result\<close>: the waker it takes, or the refusal.\<close>

definition resolve_take ::
  "string \<Rightarrow> string \<Rightarrow> string \<Rightarrow> string + string \<Rightarrow> 'j client_world \<Rightarrow> 'j client_world \<times> (resolution_error + nat)" where
  "resolve_take user task call_id payload w =
     (if MAX_CLIENT_TOOL_RESULT_BYTES < length (payload_text payload)
      then (w, Inl (MalformedResult (oversize_text payload)))
      else case hm_get (cc_pending (cw_coord w)) task of
             None \<Rightarrow> (w, Inl (TurnNotFound task))
           | Some slot \<Rightarrow>
               if ps_user_id slot \<noteq> user then (w, Inl (TurnNotFound task))
               else if ps_expected_tool_call_id slot \<noteq> call_id
               then (w, Inl (ToolCallIdMismatch task (ps_expected_tool_call_id slot) call_id))
               else (set_susp (ps_waker slot) (\<lambda>s. s\<lparr>su_chan := ChTaken payload\<rparr>) (set_pending (hm_remove task) w),
                     Inr (ps_waker slot)))"

text \<open>\<^verbatim>\<open>slot.waker.send(payload)\<close>, ignored when the receiver is gone.\<close>

definition resolve_send :: "nat \<Rightarrow> 'j client_world \<Rightarrow> 'j client_world" where
  "resolve_send i w =
     set_susp i (\<lambda>s. case su_chan s of ChTaken payload \<Rightarrow> s\<lparr>su_chan := ChSent payload\<rparr> | _ \<Rightarrow> s) w"

fun resolution_error_text :: "resolution_error \<Rightarrow> string" where
  "resolution_error_text (TurnNotFound t) = ''no pending turn for task_id='' @ t @ '' under this user''"
| "resolution_error_text (ToolCallIdMismatch t expected got) =
     ''tool_call_id mismatch for task_id='' @ t @ '': expected='' @ expected @ '', got='' @ got"
| "resolution_error_text (MalformedResult m) = ''malformed client tool result: '' @ m"

fun map_client_tool_resolution_err :: "resolution_error \<Rightarrow> api_error" where
  "map_client_tool_resolution_err (TurnNotFound _) = ApiNotFound"
| "map_client_tool_resolution_err e = ApiCore (resolution_error_text e)"

text \<open>
  The arm of \<^verbatim>\<open>ClientToolResult\<close> up to the send; \<open>wired\<close> says whether a coordinator is there. A
  result wins over an error, and an answer with neither is refused before the slot is looked up.
\<close>

fun answer_payload :: "string option \<Rightarrow> string option \<Rightarrow> (string + string) option" where
  "answer_payload (Some r) _ = Some (Inr r)"
| "answer_payload None (Some e) = Some (Inl e)"
| "answer_payload None None = None"

definition handle_client_tool_result ::
  "bool \<Rightarrow> string \<Rightarrow> string \<Rightarrow> string \<Rightarrow> string option \<Rightarrow> string option \<Rightarrow> 'j client_world \<Rightarrow>
   'j client_world \<times> (api_error + nat)" where
  "handle_client_tool_result wired user task call_id result error w =
     (if \<not> wired then (w, Inl ApiUnsupported)
      else case answer_payload result error of
             None \<Rightarrow>
               (w, Inl (ApiCore ''client tool result must populate exactly one of `result` or `error`''))
           | Some payload \<Rightarrow>
               (case resolve_take user task call_id payload w of
                  (w', Inl e) \<Rightarrow> (w', Inl (map_client_tool_resolution_err e))
                | (w', Inr i) \<Rightarrow> (w', Inr i)))"

section \<open>All calls at once\<close>

text \<open>
  The log beside the world is not part of the program: it remembers which answers were accepted,
  with the user, the task, the call id, the payload and the call they were taken for.
\<close>

type_synonym answer = "string \<times> string \<times> string \<times> (string + string) \<times> nat"

fun is_done :: "phase \<Rightarrow> bool" where
  "is_done (SpDone _) = True"
| "is_done _ = False"

definition client_world_new :: "'j client_world" where
  "client_world_new = \<lparr>cw_coord = client_coordinator_new, cw_rows = [], cw_events = [], cw_susp = []\<rparr>"

definition client_init :: "'j client_world \<times> answer list \<Rightarrow> bool" where
  "client_init s \<longleftrightarrow> s = (client_world_new, [])"

inductive client_step :: "'j client_world \<times> answer list \<Rightarrow> 'j client_world \<times> answer list \<Rightarrow> bool" where
  cs_register: "client_step (w, L) (w\<lparr>cw_coord := fst (register_tools key tools (cw_coord w))\<rparr>, L)"
| cs_clear: "client_step (w, L) (w\<lparr>cw_coord := clear_session session (cw_coord w)\<rparr>, L)"
| cs_execute: "\<forall>su\<in>set (cw_susp w). su_task su = su_task new \<longrightarrow> is_done (su_phase su) \<Longrightarrow>
    su_phase new = SpStart \<Longrightarrow> su_chan new = ChOpen \<Longrightarrow>
    client_step (w, L) (w\<lparr>cw_susp := cw_susp w @ [new]\<rparr>, L)"
| cs_advance: "i < length (cw_susp w) \<Longrightarrow> client_step (w, L) (suspend_step i w, L)"
| cs_wake: "i < length (cw_susp w) \<Longrightarrow> su_phase (cw_susp w ! i) = SpWaiting \<Longrightarrow> wake i w = Some w' \<Longrightarrow>
    client_step (w, L) (w', L)"
| cs_cancel: "i < length (cw_susp w) \<Longrightarrow> su_phase (cw_susp w ! i) = SpWaiting \<Longrightarrow>
    client_step (w, L) (cancel_wait i w, L)"
| cs_time_out: "i < length (cw_susp w) \<Longrightarrow> su_phase (cw_susp w ! i) = SpWaiting \<Longrightarrow>
    client_step (w, L) (time_out i w, L)"
| cs_resolve: "handle_client_tool_result wired user task call_id result error w = (w', Inr i) \<Longrightarrow>
    answer_payload result error = Some payload \<Longrightarrow>
    client_step (w, L) (w', L @ [(user, task, call_id, payload, i)])"
| cs_refused: "handle_client_tool_result wired user task call_id result error w = (w', Inl e) \<Longrightarrow>
    client_step (w, L) (w', L)"
| cs_send: "i < length (cw_susp w) \<Longrightarrow> client_step (w, L) (resolve_send i w, L)"

inductive_cases client_stepE: "client_step s t"

abbreviation pend :: "'j client_world \<Rightarrow> (string, pending_slot) hashmap" where
  "pend w \<equiv> cc_pending (cw_coord w)"

definition before_wait :: "phase \<Rightarrow> bool" where
  "before_wait p \<longleftrightarrow> p \<in> {SpStart, SpRow, SpChecked, SpWritten, SpEmitted}"

definition row_written :: "phase \<Rightarrow> bool" where
  "row_written p \<longleftrightarrow> \<not> is_done p \<and> p \<notin> {SpStart, SpRow, SpChecked}"

text \<open>
  How a call can fail: by the client's own reason, by the clock, by cancellation, or before the
  wait because the connection offers no such tool, and then nothing was ever answered.
\<close>

fun failed_as :: "core_error \<Rightarrow> 'j suspension \<Rightarrow> bool" where
  "failed_as (ToolExecution reason) su \<longleftrightarrow>
     su_chan su = ChSent (Inl reason) \<or> reason = no_answer_text su \<or>
     su_chan su = ChOpen \<and> reason = not_registered_text (pcl_tool_name (su_call su))"
| "failed_as Cancelled su \<longleftrightarrow> True"
| "failed_as (Storage _) su \<longleftrightarrow> False"

text \<open>What holds of one call, given its slot, its row and the accepted answers.\<close>

definition su_ok ::
  "answer list \<Rightarrow> (string, pending_slot) hashmap \<Rightarrow> 'j turn_store \<Rightarrow> nat \<Rightarrow> 'j suspension \<Rightarrow> bool" where
  "su_ok L slots rows i su \<longleftrightarrow>
     (before_wait (su_phase su) \<longrightarrow> su_chan su = ChOpen) \<and> su_chan su \<noteq> ChDropped \<and>
     (\<forall>p. su_chan su \<in> {ChTaken p, ChSent p} \<longrightarrow>
        (su_user su, su_task su, pcl_tool_call_id (su_call su), p, i) \<in> set L \<and>
        length (payload_text p) \<le> MAX_CLIENT_TOOL_RESULT_BYTES) \<and>
     (\<forall>p. su_phase su \<in> {SpOutcome (Inr p), SpDone (Inr p)} \<longrightarrow> su_chan su = ChSent (Inr p)) \<and>
     (\<forall>r. su_phase su = SpOutcome (Inl r) \<longrightarrow> su_chan su = ChSent (Inl r) \<or> r = no_answer_text su) \<and>
     (\<forall>e. su_phase su = SpDone (Inl e) \<longrightarrow> failed_as e su) \<and>
     (su_phase su = SpWaiting \<and> su_chan su = ChOpen \<longleftrightarrow>
        (\<exists>s. hm_get slots (su_task su) = Some s \<and> ps_waker s = i)) \<and>
     (su_phase su \<in> {SpRow, SpChecked} \<longrightarrow> hm_get rows (su_task su) \<noteq> None) \<and>
     (row_written (su_phase su) \<longrightarrow>
        (\<exists>row. hm_get rows (su_task su) = Some row \<and> tro_status row = PendingClientTool \<and>
           tro_state row = pending_state su))"

definition slots_ok :: "(string, pending_slot) hashmap \<Rightarrow> 'j suspension list \<Rightarrow> bool" where
  "slots_ok slots sus \<longleftrightarrow>
     (\<forall>t s. hm_get slots t = Some s \<longrightarrow> ps_waker s < length sus \<and>
        (let su = sus ! ps_waker s in su_task su = t \<and> su_user su = ps_user_id s \<and>
           pcl_tool_call_id (su_call su) = ps_expected_tool_call_id s))"

definition one_active :: "'j suspension list \<Rightarrow> bool" where
  "one_active sus \<longleftrightarrow>
     (\<forall>i<length sus. \<forall>j<length sus. i \<noteq> j \<and> su_task (sus ! i) = su_task (sus ! j) \<longrightarrow>
        is_done (su_phase (sus ! i)) \<or> is_done (su_phase (sus ! j)))"

definition log_ok :: "answer list \<Rightarrow> 'j suspension list \<Rightarrow> bool" where
  "log_ok L sus \<longleftrightarrow>
     distinct (map (\<lambda>(_, _, _, _, i). i) L) \<and>
     (\<forall>(u, t, c, p, i)\<in>set L. i < length sus \<and> su_chan (sus ! i) \<in> {ChTaken p, ChSent p})"

definition cinv :: "'j client_world \<times> answer list \<Rightarrow> bool" where
  "cinv = (\<lambda>(w, L).
     (\<forall>i<length (cw_susp w). su_ok L (pend w) (cw_rows w) i (cw_susp w ! i)) \<and>
     slots_ok (pend w) (cw_susp w) \<and> one_active (cw_susp w) \<and> log_ok L (cw_susp w))"

lemma set_susp_simps [simp]:
  "cw_susp (set_susp i f w) = (cw_susp w)[i := f (cw_susp w ! i)]" "cw_rows (set_susp i f w) = cw_rows w"
  "cw_coord (set_susp i f w) = cw_coord w" "cw_events (set_susp i f w) = cw_events w"
  by (simp_all add: set_susp_def)

lemma set_pending_simps [simp]:
  "pend (set_pending f w) = f (pend w)" "cw_susp (set_pending f w) = cw_susp w"
  "cw_rows (set_pending f w) = cw_rows w" "cw_events (set_pending f w) = cw_events w"
  by (simp_all add: set_pending_def)

text \<open>A call is indifferent to what happens to other tasks, and once it has returned, to its own.\<close>

lemma su_ok_frame:
  assumes "su_ok L slots rows j su" "set L \<subseteq> set L'"
    and "hm_get slots' (su_task su) = hm_get slots (su_task su) \<or>
         is_done (su_phase su) \<and> (\<forall>s. hm_get slots' (su_task su) = Some s \<longrightarrow> ps_waker s \<noteq> j)"
    and "hm_get rows' (su_task su) = hm_get rows (su_task su) \<or> is_done (su_phase su)"
  shows "su_ok L' slots' rows' j su"
proof -
  have "\<not> before_wait (su_phase su) \<and> \<not> row_written (su_phase su) \<and> su_phase su \<notin> {SpRow, SpChecked} \<and>
      su_phase su \<noteq> SpWaiting" if "is_done (su_phase su)"
    using that by (cases "su_phase su") (auto simp: before_wait_def row_written_def)
  then show ?thesis using assms unfolding su_ok_def by (elim disjE) (simp_all, blast+)
qed

lemma slot_facts:
  assumes "cinv (w, L)" "hm_get (pend w) t = Some s"
  shows "ps_waker s < length (cw_susp w)" "su_task (cw_susp w ! ps_waker s) = t"
    "su_user (cw_susp w ! ps_waker s) = ps_user_id s"
    "pcl_tool_call_id (su_call (cw_susp w ! ps_waker s)) = ps_expected_tool_call_id s"
  using assms by (auto simp: cinv_def slots_ok_def Let_def)

lemma slot_unique:
  assumes "cinv (w, L)" "i < length (cw_susp w)" "\<not> is_done (su_phase (cw_susp w ! i))"
    and "hm_get (pend w) (su_task (cw_susp w ! i)) = Some s"
  shows "ps_waker s = i"
proof (rule ccontr)
  assume "ps_waker s \<noteq> i"
  have k: "ps_waker s < length (cw_susp w)" "su_task (cw_susp w ! ps_waker s) = su_task (cw_susp w ! i)"
    using slot_facts[OF assms(1,4)] by auto
  then have "su_ok L (pend w) (cw_rows w) (ps_waker s) (cw_susp w ! ps_waker s)" using assms(1) by (simp add: cinv_def)
  then have "su_phase (cw_susp w ! ps_waker s) = SpWaiting" using assms(4) k(2) by (auto simp: su_ok_def)
  then show False using assms(1-3) k \<open>ps_waker s \<noteq> i\<close> unfolding cinv_def one_active_def by fastforce
qed

text \<open>A step that touches one call in progress, the slot and the row of its task, and the log.\<close>

lemma cinv_local:
  assumes inv: "cinv (w, L)" and i: "i < length (cw_susp w)" "\<not> is_done (su_phase (cw_susp w ! i))"
    and su: "cw_susp w' = (cw_susp w)[i := su']" "su_task su' = su_task (cw_susp w ! i)"
      "su_user su' = su_user (cw_susp w ! i)" "su_call su' = su_call (cw_susp w ! i)"
    and slots: "\<And>t. t \<noteq> su_task su' \<Longrightarrow> hm_get (pend w') t = hm_get (pend w) t"
      "\<And>s. hm_get (pend w') (su_task su') = Some s \<Longrightarrow>
         s = \<lparr>ps_user_id = su_user su', ps_expected_tool_call_id = pcl_tool_call_id (su_call su'), ps_waker = i\<rparr>"
    and rows: "\<And>t. t \<noteq> su_task su' \<Longrightarrow> hm_get (cw_rows w') t = hm_get (cw_rows w) t"
    and log: "set L \<subseteq> set L'" "log_ok L' (cw_susp w')"
    and ok: "su_ok L' (pend w') (cw_rows w') i su'"
  shows "cinv (w', L')"
proof -
  have "su_ok L' (pend w') (cw_rows w') j (cw_susp w ! j)" if j: "j < length (cw_susp w)" "j \<noteq> i" for j
  proof (rule su_ok_frame[OF _ log(1)])
    show "su_ok L (pend w) (cw_rows w) j (cw_susp w ! j)" using inv j by (simp add: cinv_def)
    have "is_done (su_phase (cw_susp w ! j))" if "su_task (cw_susp w ! j) = su_task su'"
      using inv i j that su(2) unfolding cinv_def one_active_def by fastforce
    then show "hm_get (pend w') (su_task (cw_susp w ! j)) = hm_get (pend w) (su_task (cw_susp w ! j)) \<or>
        is_done (su_phase (cw_susp w ! j)) \<and>
        (\<forall>s. hm_get (pend w') (su_task (cw_susp w ! j)) = Some s \<longrightarrow> ps_waker s \<noteq> j)"
      and "hm_get (cw_rows w') (su_task (cw_susp w ! j)) = hm_get (cw_rows w) (su_task (cw_susp w ! j)) \<or>
        is_done (su_phase (cw_susp w ! j))"
      using slots rows j(2) by (cases "su_task (cw_susp w ! j) = su_task su'"; fastforce)+
  qed
  then have "\<forall>j<length (cw_susp w'). su_ok L' (pend w') (cw_rows w') j (cw_susp w' ! j)"
    using ok i by (auto simp: su(1) nth_list_update)
  moreover have "slots_ok (pend w') (cw_susp w')"
    unfolding slots_ok_def
  proof (intro allI impI)
    fix t s assume s: "hm_get (pend w') t = Some s"
    show "ps_waker s < length (cw_susp w') \<and> (let su = cw_susp w' ! ps_waker s in su_task su = t \<and>
        su_user su = ps_user_id s \<and> pcl_tool_call_id (su_call su) = ps_expected_tool_call_id s)"
    proof (cases "t = su_task su'")
      case True
      then show ?thesis using slots(2) s i by (simp add: su(1) Let_def)
    next
      case False
      then have "ps_waker s < length (cw_susp w) \<and> (let su = cw_susp w ! ps_waker s in su_task su = t \<and>
        su_user su = ps_user_id s \<and> pcl_tool_call_id (su_call su) = ps_expected_tool_call_id s)"
        using inv s slots(1) by (auto simp: cinv_def slots_ok_def)
      then show ?thesis using su i by (cases "ps_waker s = i") (auto simp: Let_def)
    qed
  qed
  moreover have "one_active (cw_susp w')"
    using inv i su unfolding cinv_def one_active_def by (auto simp: nth_list_update)
  ultimately show ?thesis using log(2) by (simp add: cinv_def)
qed

lemma su_at: "cinv (w, L) \<Longrightarrow> i < length (cw_susp w) \<Longrightarrow> su_ok L (pend w) (cw_rows w) i (cw_susp w ! i)"
  by (simp add: cinv_def)

lemma slot_shape:
  assumes "cinv (w, L)" "i < length (cw_susp w)" "\<not> is_done (su_phase (cw_susp w ! i))"
    and "hm_get (pend w) (su_task (cw_susp w ! i)) = Some s"
  shows "s = \<lparr>ps_user_id = su_user (cw_susp w ! i),
              ps_expected_tool_call_id = pcl_tool_call_id (su_call (cw_susp w ! i)), ps_waker = i\<rparr>"
  using slot_unique[OF assms] slot_facts[OF assms(1,4)] by simp

lemma log_ok_update:
  assumes "log_ok L sus" "\<And>p. su_chan (sus ! i) \<in> {ChTaken p, ChSent p} \<Longrightarrow> su_chan su' \<in> {ChTaken p, ChSent p}"
  shows "log_ok L (sus[i := su'])"
  unfolding log_ok_def
proof (intro conjI ballI, goal_cases)
  case 1
  then show ?case using assms(1) by (simp add: log_ok_def)
next
  case (2 a)
  obtain u t c p k where a: "a = (u, t, c, p, k)" by (cases a)
  then have "k < length sus" "su_chan (sus ! k) \<in> {ChTaken p, ChSent p}"
    using 2 assms(1) by (auto simp: log_ok_def)
  then show ?case using assms(2)[of p] by (cases "k = i") (simp_all add: a)
qed

text \<open>A step that moves one call and possibly the row of its task.\<close>

lemma cinv_phase:
  assumes inv: "cinv (w, L)" and i: "i < length (cw_susp w)" "\<not> is_done (su_phase (cw_susp w ! i))"
    and su: "cw_susp w' = (cw_susp w)[i := su']" "su' = (cw_susp w ! i)\<lparr>su_phase := p\<rparr>"
    and slots: "pend w' = pend w \<or> pend w' = hm_remove (su_task su') (pend w)"
    and rows: "\<And>t. t \<noteq> su_task su' \<Longrightarrow> hm_get (cw_rows w') t = hm_get (cw_rows w) t"
    and ok: "su_ok L (pend w') (cw_rows w') i su'"
  shows "cinv (w', L)"
proof (rule cinv_local[OF inv i su(1) _ _ _ _ _ rows _ _ ok])
  show "log_ok L (cw_susp w')"
    unfolding su(1) by (rule log_ok_update) (use inv in \<open>simp_all add: cinv_def su(2)\<close>)
  show "hm_get (pend w') t = hm_get (pend w) t" if "t \<noteq> su_task su'" for t
    using slots that by (auto simp: hm_simps)
  show "s = \<lparr>ps_user_id = su_user su', ps_expected_tool_call_id = pcl_tool_call_id (su_call su'), ps_waker = i\<rparr>"
    if "hm_get (pend w') (su_task su') = Some s" for s
    using slots that slot_shape[OF inv i, of s] by (auto simp: su(2) hm_simps)
qed (simp_all add: su(2))

lemma pending_state_phase [simp]: "pending_state (su\<lparr>su_phase := p\<rparr>) = pending_state su"
  "pending_state (su\<lparr>su_chan := c\<rparr>) = pending_state su"
  by (simp_all add: pending_state_def)

lemma call_text_phase [simp]: "no_answer_text (su\<lparr>su_phase := p\<rparr>) = no_answer_text su"
  "no_answer_text (su\<lparr>su_chan := c\<rparr>) = no_answer_text su"
  by (simp_all add: no_answer_text_def)

lemma failed_as_phase [simp]: "failed_as e (su\<lparr>su_phase := p\<rparr>) = failed_as e su"
  by (cases e) simp_all

lemma failed_as_sent: "su_chan su = ChTaken p \<Longrightarrow> failed_as e su \<Longrightarrow> failed_as e (su\<lparr>su_chan := c\<rparr>)"
  by (cases e) simp_all

lemma update_turn_get:
  "hm_get (fst (update_turn i st js e rows)) t =
     (if t = i \<and> hm_get rows i \<noteq> None
      then if is_terminal_turn st then None
           else map_option (\<lambda>r. r\<lparr>tro_status := st, tro_state := js, tro_last_error := e\<rparr>) (hm_get rows i)
      else hm_get rows t)"
  "snd (update_turn i st js e rows) =
     (if hm_get rows i = None then Inl (Storage (''turn missing: '' @ i)) else Inr ())"
  by (auto simp: update_turn_def hm_simps split: option.splits)

lemma ensure_turn_row_get:
  "t \<noteq> su_task su \<Longrightarrow> hm_get (ensure_turn_row su rows) t = hm_get rows t"
  "hm_get (ensure_turn_row su rows) (su_task su) \<noteq> None"
  by (auto simp: ensure_turn_row_def create_turn_def hm_simps)

lemmas su_ok_simps = su_ok_def before_wait_def row_written_def

lemma suspend_step_simps:
  assumes "su = cw_susp w ! i"
  shows "su_phase su = SpStart \<Longrightarrow> suspend_step i w =
      set_susp i (\<lambda>s. s\<lparr>su_phase := SpRow\<rparr>) (w\<lparr>cw_rows := ensure_turn_row su (cw_rows w)\<rparr>)"
    and "su_phase su = SpChecked \<Longrightarrow> hm_get (cw_rows w) (su_task su) \<noteq> None \<Longrightarrow> suspend_step i w =
      set_susp i (\<lambda>s. s\<lparr>su_phase := SpWritten\<rparr>)
        (w\<lparr>cw_rows := fst (update_turn (su_task su) PendingClientTool (pending_state su) None (cw_rows w))\<rparr>)"
    and "su_phase su = SpOutcome (Inr p) \<Longrightarrow> hm_get (cw_rows w) (su_task su) \<noteq> None \<Longrightarrow> suspend_step i w =
      set_susp i (\<lambda>s. s\<lparr>su_phase := SpDone (Inr p)\<rparr>)
        (w\<lparr>cw_rows := fst (update_turn (su_task su) PendingLlm cleared_state None (cw_rows w))\<rparr>)"
  using assms by (auto simp: suspend_step_def Let_def update_turn_def split: option.splits)

lemma install_slot_free:
  "hm_get (pend w) (su_task (cw_susp w ! i)) = None \<Longrightarrow> install_slot i w =
     set_pending (hm_insert (su_task (cw_susp w ! i))
       \<lparr>ps_user_id = su_user (cw_susp w ! i), ps_expected_tool_call_id = pcl_tool_call_id (su_call (cw_susp w ! i)),
        ps_waker = i\<rparr>) w"
  by (simp add: install_slot_def Let_def)

text \<open>The slot of a call exists exactly while the call waits unanswered.\<close>

lemma no_slot:
  assumes "cinv (w, L)" "i < length (cw_susp w)" "\<not> is_done (su_phase (cw_susp w ! i))"
    and "\<not> (su_phase (cw_susp w ! i) = SpWaiting \<and> su_chan (cw_susp w ! i) = ChOpen)"
  shows "hm_get (pend w) (su_task (cw_susp w ! i)) = None"
proof (rule ccontr)
  assume "hm_get (pend w) (su_task (cw_susp w ! i)) \<noteq> None"
  then obtain s where "hm_get (pend w) (su_task (cw_susp w ! i)) = Some s" by blast
  with slot_unique[OF assms(1-3) this] su_at[OF assms(1,2)] assms(4) show False by (auto simp: su_ok_def)
qed

lemma cinv_start:
  assumes "cinv (w, L)" "i < length (cw_susp w)" "su_phase (cw_susp w ! i) = SpStart"
  shows "cinv (suspend_step i w, L)"
  unfolding suspend_step_simps(1)[OF refl assms(3)]
proof (rule cinv_phase[OF assms(1,2)])
  show "su_ok L (pend (set_susp i (\<lambda>s. s\<lparr>su_phase := SpRow\<rparr>) (w\<lparr>cw_rows := ensure_turn_row (cw_susp w ! i) (cw_rows w)\<rparr>)))
      (cw_rows (set_susp i (\<lambda>s. s\<lparr>su_phase := SpRow\<rparr>) (w\<lparr>cw_rows := ensure_turn_row (cw_susp w ! i) (cw_rows w)\<rparr>)))
      i ((cw_susp w ! i)\<lparr>su_phase := SpRow\<rparr>)"
    using su_at[OF assms(1,2)] assms(3) ensure_turn_row_get(2) by (simp add: su_ok_simps)
qed (use assms(3) ensure_turn_row_get(1) in simp_all)

lemma cinv_move:
  assumes "cinv (w, L)" "i < length (cw_susp w)" "\<not> is_done (su_phase (cw_susp w ! i))"
    and "\<And>t. t \<noteq> su_task (cw_susp w ! i) \<Longrightarrow> hm_get rows t = hm_get (cw_rows w) t"
    and "su_ok L (pend w) rows i ((cw_susp w ! i)\<lparr>su_phase := p\<rparr>)"
  shows "cinv (set_susp i (\<lambda>s. s\<lparr>su_phase := p\<rparr>) (w\<lparr>cw_rows := rows, cw_events := evs\<rparr>), L)"
  by (rule cinv_phase[OF assms(1-3)]) (use assms(4,5) in simp_all)

lemma cinv_advance:
  assumes inv: "cinv (w, L)" and i: "i < length (cw_susp w)"
  shows "cinv (suspend_step i w, L)"
proof -
  define su where "su = cw_susp w ! i"
  note at = su_at[OF inv i, folded su_def]
  note move = cinv_move[OF inv i, folded su_def]
  have keep: "w = w\<lparr>cw_rows := cw_rows w, cw_events := cw_events w\<rparr>" by simp
  have rows: "w\<lparr>cw_rows := r\<rparr> = w\<lparr>cw_rows := r, cw_events := cw_events w\<rparr>" for r by simp
  have evs: "w\<lparr>cw_events := e\<rparr> = w\<lparr>cw_rows := cw_rows w, cw_events := e\<rparr>" for e by simp
  show ?thesis
  proof (cases "su_phase su")
    case SpStart
    then show ?thesis using cinv_start[OF inv i] by (simp add: su_def)
  next
    case SpRow
    then have step: "suspend_step i w = set_susp i (\<lambda>s. s\<lparr>su_phase := SpChecked\<rparr>) w \<or>
        suspend_step i w = set_susp i (\<lambda>s. s\<lparr>su_phase :=
          SpDone (Inl (ToolExecution (not_registered_text (pcl_tool_name (su_call su)))))\<rparr>) w"
      by (simp add: suspend_step_def su_def Let_def)
    have "cinv (set_susp i (\<lambda>s. s\<lparr>su_phase := p\<rparr>) w, L)"
      if "p = SpChecked \<or> p = SpDone (Inl (ToolExecution (not_registered_text (pcl_tool_name (su_call su)))))" for p
      by (subst keep, rule move) (use that SpRow at in \<open>auto simp: su_ok_simps\<close>)
    then show ?thesis using step by auto
  next
    case SpChecked
    then have row: "hm_get (cw_rows w) (su_task su) \<noteq> None" using at by (simp add: su_ok_def)
    show ?thesis unfolding suspend_step_simps(2)[OF su_def SpChecked row]
      by (subst rows, rule move) (use SpChecked row at in \<open>auto simp: su_ok_simps update_turn_get\<close>)
  next
    case SpWritten
    then have step: "suspend_step i w = set_susp i (\<lambda>s. s\<lparr>su_phase := SpEmitted\<rparr>)
        (w\<lparr>cw_events := cw_events w @ [client_tool_call_event su]\<rparr>)"
      by (simp add: suspend_step_def su_def Let_def)
    show ?thesis unfolding step
      by (subst evs, rule move) (use SpWritten at in \<open>auto simp: su_ok_simps\<close>)
  next
    case SpEmitted
    have free: "hm_get (pend w) (su_task su) = None" using no_slot[OF inv i] SpEmitted by (simp add: su_def)
    then have step: "suspend_step i w = set_susp i (\<lambda>s. s\<lparr>su_phase := SpWaiting\<rparr>) (install_slot i w)"
      using SpEmitted by (simp add: suspend_step_def su_def Let_def)
    show ?thesis unfolding step install_slot_free[OF free[unfolded su_def]]
      by (rule cinv_local[OF inv i, where su' = "su\<lparr>su_phase := SpWaiting\<rparr>"])
        (use SpEmitted at inv in \<open>auto simp: su_ok_simps su_def hm_simps cinv_def intro: log_ok_update\<close>)
  next
    case SpWaiting
    then show ?thesis using inv by (simp add: suspend_step_def su_def Let_def)
  next
    case (SpOutcome q)
    then have row: "hm_get (cw_rows w) (su_task su) \<noteq> None" using at by (auto simp: su_ok_simps)
    show ?thesis
    proof (cases q)
      case (Inl reason)
      then have step: "suspend_step i w = set_susp i (\<lambda>s. s\<lparr>su_phase := SpDone (Inl (ToolExecution reason))\<rparr>)
          (w\<lparr>cw_rows := fst (update_turn (su_task su) TurnFailed (pending_state su) (Some reason) (cw_rows w))\<rparr>)"
        using SpOutcome by (simp add: suspend_step_def su_def Let_def)
      show ?thesis unfolding step
        by (subst rows, rule move) (use SpOutcome Inl at in \<open>auto simp: su_ok_simps update_turn_get\<close>)
    next
      case (Inr p)
      show ?thesis unfolding suspend_step_simps(3)[OF su_def SpOutcome[unfolded Inr] row]
        by (subst rows, rule move) (use SpOutcome Inr at in \<open>auto simp: su_ok_simps update_turn_get\<close>)
    qed
  next
    case SpCancelled
    then have step: "suspend_step i w = set_susp i (\<lambda>s. s\<lparr>su_phase := SpDone (Inl Cancelled)\<rparr>)
        (w\<lparr>cw_rows := fst (update_turn (su_task su) TurnFailed (pending_state su) (Some ''cancelled'') (cw_rows w))\<rparr>)"
      by (simp add: suspend_step_def su_def Let_def)
    show ?thesis unfolding step
      by (subst rows, rule move) (use SpCancelled at in \<open>auto simp: su_ok_simps update_turn_get\<close>)
  next
    case (SpDone r)
    then show ?thesis using inv by (simp add: suspend_step_def su_def Let_def)
  qed
qed

lemma cinv_wake:
  assumes inv: "cinv (w, L)" and i: "i < length (cw_susp w)" "su_phase (cw_susp w ! i) = SpWaiting"
    and "wake i w = Some w'"
  shows "cinv (w', L)"
proof -
  note at = su_at[OF inv i(1)]
  obtain p where p: "su_chan (cw_susp w ! i) = ChSent p" "w' = set_susp i (\<lambda>s. s\<lparr>su_phase := SpOutcome p\<rparr>) w"
    using assms(4) at by (auto simp: wake_def su_ok_def split: channel.splits)
  have "cinv (set_susp i (\<lambda>s. s\<lparr>su_phase := SpOutcome p\<rparr>) (w\<lparr>cw_rows := cw_rows w, cw_events := cw_events w\<rparr>), L)"
    by (rule cinv_move[OF inv i(1)]) (use i(2) at p(1) in \<open>auto simp: su_ok_simps\<close>)
  then show ?thesis by (simp add: p(2))
qed

text \<open>Leaving the wait by cancellation or by the clock removes the slot, if it is still there.\<close>

lemma cinv_leave:
  assumes inv: "cinv (w, L)" and i: "i < length (cw_susp w)" "su_phase (cw_susp w ! i) = SpWaiting"
    and p: "p = SpCancelled \<or> p = SpOutcome (Inl (no_answer_text (cw_susp w ! i)))"
  shows "cinv (set_susp i (\<lambda>s. s\<lparr>su_phase := p\<rparr>) (set_pending (hm_remove (su_task (cw_susp w ! i))) w), L)"
  by (rule cinv_phase[OF inv i(1)]) (use i(2) p su_at[OF inv i(1)] in \<open>auto simp: su_ok_simps hm_simps\<close>)

lemma cinv_cancel:
  assumes "cinv (w, L)" "i < length (cw_susp w)" "su_phase (cw_susp w ! i) = SpWaiting"
  shows "cinv (cancel_wait i w, L)"
  unfolding cancel_wait_def by (rule cinv_leave[OF assms]) simp

lemma cinv_time_out:
  assumes "cinv (w, L)" "i < length (cw_susp w)" "su_phase (cw_susp w ! i) = SpWaiting"
  shows "cinv (time_out i w, L)"
proof -
  have "time_out i w = set_susp i (\<lambda>s. s\<lparr>su_phase := SpOutcome (Inl (no_answer_text (cw_susp w ! i)))\<rparr>)
      (set_pending (hm_remove (su_task (cw_susp w ! i))) w)"
    by (simp add: time_out_def set_susp_def)
  then show ?thesis using cinv_leave[OF assms] by simp
qed

lemma resolve_takeE:
  assumes "resolve_take user task call_id payload w = (w', Inr i)"
  obtains slot where "hm_get (pend w) task = Some slot" "ps_user_id slot = user"
    "ps_expected_tool_call_id slot = call_id" "ps_waker slot = i"
    "length (payload_text payload) \<le> MAX_CLIENT_TOOL_RESULT_BYTES"
    "w' = set_susp i (\<lambda>s. s\<lparr>su_chan := ChTaken payload\<rparr>) (set_pending (hm_remove task) w)"
  using assms by (auto simp: resolve_take_def not_less split: if_splits option.splits)

lemma handle_result_takes:
  assumes "handle_client_tool_result wired user task call_id result error w = (w', Inr i)"
    and "answer_payload result error = Some payload"
  shows "resolve_take user task call_id payload w = (w', Inr i)"
  using assms by (auto simp: handle_client_tool_result_def split: if_splits prod.splits sum.splits)

lemma resolve_take_refused: "resolve_take user task call_id payload w = (w', Inl e) \<Longrightarrow> w' = w"
  by (auto simp: resolve_take_def split: if_splits option.splits)

lemma handle_result_refused:
  "handle_client_tool_result wired user task call_id result error w = (w', Inl e) \<Longrightarrow> w' = w"
  by (auto simp: handle_client_tool_result_def dest: resolve_take_refused
      split: if_splits option.splits prod.splits sum.splits)

lemma cinv_resolve:
  assumes inv: "cinv (w, L)" and take: "resolve_take user task call_id payload w = (w', Inr i)"
  shows "cinv (w', L @ [(user, task, call_id, payload, i)])"
proof -
  from take obtain slot where s: "hm_get (pend w) task = Some slot" "ps_user_id slot = user"
    "ps_expected_tool_call_id slot = call_id" "ps_waker slot = i"
    "length (payload_text payload) \<le> MAX_CLIENT_TOOL_RESULT_BYTES"
    and w': "w' = set_susp i (\<lambda>s. s\<lparr>su_chan := ChTaken payload\<rparr>) (set_pending (hm_remove task) w)"
    by (rule resolve_takeE)
  note f = slot_facts[OF inv s(1), unfolded s(4)]
  note at = su_at[OF inv f(1)]
  have wait: "su_phase (cw_susp w ! i) = SpWaiting" "su_chan (cw_susp w ! i) = ChOpen"
    using at s(1,4) f(2) by (auto simp: su_ok_def)
  have log: "log_ok L (cw_susp w)" using inv by (simp add: cinv_def)
  have "i \<notin> (\<lambda>(_, _, _, _, i). i) ` set L" using log wait(2) by (auto simp: log_ok_def)
  moreover have "log_ok L (cw_susp w')"
    unfolding w' by (simp, rule log_ok_update) (use log wait(2) in simp_all)
  ultimately have "log_ok (L @ [(user, task, call_id, payload, i)]) (cw_susp w')"
    using f(1) by (auto simp: log_ok_def w')
  then show ?thesis unfolding w'
    by (rule cinv_local[OF inv f(1), where su' = "(cw_susp w ! i)\<lparr>su_chan := ChTaken payload\<rparr>", rotated -2])
      (use wait at f s in \<open>auto simp: su_ok_simps hm_simps\<close>)
qed

lemma cinv_send:
  assumes inv: "cinv (w, L)" and i: "i < length (cw_susp w)"
  shows "cinv (resolve_send i w, L)"
proof (cases "su_chan (cw_susp w ! i)")
  case (ChTaken p)
  let ?su = "(cw_susp w ! i)\<lparr>su_chan := ChSent p\<rparr>"
  have sus: "cw_susp (resolve_send i w) = (cw_susp w)[i := ?su]" using ChTaken by (simp add: resolve_send_def)
  have "su_ok L (pend w) (cw_rows w) i ?su"
    using su_at[OF inv i] ChTaken failed_as_sent[OF ChTaken] by (auto simp: su_ok_simps)
  then have "\<forall>j<length (cw_susp w). su_ok L (pend w) (cw_rows w) j ((cw_susp w)[i := ?su] ! j)"
    using su_at[OF inv] i by (auto simp: nth_list_update)
  moreover have "slots_ok (pend w) ((cw_susp w)[i := ?su])" "one_active ((cw_susp w)[i := ?su])"
    using inv i by (auto simp: cinv_def slots_ok_def one_active_def nth_list_update Let_def)
  moreover have "log_ok L ((cw_susp w)[i := ?su])"
    by (rule log_ok_update) (use inv ChTaken in \<open>simp_all add: cinv_def\<close>)
  ultimately show ?thesis using sus by (simp add: cinv_def resolve_send_def)
qed (use inv in \<open>simp_all add: resolve_send_def set_susp_def\<close>)

lemma cinv_execute:
  assumes inv: "cinv (w, L)" and free: "\<forall>su\<in>set (cw_susp w). su_task su = su_task new \<longrightarrow> is_done (su_phase su)"
    and new: "su_phase new = SpStart" "su_chan new = ChOpen"
  shows "cinv (w\<lparr>cw_susp := cw_susp w @ [new]\<rparr>, L)"
proof -
  have "hm_get (pend w) (su_task new) = None"
  proof (rule ccontr)
    assume "hm_get (pend w) (su_task new) \<noteq> None"
    then obtain s where s: "hm_get (pend w) (su_task new) = Some s" by blast
    note f = slot_facts[OF inv s]
    have "su_phase (cw_susp w ! ps_waker s) = SpWaiting" using su_at[OF inv f(1)] s f(2) by (auto simp: su_ok_def)
    then show False using free f(1,2) nth_mem[OF f(1)] by fastforce
  qed
  then have "su_ok L (pend w) (cw_rows w) (length (cw_susp w)) new" using new by (simp add: su_ok_simps)
  then have "\<forall>i<Suc (length (cw_susp w)). su_ok L (pend w) (cw_rows w) i ((cw_susp w @ [new]) ! i)"
    using su_at[OF inv] by (simp add: nth_append less_Suc_eq)
  moreover have "slots_ok (pend w) (cw_susp w @ [new])"
    using inv by (auto simp: cinv_def slots_ok_def nth_append Let_def less_SucI)
  moreover have "log_ok L (cw_susp w @ [new])"
    using inv by (fastforce simp: cinv_def log_ok_def nth_append less_SucI)
  moreover have "one_active (cw_susp w @ [new])"
    using inv free unfolding cinv_def one_active_def
    by (auto simp: nth_append less_Suc_eq)
  ultimately show ?thesis using inv by (simp add: cinv_def)
qed

lemma cinv_coord: "cinv (w, L) \<Longrightarrow> cc_pending c = pend w \<Longrightarrow> cinv (w\<lparr>cw_coord := c\<rparr>, L)"
  by (simp add: cinv_def)

lemma cinv_step: "cinv s \<Longrightarrow> client_step s t \<Longrightarrow> cinv t"
  by (erule client_stepE)
    (auto intro: cinv_execute cinv_advance cinv_wake cinv_cancel cinv_time_out cinv_resolve cinv_send cinv_coord
      dest: handle_result_refused handle_result_takes simp: register_tools_def clear_session_def Let_def)

interpretation client_sys: invariant_system client_init client_step cinv
proof
  show "cinv s" if "client_init s" for s :: "'a client_world \<times> answer list"
    using that by (simp add: client_init_def cinv_def client_world_new_def client_coordinator_new_def slots_ok_def
        one_active_def log_ok_def)
qed (rule cinv_step)

section \<open>What is shown of calls and answers\<close>

text \<open>
  C10: A call and its slot, in every interleaving of calls, answers, cancellations and timeouts.
  There is a slot for a task exactly while a call of that task waits unanswered, and it carries
  that call's user and call id; while a call is in progress its row is there and names the call;
  and a task has one call in progress at most. So nothing is left behind when a call returns, and
  the row a call updates when it wakes is never missing.
\<close>

theorem slots_follow_the_calls:
  assumes "reachable client_init client_step (w, L)" and "i < length (cw_susp w)"
  defines "su \<equiv> cw_susp w ! i"
  shows "(su_phase su = SpWaiting \<and> su_chan su = ChOpen \<longleftrightarrow>
      \<not> is_done (su_phase su) \<and> hm_get (cc_pending (cw_coord w)) (su_task su) \<noteq> None) \<and>
    (su_phase su = SpWaiting \<and> su_chan su = ChOpen \<longrightarrow>
      hm_get (cc_pending (cw_coord w)) (su_task su) =
        Some \<lparr>ps_user_id = su_user su, ps_expected_tool_call_id = pcl_tool_call_id (su_call su), ps_waker = i\<rparr>) \<and>
    (row_written (su_phase su) \<longrightarrow> (\<exists>row. hm_get (cw_rows w) (su_task su) = Some row \<and>
       tro_status row = PendingClientTool \<and> tsj_pending_client_tool (tro_state row) = Some (su_call su))) \<and>
    ((\<forall>j<length (cw_susp w). su_task (cw_susp w ! j) = su_task su \<longrightarrow> is_done (su_phase (cw_susp w ! j))) \<longrightarrow>
       hm_get (cc_pending (cw_coord w)) (su_task su) = None) \<and>
    (\<forall>j<length (cw_susp w). j \<noteq> i \<and> su_task (cw_susp w ! j) = su_task su \<and> \<not> is_done (su_phase su) \<longrightarrow>
       is_done (su_phase (cw_susp w ! j)))"
proof -
  have inv: "cinv (w, L)" by (rule client_sys.reachable_inv[OF assms(1)])
  note at = su_at[OF inv assms(2), folded su_def]
  have iff: "su_phase su = SpWaiting \<and> su_chan su = ChOpen \<longleftrightarrow>
      \<not> is_done (su_phase su) \<and> hm_get (pend w) (su_task su) \<noteq> None"
    using no_slot[OF inv assms(2), folded su_def] at by (auto simp: su_ok_def)
  have shape: "hm_get (pend w) (su_task su) =
        Some \<lparr>ps_user_id = su_user su, ps_expected_tool_call_id = pcl_tool_call_id (su_call su), ps_waker = i\<rparr>"
    if "su_phase su = SpWaiting \<and> su_chan su = ChOpen"
    using that iff slot_shape[OF inv assms(2), folded su_def] by auto
  have gone: "hm_get (pend w) (su_task su) = None"
    if fin: "\<forall>j<length (cw_susp w). su_task (cw_susp w ! j) = su_task su \<longrightarrow> is_done (su_phase (cw_susp w ! j))"
  proof (rule ccontr)
    assume "hm_get (pend w) (su_task su) \<noteq> None"
    then obtain s where s: "hm_get (pend w) (su_task su) = Some s" by blast
    note f = slot_facts[OF inv s]
    have "su_phase (cw_susp w ! ps_waker s) = SpWaiting" using su_at[OF inv f(1)] s f(2) by (auto simp: su_ok_def)
    then show False using fin f(1,2) by fastforce
  qed
  have "is_done (su_phase (cw_susp w ! j))"
    if "j < length (cw_susp w)" "j \<noteq> i" "su_task (cw_susp w ! j) = su_task su" "\<not> is_done (su_phase su)" for j
    using inv assms(2) that unfolding cinv_def one_active_def su_def by blast
  then show ?thesis using iff shape gone at by (auto simp: su_ok_def pending_state_def)
qed

lemma log_entry:
  assumes inv: "cinv (w, L)" and "(u, t, c, p, i) \<in> set L"
  shows "i < length (cw_susp w)" "u = su_user (cw_susp w ! i)" "t = su_task (cw_susp w ! i)"
    "c = pcl_tool_call_id (su_call (cw_susp w ! i))" "length (payload_text p) \<le> MAX_CLIENT_TOOL_RESULT_BYTES"
proof -
  have log: "distinct (map (\<lambda>(_, _, _, _, i). i) L)" using inv by (simp add: cinv_def log_ok_def)
  have chan: "i < length (cw_susp w)" "su_chan (cw_susp w ! i) \<in> {ChTaken p, ChSent p}"
    using assms by (auto simp: cinv_def log_ok_def)
  then have "(su_user (cw_susp w ! i), su_task (cw_susp w ! i), pcl_tool_call_id (su_call (cw_susp w ! i)), p, i) \<in> set L"
    "length (payload_text p) \<le> MAX_CLIENT_TOOL_RESULT_BYTES"
    using su_at[OF inv chan(1)] by (auto simp: su_ok_def)
  then show "i < length (cw_susp w)" "u = su_user (cw_susp w ! i)" "t = su_task (cw_susp w ! i)"
    "c = pcl_tool_call_id (su_call (cw_susp w ! i))" "length (payload_text p) \<le> MAX_CLIENT_TOOL_RESULT_BYTES"
    using chan(1) assms(2) log by (auto dest: eq_key_imp_eq_value simp: distinct_map inj_on_def)
qed

lemma filter_unique: "distinct (map f xs) \<Longrightarrow> x \<in> set xs \<Longrightarrow> filter (\<lambda>y. f y = f x) xs = [x]"
proof (induction xs)
  case (Cons a xs)
  show ?case
  proof (cases "a = x")
    case True
    then have "filter (\<lambda>y. f y = f x) xs = []" using Cons.prems(1) by (fastforce simp: filter_empty_conv image_iff)
    then show ?thesis using True by simp
  next
    case False
    then have "f a \<noteq> f x" using Cons.prems by (auto simp: image_iff)
    then show ?thesis using Cons False by auto
  qed
qed simp

text \<open>The answers accepted for a call are what its channel carries.\<close>

lemma accepted_answers:
  assumes inv: "cinv (w, L)" and i: "i < length (cw_susp w)"
  shows "su_chan (cw_susp w ! i) = ChSent p \<Longrightarrow> filter (\<lambda>(_, _, _, _, k). k = i) L =
      [(su_user (cw_susp w ! i), su_task (cw_susp w ! i), pcl_tool_call_id (su_call (cw_susp w ! i)), p, i)]"
    and "su_chan (cw_susp w ! i) = ChOpen \<Longrightarrow> filter (\<lambda>(_, _, _, _, k). k = i) L = []"
proof -
  have log: "distinct (map (\<lambda>(_, _, _, _, i). i) L)" using inv by (simp add: cinv_def log_ok_def)
  show "filter (\<lambda>(_, _, _, _, k). k = i) L =
      [(su_user (cw_susp w ! i), su_task (cw_susp w ! i), pcl_tool_call_id (su_call (cw_susp w ! i)), p, i)]"
    if "su_chan (cw_susp w ! i) = ChSent p"
  proof -
    have "(su_user (cw_susp w ! i), su_task (cw_susp w ! i), pcl_tool_call_id (su_call (cw_susp w ! i)), p, i) \<in> set L"
      using su_at[OF inv i] that by (auto simp: su_ok_def)
    then show ?thesis using filter_unique[OF log] by (auto simp: case_prod_unfold)
  qed
  show "filter (\<lambda>(_, _, _, _, k). k = i) L = []" if "su_chan (cw_susp w ! i) = ChOpen"
    using inv that by (auto simp: cinv_def log_ok_def filter_empty_conv)
qed

lemma done_outcome:
  assumes inv: "cinv (w, L)" and i: "i < length (cw_susp w)" and su: "su = cw_susp w ! i"
    and out: "su_phase su = SpDone out"
  shows "case out of
      Inr result \<Rightarrow> filter (\<lambda>(_, _, _, _, k). k = i) L =
        [(su_user su, su_task su, pcl_tool_call_id (su_call su), Inr result, i)]
    | Inl (ToolExecution reason) \<Rightarrow> filter (\<lambda>(_, _, _, _, k). k = i) L =
        [(su_user su, su_task su, pcl_tool_call_id (su_call su), Inl reason, i)] \<or> reason = no_answer_text su \<or>
        filter (\<lambda>(_, _, _, _, k). k = i) L = [] \<and> reason = not_registered_text (pcl_tool_name (su_call su))
    | Inl Cancelled \<Rightarrow> True
    | Inl (Storage _) \<Rightarrow> False"
proof (cases out)
  case (Inl e)
  then have "failed_as e su" using su_at[OF inv i, folded su] out by (simp add: su_ok_def)
  then show ?thesis using Inl accepted_answers[OF inv i, folded su] by (cases e) auto
next
  case (Inr r)
  then have "su_chan su = ChSent (Inr r)" using su_at[OF inv i, folded su] out by (simp add: su_ok_def)
  then show ?thesis using Inr accepted_answers(1)[OF inv i, folded su] by simp
qed

text \<open>
  C11: what a client tool call returns, in every interleaving of calls, \<^verbatim>\<open>ClientToolResult\<close> commands,
  cancellations and timeouts. A call that succeeds returns the result of the one answer that was
  accepted for it. A call that fails reports the error of the one answer that was accepted for it,
  or a text of the daemon: that the client did not answer in time, that the call was cancelled, or
  that the connection offers no such tool, and then no answer was accepted; it never fails in the
  store. An answer is accepted at most once for a call, and only from the user of the call, for its
  task and call id, and within the size cap. A refused answer is not taken into account, even
  if it was the first one sent.
\<close>

theorem output_is_the_users_answer:
  assumes "reachable client_init client_step (w, L)"
  shows "(\<forall>i<length (cw_susp w). \<forall>out. su_phase (cw_susp w ! i) = SpDone out \<longrightarrow>
      (let su = cw_susp w ! i;
           accepted = filter (\<lambda>(_, _, _, _, k). k = i) L;
           answer = (\<lambda>p. (su_user su, su_task su, pcl_tool_call_id (su_call su), p, i)) in
       case out of
         Inr result \<Rightarrow> accepted = [answer (Inr result)]
       | Inl (ToolExecution reason) \<Rightarrow>
           accepted = [answer (Inl reason)] \<or> reason = no_answer_text su \<or>
           accepted = [] \<and> reason = not_registered_text (pcl_tool_name (su_call su))
       | Inl Cancelled \<Rightarrow> True
       | Inl (Storage _) \<Rightarrow> False)) \<and>
    (\<forall>(u, t, c, p, i)\<in>set L. i < length (cw_susp w) \<and> u = su_user (cw_susp w ! i) \<and>
       t = su_task (cw_susp w ! i) \<and> c = pcl_tool_call_id (su_call (cw_susp w ! i)) \<and>
       length (payload_text p) \<le> MAX_CLIENT_TOOL_RESULT_BYTES) \<and>
    distinct (map (\<lambda>(_, _, _, _, i). i) L)"
proof -
  have inv: "cinv (w, L)" by (rule client_sys.reachable_inv[OF assms])
  have log: "distinct (map (\<lambda>(_, _, _, _, i). i) L)" using inv by (simp add: cinv_def log_ok_def)
  have "case a of (u, t, c, p, i) \<Rightarrow> i < length (cw_susp w) \<and> u = su_user (cw_susp w ! i) \<and>
       t = su_task (cw_susp w ! i) \<and> c = pcl_tool_call_id (su_call (cw_susp w ! i)) \<and>
       length (payload_text p) \<le> MAX_CLIENT_TOOL_RESULT_BYTES" if "a \<in> set L" for a
  proof -
    obtain u t c p i where a: "a = (u, t, c, p, i)" by (cases a)
    show ?thesis using log_entry[OF inv that[unfolded a]] by (simp add: a)
  qed
  then show ?thesis using log done_outcome[OF inv _ refl] unfolding Let_def by blast
qed

text \<open>
  How an answer to a call in progress is judged, in every reachable state: an oversized
  payload is refused as malformed; an answer from another user, or one that arrives while the call
  has no open slot, is refused as if the task did not exist; an answer with another call id is
  told the expected one; anything else is accepted for this very call. A refusal changes nothing,
  and over the wire the first two refusals of a foreign user and a missing task are the same.
\<close>

theorem answer_is_judged:
  assumes "reachable client_init client_step (w, L)" and "i < length (cw_susp w)"
    and "\<not> is_done (su_phase (cw_susp w ! i))" and su: "su = cw_susp w ! i"
  shows "(let (w', r) = resolve_take user (su_task su) call_id payload w in
     (if MAX_CLIENT_TOOL_RESULT_BYTES < length (payload_text payload)
      then w' = w \<and> r = Inl (MalformedResult (oversize_text payload))
      else if user \<noteq> su_user su \<or> \<not> (su_phase su = SpWaiting \<and> su_chan su = ChOpen)
      then w' = w \<and> r = Inl (TurnNotFound (su_task su))
      else if call_id \<noteq> pcl_tool_call_id (su_call su)
      then w' = w \<and> r = Inl (ToolCallIdMismatch (su_task su) (pcl_tool_call_id (su_call su)) call_id)
      else r = Inr i \<and> hm_get (cc_pending (cw_coord w')) (su_task su) = None \<and>
           su_chan (cw_susp w' ! i) = ChTaken payload))"
proof -
  have inv: "cinv (w, L)" by (rule client_sys.reachable_inv[OF assms(1)])
  note free = no_slot[OF inv assms(2,3), folded su]
  show ?thesis
  proof (cases "hm_get (pend w) (su_task su)")
    case None
    then have "\<not> (su_phase su = SpWaiting \<and> su_chan su = ChOpen)"
      using su_at[OF inv assms(2), folded su] by (auto simp: su_ok_def)
    then show ?thesis using None by (simp add: resolve_take_def)
  next
    case (Some s)
    then have "su_phase su = SpWaiting \<and> su_chan su = ChOpen" using free by auto
    moreover have "s = \<lparr>ps_user_id = su_user su, ps_expected_tool_call_id = pcl_tool_call_id (su_call su), ps_waker = i\<rparr>"
      using slot_shape[OF inv assms(2,3)] Some su by simp
    ultimately show ?thesis using Some assms(2) by (auto simp: resolve_take_def hm_simps)
  qed
qed

section \<open>What is shown of registrations\<close>

lemma hold_tool_names:
  assumes "distinct (map ctr_name held)"
  shows "map ctr_name (hold_tool t held) =
      (if ctr_name t \<in> ctr_name ` set held then map ctr_name held else map ctr_name held @ [ctr_name t])"
    and "h \<in> set (hold_tool t held) \<longleftrightarrow> h = t \<or> h \<in> set held \<and> ctr_name h \<noteq> ctr_name t"
proof -
  consider i where "position (\<lambda>h. ctr_name h = ctr_name t) held = Some i" "i < length held" "ctr_name (held ! i) = ctr_name t"
    | "position (\<lambda>h. ctr_name h = ctr_name t) held = None" "\<forall>x\<in>set held. ctr_name x \<noteq> ctr_name t"
    using position_Some[of "\<lambda>h. ctr_name h = ctr_name t" held] position_None[of "\<lambda>h. ctr_name h = ctr_name t" held]
    by (cases "position (\<lambda>h. ctr_name h = ctr_name t) held") (auto simp: find_None_iff)
  note cs = this
  from cs show "map ctr_name (hold_tool t held) =
      (if ctr_name t \<in> ctr_name ` set held then map ctr_name held else map ctr_name held @ [ctr_name t])"
  proof cases
    case (1 i)
    then have "map ctr_name (held[i := t]) = map ctr_name held"
      by (simp add: map_update list_update_same_conv)
    moreover have "ctr_name t \<in> ctr_name ` set held" using nth_mem[OF 1(2)] 1(3) by (metis imageI)
    ultimately show ?thesis using 1 by (simp add: hold_tool_def)
  qed (force simp: hold_tool_def)
  from cs show "h \<in> set (hold_tool t held) \<longleftrightarrow> h = t \<or> h \<in> set held \<and> ctr_name h \<noteq> ctr_name t"
  proof cases
    case (1 i)
    have other: "ctr_name (held ! j) \<noteq> ctr_name t" if "j < length held" "j \<noteq> i" for j
      using assms 1(2,3) that by (simp add: distinct_conv_nth) metis
    have "h \<in> set (held[i := t]) \<longleftrightarrow> (\<exists>j<length held. h = (if j = i then t else held ! j))"
      by (auto simp: in_set_conv_nth nth_list_update)
    also have "\<dots> \<longleftrightarrow> h = t \<or> (\<exists>j<length held. h = held ! j \<and> ctr_name h \<noteq> ctr_name t)"
      using 1(2,3) other by metis
    finally show ?thesis using 1 by (auto simp: hold_tool_def in_set_conv_nth)
  qed (auto simp: hold_tool_def)
qed

lemma hold_tools_names: "map ctr_name (fold hold_tool tools []) = rev (remdups (rev (map ctr_name tools)))"
proof (induction tools rule: rev_induct)
  case (snoc t tools)
  have "ctr_name ` set (fold hold_tool tools []) = ctr_name ` set tools" using arg_cong[OF snoc, of set] by simp
  moreover have "distinct (map ctr_name (fold hold_tool tools []))" by (simp add: snoc)
  ultimately show ?case using hold_tool_names(1)[of "fold hold_tool tools []" t] snoc by auto
qed simp

lemma hold_tools_last:
  "h \<in> set (fold hold_tool tools []) \<longleftrightarrow> List.find (\<lambda>t. ctr_name t = ctr_name h) (rev tools) = Some h"
proof (induction tools rule: rev_induct)
  case (snoc t tools)
  have "distinct (map ctr_name (fold hold_tool tools []))" by (simp add: hold_tools_names)
  from hold_tool_names(2)[OF this, of h t] snoc show ?case by auto
qed simp

text \<open>
  What a connection's registration does. Afterwards the connection offers exactly one tool per
  name, in the order in which the names were first sent, each with the last definition sent for
  it; the count it is told is the number of tools it holds; the sets of every other connection,
  also of the same user, and the slots of the calls in progress are untouched; and once the
  session is cleared it offers nothing, while the other sessions keep their sets.
\<close>

theorem registration_is_per_connection:
  assumes "hm_ok (cc_registrations c)" and "register_tools key tools c = (c', n)"
  shows "map td_name (registered_definitions key c') = rev (remdups (rev (map ctr_name tools))) \<and>
    (\<forall>t\<in>set (registered_set key c'). List.find (\<lambda>t'. ctr_name t' = ctr_name t) (rev tools) = Some t) \<and>
    (is_client_registered key name c' \<longleftrightarrow> name \<in> ctr_name ` set tools) \<and>
    n = min (length (registered_set key c')) u32_max \<and>
    (other \<noteq> key \<longrightarrow> registered_set other c' = registered_set other c) \<and>
    cc_pending c' = cc_pending c \<and>
    registered_set other (clear_session (snd key) c') =
      (if snd other = snd key then [] else registered_set other c)"
proof -
  have c': "c' = c\<lparr>cc_registrations := hm_insert key (fold hold_tool tools []) (cc_registrations c)\<rparr>"
    "n = min (length (fold hold_tool tools [])) u32_max"
    using assms(2) by (auto simp: register_tools_def Let_def)
  then have own: "registered_set key c' = fold hold_tool tools []" by (simp add: registered_set_def hm_simps)
  have "map td_name (registered_definitions key c') = map ctr_name (registered_set key c')"
    by (simp add: registered_definitions_def)
  moreover have "is_client_registered key name c' \<longleftrightarrow> name \<in> set (map ctr_name (registered_set key c'))"
    by (auto simp: is_client_registered_def list_ex_iff image_iff)
  moreover have "registered_set other (clear_session (snd key) c') =
      (if snd other = snd key then [] else registered_set other c)"
  proof -
    have "hm_ok (cc_registrations c')" using assms(1) by (simp add: c'(1))
    then have "hm_get (cc_registrations (clear_session (snd key) c')) other =
        (if snd other = snd key then None else hm_get (cc_registrations c') other)"
      by (cases other) (simp add: clear_session_def hm_get_filter case_prod_beta split: option.split)
    then show ?thesis by (auto simp: registered_set_def c'(1) hm_simps)
  qed
  moreover have "other \<noteq> key \<longrightarrow> registered_set other c' = registered_set other c"
    by (simp add: registered_set_def c'(1) hm_simps)
  moreover have "cc_pending c' = cc_pending c" by (simp add: c'(1))
  moreover have "List.find (\<lambda>t'. ctr_name t' = ctr_name t) (rev tools) = Some t"
    if "t \<in> set (registered_set key c')" for t
    using that hold_tools_last[of t tools] unfolding own by blast
  moreover have "set (map ctr_name (registered_set key c')) = ctr_name ` set tools"
    "map ctr_name (registered_set key c') = rev (remdups (rev (map ctr_name tools)))"
    unfolding own hold_tools_names by auto
  ultimately show ?thesis using c'(2) own by auto
qed

section \<open>A run\<close>

text \<open>One connection registers a tool, its turn calls it, and the client answers.\<close>

definition wit_call :: "unit suspension" where
  "wit_call = \<lparr>su_user = ''u'', su_session = ''s'', su_task = ''t'', su_conversation = ''c'',
     su_call = \<lparr>pcl_tool_call_id = ''k'', pcl_tool_name = ''say'', pcl_arguments = ()\<rparr>,
     su_timeout_secs = 120, su_phase = SpStart, su_chan = ChOpen\<rparr>"

definition wit_registered :: "unit client_world" where
  "wit_registered = client_world_new\<lparr>cw_coord := fst (register_tools (''u'', ''s'')
     [\<lparr>ctr_name = ''say'', ctr_description = [], ctr_input_schema = ()\<rparr>] client_coordinator_new)\<rparr>"

definition wit_started :: "unit client_world" where
  "wit_started = wit_registered\<lparr>cw_susp := [wit_call]\<rparr>"

definition wit_emitted :: "unit client_world" where
  "wit_emitted = suspend_step 0 (suspend_step 0 (suspend_step 0 (suspend_step 0 wit_started)))"

definition wit_waiting :: "unit client_world" where
  "wit_waiting = suspend_step 0 wit_emitted"

definition wit_answered :: "unit client_world" where
  "wit_answered = fst (resolve_take ''u'' ''t'' ''k'' (Inr ''done'') wit_waiting)"

definition wit_returned :: "unit client_world" where
  "wit_returned = suspend_step 0 (the (wake 0 (resolve_send 0 wit_answered)))"

lemma length_suspend_step [simp]: "length (cw_susp (suspend_step i w)) = length (cw_susp w)"
  by (auto simp: suspend_step_def install_slot_def Let_def split: phase.splits sum.splits prod.splits option.splits)

lemma advance_reachable:
  "reachable client_init client_step (w, L) \<Longrightarrow> i < length (cw_susp w) \<Longrightarrow>
   reachable client_init client_step (suspend_step i w, L)"
  by (erule reach_step) (rule cs_advance)

definition wit_row :: "unit turn_row" where
  "wit_row = \<lparr>tro_id = ''t'', tro_user_id = ''u'', tro_conversation_id = ''c'', tro_status = PendingClientTool,
     tro_state = pending_state wit_call, tro_last_error = None\<rparr>"

definition wit_slot :: pending_slot where
  "wit_slot = \<lparr>ps_user_id = ''u'', ps_expected_tool_call_id = ''k'', ps_waker = 0\<rparr>"

lemma wit_emitted_eq:
  "wit_emitted = \<lparr>cw_coord = cw_coord wit_registered, cw_rows = [(''t'', wit_row)],
     cw_events = [client_tool_call_event wit_call], cw_susp = [wit_call\<lparr>su_phase := SpEmitted\<rparr>]\<rparr>"
  by (simp add: wit_emitted_def wit_started_def wit_registered_def client_world_new_def client_coordinator_new_def
      suspend_step_def wit_call_def wit_row_def ensure_turn_row_def create_turn_def update_turn_def set_susp_def
      register_tools_def hold_tool_def is_client_registered_def registered_set_def pending_state_def
      client_tool_call_event_def Let_def)

lemma wit_registered_pending: "cc_pending (cw_coord wit_registered) = []"
  by (simp add: wit_registered_def register_tools_def client_coordinator_new_def Let_def)

lemma wit_waiting_eq:
  "wit_waiting = wit_emitted\<lparr>cw_coord := (cw_coord wit_registered)\<lparr>cc_pending := [(''t'', wit_slot)]\<rparr>,
     cw_susp := [wit_call\<lparr>su_phase := SpWaiting\<rparr>]\<rparr>"
  by (simp add: wit_waiting_def wit_emitted_eq suspend_step_def install_slot_def set_pending_def set_susp_def
      wit_registered_pending wit_slot_def wit_call_def Let_def)

lemma wit_answer:
  "resolve_take ''u'' ''t'' ''k'' (Inr ''done'') wit_waiting =
     (wit_emitted\<lparr>cw_susp := [wit_call\<lparr>su_phase := SpWaiting, su_chan := ChTaken (Inr ''done'')\<rparr>]\<rparr>, Inr 0)"
  by (simp add: resolve_take_def wit_waiting_eq wit_emitted_eq wit_slot_def set_pending_def set_susp_def
      wit_registered_pending[symmetric] MAX_CLIENT_TOOL_RESULT_BYTES_def)
    (simp add: wit_registered_def register_tools_def client_coordinator_new_def Let_def)

lemma wit_answered_eq:
  "wit_answered = wit_emitted\<lparr>cw_susp := [wit_call\<lparr>su_phase := SpWaiting, su_chan := ChTaken (Inr ''done'')\<rparr>]\<rparr>"
  by (simp add: wit_answered_def wit_answer)

lemmas wit_eqs = wit_emitted_eq wit_waiting_eq wit_answered_eq

lemma wit_emitted_reachable: "reachable client_init client_step (wit_emitted, [])"
proof -
  have "reachable client_init client_step (client_world_new :: unit client_world, [])"
    by (rule reach_init) (simp add: client_init_def)
  then have reg: "reachable client_init client_step (wit_registered, [])"
    unfolding wit_registered_def by (rule reach_step)
      (use cs_register[of client_world_new "[]"] in \<open>simp add: client_world_new_def\<close>)
  have sus: "cw_susp wit_registered = []" by (simp add: wit_registered_def client_world_new_def)
  have "reachable client_init client_step (wit_started, [])"
    unfolding wit_started_def
    by (rule reach_step[OF reg]) (use cs_execute[of wit_registered wit_call "[]"] in \<open>simp add: sus wit_call_def\<close>)
  moreover have "length (cw_susp wit_started) = 1" by (simp add: wit_started_def)
  ultimately show ?thesis unfolding wit_emitted_def by (intro advance_reachable) simp_all
qed

lemma wit_waiting_reachable: "reachable client_init client_step (wit_waiting, [])"
proof -
  have "length (cw_susp wit_emitted) = 1" by (simp add: wit_emitted_def wit_started_def)
  then show ?thesis unfolding wit_waiting_def by (intro advance_reachable wit_emitted_reachable) simp
qed

lemma wit_answered_reachable: "reachable client_init client_step (wit_answered, [(''u'', ''t'', ''k'', Inr ''done'', 0)])"
proof -
  have "handle_client_tool_result True ''u'' ''t'' ''k'' (Some ''done'') None wit_waiting = (wit_answered, Inr 0)"
    by (simp add: handle_client_tool_result_def wit_answer wit_answered_eq)
  from cs_resolve[OF this, of "Inr ''done''" "[]"]
  have "client_step (wit_waiting, []) (wit_answered, [(''u'', ''t'', ''k'', Inr ''done'', 0)])" by simp
  then show ?thesis by (rule reach_step[OF wit_waiting_reachable])
qed

lemma wit_returned_reachable: "reachable client_init client_step (wit_returned, [(''u'', ''t'', ''k'', Inr ''done'', 0)])"
proof -
  have len: "length (cw_susp (resolve_send 0 wit_answered)) = 1" "0 < length (cw_susp wit_answered)"
    "su_phase (cw_susp (resolve_send 0 wit_answered) ! 0) = SpWaiting"
    "su_chan (cw_susp (resolve_send 0 wit_answered) ! 0) = ChSent (Inr ''done'')"
    by (simp_all add: wit_eqs resolve_send_def)
  have sent: "reachable client_init client_step (resolve_send 0 wit_answered, [(''u'', ''t'', ''k'', Inr ''done'', 0)])"
    by (rule reach_step[OF wit_answered_reachable]) (rule cs_send[OF len(2)])
  have w: "wake 0 (resolve_send 0 wit_answered) = Some (the (wake 0 (resolve_send 0 wit_answered)))"
    using len(4) by (simp add: wake_def)
  have "reachable client_init client_step (the (wake 0 (resolve_send 0 wit_answered)), [(''u'', ''t'', ''k'', Inr ''done'', 0)])"
    by (rule reach_step[OF sent], rule cs_wake[OF _ len(3) w]) (simp add: len(1))
  moreover have "length (cw_susp (the (wake 0 (resolve_send 0 wit_answered)))) = 1"
    using len(1,4) by (simp add: wake_def)
  ultimately show ?thesis unfolding wit_returned_def by (intro advance_reachable) simp_all
qed

theorem slots_follow_the_calls_witness:
  "hm_get (cc_pending (cw_coord wit_waiting)) ''t'' =
     Some \<lparr>ps_user_id = ''u'', ps_expected_tool_call_id = ''k'', ps_waker = 0\<rparr>"
proof -
  have "length (cw_susp wit_waiting) = 1" "su_phase (cw_susp wit_waiting ! 0) = SpWaiting"
    "su_chan (cw_susp wit_waiting ! 0) = ChOpen" "su_task (cw_susp wit_waiting ! 0) = ''t''"
    "su_user (cw_susp wit_waiting ! 0) = ''u''" "pcl_tool_call_id (su_call (cw_susp wit_waiting ! 0)) = ''k''"
    by (simp_all add: wit_eqs wit_call_def)
  then show ?thesis using slots_follow_the_calls[OF wit_waiting_reachable, of 0] by simp
qed

theorem output_is_the_users_answer_witness:
  "su_phase (cw_susp wit_returned ! 0) = SpDone (Inr ''done'') \<and>
   filter (\<lambda>(_, _, _, _, k). k = 0) [(''u'', ''t'', ''k'', Inr ''done'', 0)] =
     [(su_user (cw_susp wit_returned ! 0), su_task (cw_susp wit_returned ! 0),
       pcl_tool_call_id (su_call (cw_susp wit_returned ! 0)), Inr ''done'', 0 :: nat)]"
proof -
  have "length (cw_susp wit_returned) = 1" "su_phase (cw_susp wit_returned ! 0) = SpDone (Inr ''done'')"
    by (simp_all add: wit_returned_def wit_eqs resolve_send_def wake_def suspend_step_def set_susp_def update_turn_def
        wit_call_def Let_def)
  then show ?thesis using output_is_the_users_answer[OF wit_returned_reachable] by auto
qed

theorem answer_is_judged_witness:
  "snd (resolve_take ''mallory'' ''t'' ''k'' (Inr ''done'') wit_waiting) = Inl (TurnNotFound ''t'')"
proof -
  have "length (cw_susp wit_waiting) = 1" "\<not> is_done (su_phase (cw_susp wit_waiting ! 0))"
    "su_task (cw_susp wit_waiting ! 0) = ''t''" "su_user (cw_susp wit_waiting ! 0) = ''u''"
    by (simp_all add: wit_eqs wit_call_def)
  then show ?thesis
    using answer_is_judged[OF wit_waiting_reachable _ _ refl, of 0 "''mallory''" "''k''" "Inr ''done''"]
    by (simp add: case_prod_beta MAX_CLIENT_TOOL_RESULT_BYTES_def Let_def)
qed

theorem registration_is_per_connection_witness:
  "map td_name (registered_definitions (''u'', ''s'') (cw_coord wit_registered)) = [''say'']"
proof -
  let ?t = "\<lparr>ctr_name = ''say'', ctr_description = [], ctr_input_schema = ()\<rparr>"
  let ?r = "register_tools (''u'', ''s'') [?t] client_coordinator_new"
  have "?r = (fst ?r, snd ?r)" by simp
  from registration_is_per_connection[OF _ this] show ?thesis
    by (simp add: wit_registered_def client_coordinator_new_def)
qed

text \<open>
  An answer can come too early. The call is emitted before its slot is installed: there is a
  reachable state in which the client has been sent the call, its correct answer is refused as if
  the task did not exist, and nothing of the answer is kept; from there the call ends, without any
  other answer, in the error that the client did not respond.
\<close>

theorem early_answer_is_lost:
  "\<exists>(w :: unit client_world) su w'. reachable client_init client_step (w, []) \<and> cw_susp w = [su] \<and>
     cw_events w = [client_tool_call_event su] \<and>
     resolve_take (su_user su) (su_task su) (pcl_tool_call_id (su_call su)) (Inr ''done'') w =
       (w, Inl (TurnNotFound (su_task su))) \<and>
     client_step\<^sup>*\<^sup>* (w, []) (w', []) \<and>
     su_phase (cw_susp w' ! 0) = SpDone (Inl (ToolExecution (no_answer_text su)))"
proof -
  let ?su = "wit_call\<lparr>su_phase := SpEmitted\<rparr>"
  let ?w' = "suspend_step 0 (time_out 0 wit_waiting)"
  have e: "cw_susp wit_emitted = [?su]" "cw_events wit_emitted = [client_tool_call_event ?su]"
    "resolve_take (su_user ?su) (su_task ?su) (pcl_tool_call_id (su_call ?su)) (Inr ''done'') wit_emitted =
       (wit_emitted, Inl (TurnNotFound (su_task ?su)))"
    by (simp_all add: wit_emitted_eq client_tool_call_event_def resolve_take_def wit_registered_pending
        MAX_CLIENT_TOOL_RESULT_BYTES_def)
  have f: "length (cw_susp wit_waiting) = 1" "su_phase (cw_susp wit_waiting ! 0) = SpWaiting"
    "length (cw_susp (time_out 0 wit_waiting)) = 1"
    "su_phase (cw_susp ?w' ! 0) = SpDone (Inl (ToolExecution (no_answer_text ?su)))"
    by (simp_all add: wit_eqs time_out_def set_pending_def set_susp_def suspend_step_def no_answer_text_def Let_def)
  have "client_step (wit_emitted, []) (wit_waiting, [])"
    unfolding wit_waiting_def by (rule cs_advance) (simp add: e(1))
  moreover have "client_step (wit_waiting, []) (time_out 0 wit_waiting, [])" using f(1,2) by (intro cs_time_out) simp_all
  moreover have "client_step (time_out 0 wit_waiting, []) (?w', [])" using f(3) by (intro cs_advance) simp
  ultimately have "client_step\<^sup>*\<^sup>* (wit_emitted, []) (?w', [])" by (meson converse_rtranclp_into_rtranclp rtranclp.rtrancl_refl)
  then show ?thesis using wit_emitted_reachable e f(4) by blast
qed

end
