(* ===== verification/Url_Policy.thy ===== *)
theory Url_Policy
  imports Prelude "HOL-Library.Word"
begin

text \<open>
  The policy for a remote URL that a client supplies (\<^verbatim>\<open>mcp-client/src/url_policy.rs\<close>). The parser
  of the \<^verbatim>\<open>url\<close> crate is a parameter: it yields a scheme and a host, or the reason of its refusal.
  Addresses are words of the width of \<^verbatim>\<open>Ipv4Addr\<close> and of the eight segments of \<^verbatim>\<open>Ipv6Addr\<close>; the
  predicates of \<^verbatim>\<open>std::net\<close> the policy calls are written out on the octets and segments.

  The lemmas turn the masks of the code into address ranges. The theorems say which URLs are
  accepted, range by range, and that no spelling of a blocked IPv4 address is.
\<close>

unbundle bit_operations_syntax

section \<open>Addresses\<close>

type_synonym ipv4 = "32 word"

datatype ipv6 = Ipv6 (seg0: "16 word") (seg1: "16 word") (seg2: "16 word") (seg3: "16 word")
  (seg4: "16 word") (seg5: "16 word") (seg6: "16 word") (seg7: "16 word")

definition octet :: "nat \<Rightarrow> ipv4 \<Rightarrow> 8 word" where
  "octet i ip = ucast (drop_bit (24 - 8 * i) ip)"

definition ipv4_of_octets :: "8 word \<Rightarrow> 8 word \<Rightarrow> 8 word \<Rightarrow> 8 word \<Rightarrow> ipv4" where
  "ipv4_of_octets a b c d =
     push_bit 24 (ucast a) OR push_bit 16 (ucast b) OR push_bit 8 (ucast c) OR ucast d"

definition ipv4_of_segments :: "16 word \<Rightarrow> 16 word \<Rightarrow> ipv4" where
  "ipv4_of_segments hi lo = push_bit 16 (ucast hi) OR ucast lo"

definition is_link_local :: "ipv4 \<Rightarrow> bool" where
  "is_link_local ip \<longleftrightarrow> octet 0 ip = 169 \<and> octet 1 ip = 254"

definition is_unspecified :: "ipv4 \<Rightarrow> bool" where
  "is_unspecified ip \<longleftrightarrow> ip = 0"

definition is_loopback :: "ipv4 \<Rightarrow> bool" where
  "is_loopback ip \<longleftrightarrow> octet 0 ip = 127"

definition is_private :: "ipv4 \<Rightarrow> bool" where
  "is_private ip \<longleftrightarrow>
     octet 0 ip = 10 \<or> octet 0 ip = 172 \<and> 16 \<le> octet 1 ip \<and> octet 1 ip \<le> 31 \<or>
     octet 0 ip = 192 \<and> octet 1 ip = 168"

definition is_unspecified6 :: "ipv6 \<Rightarrow> bool" where
  "is_unspecified6 ip \<longleftrightarrow> ip = Ipv6 0 0 0 0 0 0 0 0"

definition is_loopback6 :: "ipv6 \<Rightarrow> bool" where
  "is_loopback6 ip \<longleftrightarrow> ip = Ipv6 0 0 0 0 0 0 0 1"

definition to_ipv4_mapped :: "ipv6 \<Rightarrow> ipv4 option" where
  "to_ipv4_mapped ip =
     (if seg0 ip = 0 \<and> seg1 ip = 0 \<and> seg2 ip = 0 \<and> seg3 ip = 0 \<and> seg4 ip = 0 \<and> seg5 ip = 0xffff
      then Some (ipv4_of_segments (seg6 ip) (seg7 ip)) else None)"

definition is_cgnat :: "ipv4 \<Rightarrow> bool" where
  "is_cgnat ip \<longleftrightarrow> ip AND 0xffc00000 = 0x64400000"

definition is_ipv6_link_local :: "ipv6 \<Rightarrow> bool" where
  "is_ipv6_link_local ip \<longleftrightarrow> seg0 ip AND 0xffc0 = 0xfe80"

definition is_ipv6_ula :: "ipv6 \<Rightarrow> bool" where
  "is_ipv6_ula ip \<longleftrightarrow> seg0 ip AND 0xfe00 = 0xfc00"

definition embedded_ipv4 :: "ipv6 \<Rightarrow> ipv4 option" where
  "embedded_ipv4 ip =
     (case to_ipv4_mapped ip of
        Some v4 \<Rightarrow> Some v4
      | None \<Rightarrow>
          (let v4 = ipv4_of_segments (seg6 ip) (seg7 ip)
           in if seg0 ip = 0 \<and> seg1 ip = 0 \<and> seg2 ip = 0 \<and> seg3 ip = 0 \<and> seg4 ip = 0 \<and> seg5 ip = 0 \<and> v4 > 1
              then Some v4
              else if seg0 ip = 0x64 \<and> seg1 ip = 0xff9b \<and> seg2 ip = 0 \<and> seg3 ip = 0 \<and> seg4 ip = 0 \<and> seg5 ip = 0
              then Some v4 else None))"

section \<open>The policy\<close>

datatype host = HostIpv4 ipv4 | HostIpv6 ipv6 | HostDomain string

record url =
  url_scheme :: string
  url_host :: "host option"

type_synonym url_parser = "string \<Rightarrow> string + url"

datatype request_credential = NoCredential | CredentialAttached

definition BLOCKED_METADATA_HOSTNAMES :: "string list" where
  "BLOCKED_METADATA_HOSTNAMES = [''metadata.google.internal'', ''metadata'', ''instance-data'']"

definition BLOCKED_METADATA_IPV4 :: "ipv4 list" where
  "BLOCKED_METADATA_IPV4 = [ipv4_of_octets 100 100 100 200, ipv4_of_octets 100 100 100 100]"

datatype url_policy_error =
    Malformed string string
  | SchemeNotAllowed string string
  | InsecureScheme string
  | BlockedTarget string

fun url_policy_code :: "url_policy_error \<Rightarrow> string" where
  "url_policy_code (Malformed _ _) = ''url_malformed''"
| "url_policy_code (SchemeNotAllowed _ _) = ''url_scheme_not_allowed''"
| "url_policy_code (InsecureScheme _) = ''url_insecure_scheme''"
| "url_policy_code (BlockedTarget _) = ''url_target_blocked''"

fun url_policy_user_message :: "url_policy_error \<Rightarrow> string" where
  "url_policy_user_message (Malformed _ _) = ''This is not a valid URL. Check the address and try again.''"
| "url_policy_user_message (SchemeNotAllowed _ scheme) =
     ''This address uses '' @ [CHR 0x27] @ scheme @ ''://'' @ [CHR 0x27] @ ''. Use '' @ [CHR 0x27] @
     ''https://'' @ [CHR 0x27] @ '' instead.''"
| "url_policy_user_message (InsecureScheme _) =
     ''This address uses '' @ [CHR 0x27] @ ''http://'' @ [CHR 0x27] @ '' to a public host. Use '' @ [CHR 0x27] @
     ''https://'' @ [CHR 0x27] @ '', or point at localhost, a private network address, or an internal hostname.''"
| "url_policy_user_message (BlockedTarget _) =
     ''This address is not allowed. It names a link-local or cloud metadata address.''"

definition to_ascii_lowercase :: "char \<Rightarrow> char" where
  "to_ascii_lowercase c = (if 65 \<le> byte_of c \<and> byte_of c \<le> 90 then char_of (byte_of c + 32) else c)"

definition eq_ignore_ascii_case :: "string \<Rightarrow> string \<Rightarrow> bool" where
  "eq_ignore_ascii_case a b \<longleftrightarrow> map to_ascii_lowercase a = map to_ascii_lowercase b"

text \<open>\<^verbatim>\<open>name.strip_suffix('.').unwrap_or(name)\<close>\<close>

definition without_root_dot :: "string \<Rightarrow> string" where
  "without_root_dot name = (if name \<noteq> [] \<and> last name = CHR ''.'' then butlast name else name)"

definition blocked_ipv4 :: "ipv4 \<Rightarrow> bool" where
  "blocked_ipv4 ip \<longleftrightarrow> is_link_local ip \<or> is_unspecified ip \<or> ip \<in> set BLOCKED_METADATA_IPV4"

definition is_blocked_target :: "url \<Rightarrow> bool" where
  "is_blocked_target u =
     (case url_host u of
        Some (HostIpv4 ip) \<Rightarrow> blocked_ipv4 ip
      | Some (HostIpv6 ip) \<Rightarrow>
          (case embedded_ipv4 ip of
             Some v4 \<Rightarrow> blocked_ipv4 v4
           | None \<Rightarrow> is_ipv6_link_local ip \<or> is_unspecified6 ip)
      | Some (HostDomain name) \<Rightarrow>
          list_ex (\<lambda>blocked. eq_ignore_ascii_case (without_root_dot name) blocked) BLOCKED_METADATA_HOSTNAMES
      | None \<Rightarrow> False)"

definition private_ipv4 :: "request_credential \<Rightarrow> ipv4 \<Rightarrow> bool" where
  "private_ipv4 credential ip \<longleftrightarrow> is_loopback ip \<or> is_private ip \<or> credential = NoCredential \<and> is_cgnat ip"

definition is_private_target :: "request_credential \<Rightarrow> url \<Rightarrow> bool" where
  "is_private_target credential u =
     (case url_host u of
        Some (HostIpv4 ip) \<Rightarrow> private_ipv4 credential ip
      | Some (HostIpv6 ip) \<Rightarrow>
          (case embedded_ipv4 ip of
             Some v4 \<Rightarrow> private_ipv4 credential v4
           | None \<Rightarrow> is_loopback6 ip \<or> is_ipv6_ula ip)
      | Some (HostDomain name) \<Rightarrow>
          (let name = without_root_dot name
           in eq_ignore_ascii_case name ''localhost'' \<or> credential = NoCredential \<and> CHR ''.'' \<notin> set name)
      | None \<Rightarrow> False)"

definition validate_remote_url :: "url_parser \<Rightarrow> string \<Rightarrow> request_credential \<Rightarrow> url_policy_error + unit" where
  "validate_remote_url parse raw credential =
     (case parse raw of
        Inl reason \<Rightarrow> Inl (Malformed raw reason)
      | Inr u \<Rightarrow>
          if is_blocked_target u then Inl (BlockedTarget raw)
          else if url_scheme u = ''https'' then Inr ()
          else if url_scheme u = ''http''
          then (if is_private_target credential u then Inr () else Inl (InsecureScheme raw))
          else Inl (SchemeNotAllowed raw (url_scheme u)))"

section \<open>Masks and octets are ranges\<close>

definition ipv4_nat :: "nat \<Rightarrow> nat \<Rightarrow> nat \<Rightarrow> nat \<Rightarrow> nat" where
  "ipv4_nat a b c d = a * 2 ^ 24 + b * 2 ^ 16 + c * 2 ^ 8 + d"

text \<open>The addresses of the block \<open>a.b.0.0/len\<close>, as an interval.\<close>

definition in_cidr :: "nat \<Rightarrow> nat \<Rightarrow> nat \<Rightarrow> ipv4 \<Rightarrow> bool" where
  "in_cidr a b len ip \<longleftrightarrow> ipv4_nat a b 0 0 \<le> unat ip \<and> unat ip < ipv4_nat a b 0 0 + 2 ^ (32 - len)"

lemma unat_32: "unat (ip :: ipv4) < 4294967296"
  using unsigned_less[of ip] by simp

text \<open>The upper half of an address decides its first two octets and every block of at most 16 bits.\<close>

abbreviation upper :: "ipv4 \<Rightarrow> nat" where
  "upper ip \<equiv> unat ip div 65536"

lemma octet_01: "unat (octet 0 ip) = upper ip div 256" "unat (octet 1 ip) = upper ip mod 256"
proof -
  have "unat (octet 0 ip) = unat ip div 16777216 mod 256" "unat (octet 1 ip) = upper ip mod 256"
    unfolding octet_def unsigned_ucast_eq unat_drop_bit_eq by (simp_all add: drop_bit_eq_div take_bit_eq_mod)
  moreover have "unat ip div 16777216 = upper ip div 256" by (simp add: div_mult2_eq[symmetric])
  moreover have "upper ip div 256 < 256" using unat_32[of ip] by (simp add: div_mult2_eq[symmetric] less_mult_imp_div_less)
  ultimately show "unat (octet 0 ip) = upper ip div 256" "unat (octet 1 ip) = upper ip mod 256" by simp_all
qed

lemma in_cidr_upper:
  assumes "len \<le> 16"
  shows "in_cidr a b len ip \<longleftrightarrow> a * 256 + b \<le> upper ip \<and> upper ip < a * 256 + b + 2 ^ (16 - len)"
proof -
  have "(2::nat) ^ (32 - len) = 2 ^ ((16 - len) + 16)" using assms by (intro arg_cong[where f = "power 2"]) simp
  also have "\<dots> = 2 ^ (16 - len) * 65536" unfolding power_add by (rule arg_cong2[where f = times]) simp_all
  finally have "ipv4_nat a b 0 0 + 2 ^ (32 - len) = (a * 256 + b + 2 ^ (16 - len)) * 65536"
    by (simp only: ipv4_nat_def distrib_right mult.assoc) simp
  moreover have "ipv4_nat a b 0 0 = (a * 256 + b) * 65536" by (simp add: ipv4_nat_def)
  ultimately show ?thesis unfolding in_cidr_def
    by (simp only: less_eq_div_iff_mult_less_eq[of 65536] div_less_iff_less_mult[of 65536])
qed

lemma octet_pair: "(n :: nat) div 256 = a \<and> n mod 256 = b \<longleftrightarrow> b < 256 \<and> n = a * 256 + b"
  by auto

lemma octet_run:
  assumes "d < 256"
  shows "(n :: nat) div 256 = a \<and> c \<le> n mod 256 \<and> n mod 256 \<le> d \<longleftrightarrow> a * 256 + c \<le> n \<and> n \<le> a * 256 + d"
proof
  assume "a * 256 + c \<le> n \<and> n \<le> a * 256 + d"
  moreover from this have "n div 256 = a" using assms by (intro div_nat_eqI) auto
  ultimately show "n div 256 = a \<and> c \<le> n mod 256 \<and> n mod 256 \<le> d"
    using div_mult_mod_eq[of n 256] by simp
qed (use div_mult_mod_eq[of n 256] in auto)

lemma link_local_range: "is_link_local ip \<longleftrightarrow> in_cidr 169 254 16 ip"
  unfolding is_link_local_def word_unat_eq_iff octet_01 by (simp add: octet_pair in_cidr_upper) auto

lemma loopback_range: "is_loopback ip \<longleftrightarrow> in_cidr 127 0 8 ip"
  unfolding is_loopback_def word_unat_eq_iff octet_01 by (simp add: in_cidr_upper) auto

lemma private_ranges: "is_private ip \<longleftrightarrow> in_cidr 10 0 8 ip \<or> in_cidr 172 16 12 ip \<or> in_cidr 192 168 16 ip"
proof -
  have "is_private ip \<longleftrightarrow> upper ip div 256 = 10 \<or> upper ip div 256 = 172 \<and> 16 \<le> upper ip mod 256 \<and> upper ip mod 256 \<le> 31 \<or>
      upper ip div 256 = 192 \<and> upper ip mod 256 = 168"
    unfolding is_private_def word_unat_eq_iff word_le_nat_alt octet_01 by simp
  also have "upper ip div 256 = 172 \<and> 16 \<le> upper ip mod 256 \<and> upper ip mod 256 \<le> 31 \<longleftrightarrow>
      172 * 256 + 16 \<le> upper ip \<and> upper ip \<le> 172 * 256 + 31"
    by (rule octet_run) simp
  also have "\<dots> \<longleftrightarrow> in_cidr 172 16 12 ip" by (simp add: in_cidr_upper) auto
  also have "upper ip div 256 = 192 \<and> upper ip mod 256 = 168 \<longleftrightarrow> in_cidr 192 168 16 ip"
    by (simp add: octet_pair in_cidr_upper) auto
  also have "upper ip div 256 = 10 \<longleftrightarrow> in_cidr 10 0 8 ip" by (simp add: in_cidr_upper) auto
  finally show ?thesis .
qed

text \<open>A comparison under a mask that keeps the upper bits is a comparison of quotients.\<close>

lemma and_upper_mask: "w AND NOT (mask n) = push_bit n (drop_bit n (w :: 'a::len word))"
  by (rule bit_eqI) (auto simp: bit_simps)

lemma masked_eq:
  assumes "m = NOT (mask n :: 'a::len word)" "v AND m = v"
  shows "w AND m = v \<longleftrightarrow> unat w div 2 ^ n = unat v div 2 ^ n"
proof -
  have drop: "drop_bit n (u AND m) = drop_bit n u" for u :: "'a word"
    unfolding assms(1) by (rule bit_eqI) (auto simp: bit_simps dest: bit_imp_le_length)
  have "w AND m = v \<longleftrightarrow> drop_bit n w = drop_bit n v"
    using drop[of w] and_upper_mask[of w n] and_upper_mask[of v n] assms by metis
  then show ?thesis by (simp add: word_unat_eq_iff unat_drop_bit_eq flip: drop_bit_eq_div)
qed

lemma cgnat_range: "is_cgnat ip \<longleftrightarrow> in_cidr 100 64 10 ip"
proof -
  have "is_cgnat ip \<longleftrightarrow> unat ip div 2 ^ 22 = 401"
    unfolding is_cgnat_def by (subst masked_eq[of _ 22]) (simp_all add: mask_eq_exp_minus_1)
  also have "unat ip div 2 ^ 22 = upper ip div 64" by (simp add: div_mult2_eq[symmetric])
  finally show ?thesis by (simp add: in_cidr_upper) auto
qed

lemma ipv6_link_local_range: "is_ipv6_link_local ip \<longleftrightarrow> 0xfe80 \<le> unat (seg0 ip) \<and> unat (seg0 ip) < 0xfec0"
  unfolding is_ipv6_link_local_def by (subst masked_eq[of _ 6]) (auto simp: mask_eq_exp_minus_1)

lemma ipv6_ula_range: "is_ipv6_ula ip \<longleftrightarrow> 0xfc00 \<le> unat (seg0 ip) \<and> unat (seg0 ip) < 0xfe00"
  unfolding is_ipv6_ula_def by (subst masked_eq[of _ 9]) (auto simp: mask_eq_exp_minus_1)

section \<open>The spellings of an IPv4 address\<close>

definition high_half :: "ipv4 \<Rightarrow> 16 word" where "high_half v4 = ucast (drop_bit 16 v4)"
definition low_half :: "ipv4 \<Rightarrow> 16 word" where "low_half v4 = ucast v4"

definition mapped :: "ipv4 \<Rightarrow> ipv6" where "mapped v4 = Ipv6 0 0 0 0 0 0xffff (high_half v4) (low_half v4)"
definition compatible :: "ipv4 \<Rightarrow> ipv6" where "compatible v4 = Ipv6 0 0 0 0 0 0 (high_half v4) (low_half v4)"
definition nat64 :: "ipv4 \<Rightarrow> ipv6" where "nat64 v4 = Ipv6 0x64 0xff9b 0 0 0 0 (high_half v4) (low_half v4)"

definition spellings :: "ipv4 \<Rightarrow> host list" where
  "spellings v4 = [HostIpv4 v4, HostIpv6 (mapped v4), HostIpv6 (compatible v4), HostIpv6 (nat64 v4)]"

lemma segments_halves [simp]: "ipv4_of_segments (high_half v4) (low_half v4) = v4"
  unfolding ipv4_of_segments_def high_half_def low_half_def
  by (rule bit_eqI) (auto simp: bit_simps)

lemma halves_segments [simp]: "high_half (ipv4_of_segments h l) = h" "low_half (ipv4_of_segments h l) = l"
  unfolding ipv4_of_segments_def high_half_def low_half_def
  by (rule bit_eqI; auto simp: bit_simps dest: bit_imp_le_length)+

lemma embedded_iff:
  "embedded_ipv4 ip = Some v4 \<longleftrightarrow> ip = mapped v4 \<or> ip = compatible v4 \<and> 1 < v4 \<or> ip = nat64 v4"
proof -
  obtain a b c d e f g h where ip: "ip = Ipv6 a b c d e f g h" by (cases ip)
  define w where "w = ipv4_of_segments g h"
  have "high_half w = g" "low_half w = h" by (simp_all add: w_def)
  then have "g = high_half v4 \<and> h = low_half v4 \<longleftrightarrow> w = v4" unfolding w_def by auto
  then have "ip = mapped v4 \<longleftrightarrow> a = 0 \<and> b = 0 \<and> c = 0 \<and> d = 0 \<and> e = 0 \<and> f = 0xffff \<and> w = v4"
    "ip = compatible v4 \<longleftrightarrow> a = 0 \<and> b = 0 \<and> c = 0 \<and> d = 0 \<and> e = 0 \<and> f = 0 \<and> w = v4"
    "ip = nat64 v4 \<longleftrightarrow> a = 0x64 \<and> b = 0xff9b \<and> c = 0 \<and> d = 0 \<and> e = 0 \<and> f = 0 \<and> w = v4"
    by (auto simp: ip mapped_def compatible_def nat64_def)
  then show ?thesis
    by (auto simp: embedded_ipv4_def to_ipv4_mapped_def ip w_def[symmetric] Let_def)
qed

section \<open>The rule\<close>

text \<open>The rule in ranges, independent of the masks and of the order of the checks.\<close>

definition metadata_ipv4 :: "ipv4 \<Rightarrow> bool" where
  "metadata_ipv4 v4 \<longleftrightarrow> unat v4 \<in> {ipv4_nat 100 100 100 200, ipv4_nat 100 100 100 100}"

definition rule_blocks :: "host \<Rightarrow> bool" where
  "rule_blocks h \<longleftrightarrow>
     (\<exists>v4. h \<in> set (spellings v4) \<and> (in_cidr 169 254 16 v4 \<or> v4 = 0 \<or> metadata_ipv4 v4)) \<or>
     (\<exists>ip. h = HostIpv6 ip \<and> 0xfe80 \<le> unat (seg0 ip) \<and> unat (seg0 ip) < 0xfec0) \<or>
     (\<exists>name. h = HostDomain name \<and>
        (\<exists>b\<in>{''metadata.google.internal'', ''metadata'', ''instance-data''}. eq_ignore_ascii_case (without_root_dot name) b))"

definition rule_private :: "request_credential \<Rightarrow> host \<Rightarrow> bool" where
  "rule_private credential h \<longleftrightarrow>
     (\<exists>v4. h \<in> set (spellings v4) \<and>
        (in_cidr 127 0 8 v4 \<or> in_cidr 10 0 8 v4 \<or> in_cidr 172 16 12 v4 \<or> in_cidr 192 168 16 v4 \<or>
         credential = NoCredential \<and> in_cidr 100 64 10 v4)) \<or>
     (\<exists>ip. h = HostIpv6 ip \<and> (ip = Ipv6 0 0 0 0 0 0 0 1 \<or> 0xfc00 \<le> unat (seg0 ip) \<and> unat (seg0 ip) < 0xfe00)) \<or>
     (\<exists>name. h = HostDomain name \<and>
        (eq_ignore_ascii_case (without_root_dot name) ''localhost'' \<or>
         credential = NoCredential \<and> CHR ''.'' \<notin> set (without_root_dot name)))"

lemma metadata_iff: "v4 \<in> set BLOCKED_METADATA_IPV4 \<longleftrightarrow> metadata_ipv4 v4"
proof -
  have "ipv4_of_octets 100 100 100 200 = 0x646464c8" "ipv4_of_octets 100 100 100 100 = 0x64646464"
    by (simp_all add: ipv4_of_octets_def)
  then show ?thesis
    by (auto simp: BLOCKED_METADATA_IPV4_def metadata_ipv4_def ipv4_nat_def word_unat_eq_iff)
qed

lemma blocked_v4: "blocked_ipv4 v4 \<longleftrightarrow> in_cidr 169 254 16 v4 \<or> v4 = 0 \<or> metadata_ipv4 v4"
  by (simp add: blocked_ipv4_def link_local_range is_unspecified_def metadata_iff)

lemma private_v4:
  "private_ipv4 credential v4 \<longleftrightarrow>
     in_cidr 127 0 8 v4 \<or> in_cidr 10 0 8 v4 \<or> in_cidr 172 16 12 v4 \<or> in_cidr 192 168 16 v4 \<or>
     credential = NoCredential \<and> in_cidr 100 64 10 v4"
  by (auto simp: private_ipv4_def loopback_range private_ranges cgnat_range)

lemma spelling_v4: "HostIpv4 ip \<in> set (spellings v4) \<longleftrightarrow> ip = v4"
  by (auto simp: spellings_def)

lemma spelling_v6:
  "HostIpv6 ip \<in> set (spellings v4) \<longleftrightarrow>
     embedded_ipv4 ip = Some v4 \<or> embedded_ipv4 ip = None \<and> ip = compatible v4 \<and> \<not> 1 < v4"
proof (cases "ip = compatible v4 \<and> \<not> 1 < v4")
  case True
  have "embedded_ipv4 ip = None"
  proof (rule ccontr)
    assume "embedded_ipv4 ip \<noteq> None"
    then obtain w where "embedded_ipv4 ip = Some w" by blast
    then show False using True unfolding embedded_iff
      by (auto simp: mapped_def compatible_def nat64_def) (metis segments_halves)+
  qed
  then show ?thesis using True by (simp add: spellings_def)
qed (auto simp: spellings_def embedded_iff)

lemma low_words: "\<not> 1 < (v4 :: ipv4) \<longleftrightarrow> v4 = 0 \<or> v4 = 1"
  by (metis not_less_iff_gr_or_eq word_gt_0 word_less_1 leI linorder_neqE)

lemma halves_01: "compatible 0 = Ipv6 0 0 0 0 0 0 0 0" "compatible 1 = Ipv6 0 0 0 0 0 0 0 1"
  by (simp_all add: compatible_def high_half_def low_half_def)

lemma compatible_inj: "compatible v = compatible w \<longleftrightarrow> v = w"
  by (auto simp: compatible_def) (metis segments_halves)

lemma embedded_segment: "embedded_ipv4 ip = Some v4 \<Longrightarrow> seg0 ip \<in> {0, 0x64}"
  by (auto simp: embedded_iff mapped_def compatible_def nat64_def)

lemma low_not_in_cidr: "v4 \<in> {0, 1} \<Longrightarrow> 0 < a \<Longrightarrow> \<not> in_cidr a b len v4"
  by (auto simp: in_cidr_def ipv4_nat_def)

lemma low_not_metadata: "v4 \<in> {0, 1} \<Longrightarrow> \<not> metadata_ipv4 v4"
  by (auto simp: metadata_ipv4_def ipv4_nat_def)

lemma spelling_v6_None:
  "embedded_ipv4 ip = None \<Longrightarrow>
   HostIpv6 ip \<in> set (spellings v4) \<longleftrightarrow>
     v4 = 0 \<and> ip = Ipv6 0 0 0 0 0 0 0 0 \<or> v4 = 1 \<and> ip = Ipv6 0 0 0 0 0 0 0 1"
  using low_words[of v4] halves_01 by (auto simp: spelling_v6)

lemma blocked_v6:
  "rule_blocks (HostIpv6 ip) \<longleftrightarrow>
     (case embedded_ipv4 ip of Some v4 \<Rightarrow> blocked_ipv4 v4 | None \<Rightarrow> is_ipv6_link_local ip \<or> is_unspecified6 ip)"
proof (cases "embedded_ipv4 ip")
  case None
  have "(\<exists>v4. HostIpv6 ip \<in> set (spellings v4) \<and> blocked_ipv4 v4) \<longleftrightarrow> ip = Ipv6 0 0 0 0 0 0 0 0"
    using low_not_in_cidr[of 1 169 254 16] low_not_metadata[of 1]
    by (auto simp: spelling_v6_None[OF None] blocked_v4)
  then show ?thesis
    using None by (auto simp: rule_blocks_def blocked_v4 ipv6_link_local_range is_unspecified6_def)
next
  case (Some w)
  have "unat (seg0 ip) \<in> {0, 100}" using embedded_segment[OF Some] by auto
  then show ?thesis using Some by (auto simp: rule_blocks_def blocked_v4 spelling_v6)
qed

lemma private_v6:
  "rule_private credential (HostIpv6 ip) \<longleftrightarrow>
     (case embedded_ipv4 ip of Some v4 \<Rightarrow> private_ipv4 credential v4 | None \<Rightarrow> is_loopback6 ip \<or> is_ipv6_ula ip)"
proof (cases "embedded_ipv4 ip")
  case None
  have "\<not> private_ipv4 credential v4" if "HostIpv6 ip \<in> set (spellings v4)" for v4
  proof -
    have "v4 \<in> {0, 1}" using that by (auto simp: spelling_v6_None[OF None])
    from low_not_in_cidr[OF this] show ?thesis by (simp add: private_v4)
  qed
  then show ?thesis
    using None by (auto simp: rule_private_def private_v4[symmetric] ipv6_ula_range is_loopback6_def)
next
  case (Some w)
  have "unat (seg0 ip) \<in> {0, 100}" using embedded_segment[OF Some] by auto
  moreover have "ip \<noteq> Ipv6 0 0 0 0 0 0 0 1"
  proof
    assume ip: "ip = Ipv6 0 0 0 0 0 0 0 1"
    then have "ip = compatible w \<and> 1 < w" using Some by (auto simp: embedded_iff mapped_def nat64_def)
    then show False using ip halves_01(2) compatible_inj[of 1 w] by auto
  qed
  ultimately show ?thesis using Some by (auto simp: rule_private_def private_v4[symmetric] spelling_v6)
qed

lemma is_blocked_target_rule:
  "is_blocked_target u \<longleftrightarrow> (case url_host u of Some h \<Rightarrow> rule_blocks h | None \<Rightarrow> False)"
proof (cases "url_host u")
  case (Some h)
  show ?thesis
  proof (cases h)
    case (HostIpv4 ip)
    then show ?thesis using Some by (simp add: is_blocked_target_def rule_blocks_def spelling_v4 blocked_v4)
  next
    case (HostIpv6 ip)
    then show ?thesis using Some by (simp add: is_blocked_target_def blocked_v6)
  next
    case (HostDomain name)
    then show ?thesis using Some
      by (auto simp: is_blocked_target_def rule_blocks_def spellings_def BLOCKED_METADATA_HOSTNAMES_def)
  qed
qed (simp add: is_blocked_target_def)

lemma is_private_target_rule:
  "is_private_target credential u \<longleftrightarrow> (case url_host u of Some h \<Rightarrow> rule_private credential h | None \<Rightarrow> False)"
proof (cases "url_host u")
  case (Some h)
  show ?thesis
  proof (cases h)
    case (HostIpv4 ip)
    then show ?thesis using Some by (simp add: is_private_target_def rule_private_def spelling_v4 private_v4)
  next
    case (HostIpv6 ip)
    then show ?thesis using Some by (simp add: is_private_target_def private_v6)
  next
    case (HostDomain name)
    then show ?thesis using Some
      by (auto simp: is_private_target_def rule_private_def spellings_def Let_def)
  qed
qed (simp add: is_private_target_def)

text \<open>
  C24: Which URLs the policy accepts. For every parser, a URL is accepted exactly if it parses, its
  host is not blocked, and it is \<open>https\<close>, or \<open>http\<close> to a host that is private for the request. The
  blocked hosts are 169.254.0.0/16, 0.0.0.0 and the two metadata addresses, in each of the four
  ways an IPv4 address can be written (plain, mapped, compatible, NAT64), fe80::/10 and the
  metadata names; the private ones are 127/8, 10/8, 172.16/12 and 192.168/16 in every spelling, the
  IPv6 loopback, fc00::/7 and \<open>localhost\<close>, and without a credential also 100.64/10 and bare names.
  A refusal tells a blocked target from an insecure and an unknown scheme, in this order.
\<close>

theorem url_policy_implements_its_rule:
  "(validate_remote_url parse raw credential = Inr () \<longleftrightarrow>
      (\<exists>u. parse raw = Inr u \<and> \<not> (\<exists>h. url_host u = Some h \<and> rule_blocks h) \<and>
         (url_scheme u = ''https'' \<or>
          url_scheme u = ''http'' \<and> (\<exists>h. url_host u = Some h \<and> rule_private credential h)))) \<and>
   (validate_remote_url parse raw credential = Inl (BlockedTarget raw) \<longleftrightarrow>
      (\<exists>u h. parse raw = Inr u \<and> url_host u = Some h \<and> rule_blocks h)) \<and>
   (validate_remote_url parse raw CredentialAttached = Inr () \<and>
      validate_remote_url parse raw NoCredential \<noteq> Inr ()) = False"
proof -
  have mono: "rule_private CredentialAttached h \<Longrightarrow> rule_private NoCredential h" for h
    by (auto simp: rule_private_def)
  have val: "validate_remote_url parse raw c =
      (case parse raw of Inl reason \<Rightarrow> Inl (Malformed raw reason)
       | Inr u \<Rightarrow> if \<exists>h. url_host u = Some h \<and> rule_blocks h then Inl (BlockedTarget raw)
          else if url_scheme u = ''https'' then Inr ()
          else if url_scheme u = ''http''
          then (if \<exists>h. url_host u = Some h \<and> rule_private c h then Inr () else Inl (InsecureScheme raw))
          else Inl (SchemeNotAllowed raw (url_scheme u)))" for c
    by (auto simp: validate_remote_url_def is_blocked_target_rule is_private_target_rule split: sum.split option.split)
  show ?thesis
  proof (cases "parse raw")
    case (Inl reason)
    then show ?thesis by (simp add: val)
  next
    case (Inr u)
    then show ?thesis using mono by (auto simp: val split: if_splits)
  qed
qed

end
