(* ===== verification/Sanitize.thy ===== *)
theory Sanitize
  imports Tool_Provenance
begin

text \<open>
  What the assistant's text goes through before it is shown, and what an error text goes through
  before it leaves the machine (\<^verbatim>\<open>core/src/sanitize.rs\<close>).

  \<^item> \<open>strip_think_blocks\<close> removes the reasoning a model writes between its tags, from a whole reply;
    \<open>sanitizer_push\<close> is the streaming form, which holds back what may still become a tag.
  \<^item> The locale \<open>incremental\<close> is the contract of a stage that sees its input in pieces: what it has
    put out, and what it would put out for the rest, is what a batch run makes of the whole. The
    sanitizer is interpreted in it.
  \<^item> \<open>redact_secrets\<close> replaces the tokens of an error text that look like credentials.
  \<^item> Strings are bytes. The tags, the letters and the digits the code tests for are ASCII, so a
    byte of a longer character is never one of them.
\<close>

section \<open>Searching\<close>

text \<open>\<^verbatim>\<open>str::find\<close>: the index of the first occurrence.\<close>

fun str_find :: "string \<Rightarrow> string \<Rightarrow> nat option" where
  "str_find pat [] = (if pat = [] then Some 0 else None)"
| "str_find pat (c # s) = (if prefix pat (c # s) then Some 0 else map_option Suc (str_find pat s))"

text \<open>\<^verbatim>\<open>str::replace\<close>: from the left, without overlaps. A pattern is never empty here.\<close>

function str_replace :: "string \<Rightarrow> string \<Rightarrow> string \<Rightarrow> string" where
  "str_replace pat by_text [] = []"
| "str_replace pat by_text (c # s) =
     (if pat \<noteq> [] \<and> prefix pat (c # s) then by_text @ str_replace pat by_text (drop (length pat) (c # s))
      else c # str_replace pat by_text s)"
  by pat_completeness auto
termination
  by (relation "measure (\<lambda>(_, _, s). length s)") (auto simp: prefix_def)

lemma str_find_Some_iff:
  "str_find pat s = Some i \<longleftrightarrow> i \<le> length s \<and> prefix pat (drop i s) \<and> (\<forall>j < i. \<not> prefix pat (drop j s))"
proof (induction s arbitrary: i)
  case (Cons c s)
  show ?case
  proof (cases i)
    case (Suc k)
    have all: "(\<forall>j < Suc k. P j) \<longleftrightarrow> P 0 \<and> (\<forall>j < k. P (Suc j))" for P
      using less_Suc_eq_0_disj by auto
    show ?thesis using Cons[of k] by (simp add: Suc all)
  qed simp
qed auto

lemma str_find_None_iff: "str_find pat s = None \<longleftrightarrow> (\<forall>j \<le> length s. \<not> prefix pat (drop j s))"
proof (induction s)
  case (Cons c s)
  have all: "(\<forall>j \<le> Suc n. P j) \<longleftrightarrow> P 0 \<and> (\<forall>j \<le> n. P (Suc j))" for P n
    by (metis Suc_le_mono le0 not0_implies_Suc)
  show ?case using Cons by (simp add: all)
qed simp

lemma str_find_len: "str_find pat s = Some i \<Longrightarrow> i + length pat \<le> length s"
  by (auto simp: str_find_Some_iff dest!: prefix_length_le)

text \<open>An occurrence stays the first when more text arrives.\<close>

lemma str_find_append:
  assumes "str_find pat s = Some i"
  shows "str_find pat (s @ r) = Some i"
  unfolding str_find_Some_iff
proof (intro conjI allI impI)
  note len = str_find_len[OF assms]
  show "i \<le> length (s @ r)" using len by simp
  show "prefix pat (drop i (s @ r))" using assms len by (auto simp: str_find_Some_iff intro: prefix_order.trans)
  show "\<not> prefix pat (drop j (s @ r))" if "j < i" for j
  proof
    assume "prefix pat (drop j (s @ r))"
    then have "prefix pat (drop j s @ r)" using that len by simp
    moreover have "length pat \<le> length (drop j s)" using that len by simp
    ultimately have "prefix pat (drop j s)" by (metis prefix_length_prefix prefixI)
    then show False using assms that by (simp add: str_find_Some_iff)
  qed
qed

lemma str_find_skip:
  assumes "\<And>j. j < length a \<Longrightarrow> \<not> prefix pat (drop j (a @ b))"
  shows "str_find pat (a @ b) = map_option ((+) (length a)) (str_find pat b)"
  using assms
proof (induction a)
  case (Cons c a)
  have "\<not> prefix pat (drop j (a @ b))" if "j < length a" for j using Cons.prems[of "Suc j"] that by simp
  moreover have "\<not> prefix pat (c # a @ b)" using Cons.prems[of 0] by simp
  ultimately show ?case using Cons.IH by (simp add: option.map_comp comp_def)
qed (cases "str_find pat b"; simp)

section \<open>Reasoning blocks\<close>

definition THINK_OPEN :: string where "THINK_OPEN = ''<think>''"
definition THINK_CLOSE :: string where "THINK_CLOSE = ''</think>''"

lemmas tag_defs = THINK_OPEN_def THINK_CLOSE_def

function strip_think_blocks :: "string \<Rightarrow> string" where
  "strip_think_blocks s =
     (case str_find THINK_OPEN s of
        None \<Rightarrow> s
      | Some start \<Rightarrow>
          take start s @
          (case str_find THINK_CLOSE (drop (start + length THINK_OPEN) s) of
             Some fin \<Rightarrow> strip_think_blocks (drop (fin + length THINK_CLOSE) (drop (start + length THINK_OPEN) s))
           | None \<Rightarrow> []))"
  by pat_completeness auto
termination
  by (relation "measure length") (auto dest!: str_find_len simp: tag_defs)

declare strip_think_blocks.simps [simp del]

definition LF3 :: string where "LF3 = [CHR 0x0A, CHR 0x0A, CHR 0x0A]"
definition LF2 :: string where "LF2 = [CHR 0x0A, CHR 0x0A]"

lemma str_replace_shorter: "length by_text \<le> length pat \<Longrightarrow> length (str_replace pat by_text s) \<le> length s"
proof (induction pat by_text s rule: str_replace.induct)
  case (2 pat by_text c s)
  show ?case
  proof (cases "pat \<noteq> [] \<and> prefix pat (c # s)")
    case True
    then have "length pat \<le> length (c # s)" by (auto dest: prefix_length_le)
    then show ?thesis using 2(1)[OF True 2(3)] 2(3) True by simp
  qed (use 2 in auto)
qed simp

lemma str_replace_LF3: "contains_str LF3 s \<Longrightarrow> length (str_replace LF3 LF2 s) < length s"
proof (induction LF3 LF2 s rule: str_replace.induct)
  case (2 c s)
  show ?case
  proof (cases "prefix LF3 (c # s)")
    case True
    then have "length LF3 \<le> length (c # s)" by (rule prefix_length_le)
    moreover have "length (str_replace LF3 LF2 (drop (length LF3) (c # s))) \<le> length (drop (length LF3) (c # s))"
      by (rule str_replace_shorter) (simp add: LF3_def LF2_def)
    moreover have "LF3 \<noteq> []" "length LF3 = 3" "length LF2 = 2" by (simp_all add: LF3_def LF2_def)
    ultimately show ?thesis using True by simp
  next
    case False
    then show ?thesis using 2 by auto
  qed
qed (simp add: LF3_def)

function collapse_lines :: "string \<Rightarrow> string" where
  "collapse_lines s = (if contains_str LF3 s then collapse_lines (str_replace LF3 LF2 s) else s)"
  by pat_completeness auto
termination
  by (relation "measure length") (simp_all add: str_replace_LF3)

declare collapse_lines.simps [simp del]

definition sanitize_assistant_text :: "string \<Rightarrow> string" where
  "sanitize_assistant_text s = collapse_lines (trim (strip_think_blocks s))"

text \<open>The loop \<^verbatim>\<open>for len in (1..tag.len()).rev()\<close>.\<close>

fun tag_prefix_len_from :: "nat \<Rightarrow> string \<Rightarrow> string \<Rightarrow> nat" where
  "tag_prefix_len_from 0 s tag = 0"
| "tag_prefix_len_from (Suc n) s tag =
     (if suffix (take (Suc n) tag) s then Suc n else tag_prefix_len_from n s tag)"

definition trailing_tag_prefix_len :: "string \<Rightarrow> string \<Rightarrow> nat" where
  "trailing_tag_prefix_len s tag = tag_prefix_len_from (length tag - 1) s tag"

definition sanitize_assistant_text_for_stream :: "string \<Rightarrow> string" where
  "sanitize_assistant_text_for_stream s =
     (let out = strip_think_blocks s in take (length out - trailing_tag_prefix_len out THINK_OPEN) out)"

record stream_sanitizer =
  ss_pending :: string
  ss_in_think :: bool

definition stream_sanitizer_new :: stream_sanitizer where
  "stream_sanitizer_new = \<lparr>ss_pending = [], ss_in_think = False\<rparr>"

text \<open>The loop of \<^verbatim>\<open>push\<close>, on the pending text and the flag; it returns what is newly visible.\<close>

function push_loop :: "bool \<Rightarrow> string \<Rightarrow> string \<times> bool \<times> string" where
  "push_loop True pending =
     (case str_find THINK_CLOSE pending of
        Some fin \<Rightarrow> push_loop False (drop (fin + length THINK_CLOSE) pending)
      | None \<Rightarrow> ([], True, drop (length pending - trailing_tag_prefix_len pending THINK_CLOSE) pending))"
| "push_loop False pending =
     (case str_find THINK_OPEN pending of
        Some start \<Rightarrow>
          (let (out, st) = push_loop True (drop (start + length THINK_OPEN) pending) in (take start pending @ out, st))
      | None \<Rightarrow>
          (let emit = length pending - trailing_tag_prefix_len pending THINK_OPEN
           in (take emit pending, False, drop emit pending)))"
  by pat_completeness auto
termination
  by (relation "measure (\<lambda>(_, s). length s)") (auto dest!: str_find_len simp: tag_defs)

definition sanitizer_push :: "stream_sanitizer \<Rightarrow> string \<Rightarrow> string \<times> stream_sanitizer" where
  "sanitizer_push s chunk =
     (let (out, in_think, pending) = push_loop (ss_in_think s) (ss_pending s @ chunk)
      in (out, \<lparr>ss_pending = pending, ss_in_think = in_think\<rparr>))"

section \<open>A stage that sees its input in pieces\<close>

text \<open>
  \<open>step\<close> takes the next piece and puts something out; \<open>whole st s\<close> is what a batch run makes of \<open>s\<close>
  from the state \<open>st\<close>. The law: what a step puts out is what the batch run starts with, whatever comes
  after the piece.
\<close>

locale incremental =
  fixes step :: "'s \<Rightarrow> 'a list \<Rightarrow> 'b list \<times> 's"
    and whole :: "'s \<Rightarrow> 'a list \<Rightarrow> 'b list"
  assumes step_whole: "step st piece = (out, st') \<Longrightarrow> whole st (piece @ rest) = out @ whole st' rest"
begin

fun run :: "'s \<Rightarrow> 'a list list \<Rightarrow> 'b list \<times> 's" where
  "run st [] = ([], st)"
| "run st (piece # pieces) = (let (out, st') = step st piece; (more, st'') = run st' pieces in (out @ more, st''))"

lemma run_whole: "run st pieces = (out, st') \<Longrightarrow> whole st (concat pieces @ rest) = out @ whole st' rest"
proof (induction pieces arbitrary: st out)
  case (Cons piece pieces)
  obtain o1 st1 where 1: "step st piece = (o1, st1)" by fastforce
  obtain o2 where 2: "run st1 pieces = (o2, st')" "out = o1 @ o2"
    using Cons.prems 1 by (auto split: prod.splits)
  show ?case using Cons.IH[OF 2(1)] step_whole[OF 1, of "concat pieces @ rest"] 2(2) by simp
qed simp

end

text \<open>The streaming sanitizer over the chunks of a reply.\<close>

fun sanitize_stream :: "stream_sanitizer \<Rightarrow> string list \<Rightarrow> string \<times> stream_sanitizer" where
  "sanitize_stream st [] = ([], st)"
| "sanitize_stream st (chunk # chunks) =
     (let (out, st') = sanitizer_push st chunk; (more, st'') = sanitize_stream st' chunks in (out @ more, st''))"

definition visible_from :: "bool \<Rightarrow> string \<Rightarrow> string" where
  "visible_from in_think s =
     (if in_think
      then (case str_find THINK_CLOSE s of
              Some fin \<Rightarrow> strip_think_blocks (drop (fin + length THINK_CLOSE) s)
            | None \<Rightarrow> [])
      else strip_think_blocks s)"

lemma strip_visible:
  "strip_think_blocks s =
     (case str_find THINK_OPEN s of
        None \<Rightarrow> s
      | Some start \<Rightarrow> take start s @ visible_from True (drop (start + length THINK_OPEN) s))"
  by (subst strip_think_blocks.simps) (simp add: visible_from_def split: option.split)

lemma tag_prefix_len_from_le: "tag_prefix_len_from n s tag \<le> n"
  by (induction n) auto

lemma tag_prefix_len_from_maximal:
  "tag_prefix_len_from n s tag < k \<Longrightarrow> k \<le> n \<Longrightarrow> \<not> suffix (take k tag) s"
  by (induction n) (auto simp: le_Suc_eq split: if_splits)

lemma tag_prefix_len_from_suffix: "suffix (take (tag_prefix_len_from n s tag) tag) s"
  by (induction n) auto

lemma trailing_bounds:
  "trailing_tag_prefix_len s tag \<le> length tag - 1" "trailing_tag_prefix_len s tag \<le> length s"
proof -
  show le: "trailing_tag_prefix_len s tag \<le> length tag - 1"
    by (simp add: trailing_tag_prefix_len_def tag_prefix_len_from_le)
  have "suffix (take (trailing_tag_prefix_len s tag) tag) s"
    by (simp add: trailing_tag_prefix_len_def tag_prefix_len_from_suffix)
  then show "trailing_tag_prefix_len s tag \<le> length s"
    using le by (auto dest!: suffix_length_le)
qed

text \<open>No occurrence of the tag starts in the part that is let go, however the text goes on.\<close>

lemma no_tag_before_tail:
  assumes "str_find tag s = None" and "tag \<noteq> []" and "j < length s - trailing_tag_prefix_len s tag"
  shows "\<not> prefix tag (drop j (s @ r))"
proof
  assume pre: "prefix tag (drop j (s @ r))"
  have j: "j < length s" using assms(3) by simp
  have pre': "prefix tag (drop j s @ r)" using pre j by simp
  show False
  proof (cases "length tag \<le> length s - j")
    case True
    then have "prefix tag (drop j s)" using pre' by (metis length_drop prefix_length_prefix prefixI)
    then show False using assms(1) j by (auto simp: str_find_None_iff)
  next
    case False
    let ?k = "length s - j"
    obtain u where u: "drop j s @ r = tag @ u" using pre' by (rule prefixE)
    have "take ?k (drop j s @ r) = take ?k (tag @ u)" by (simp only: u)
    then have "take ?k tag = drop j s" using False by simp
    then have "suffix (take ?k tag) s" by (simp add: suffix_drop)
    moreover have "trailing_tag_prefix_len s tag < ?k" "?k \<le> length tag - 1" using assms(3) False j by auto
    ultimately show False using tag_prefix_len_from_maximal[of "length tag - 1" s tag ?k]
      by (simp add: trailing_tag_prefix_len_def)
  qed
qed

lemma find_after_tail:
  assumes "str_find tag s = None" and "tag \<noteq> []"
  defines "emit \<equiv> length s - trailing_tag_prefix_len s tag"
  shows "str_find tag (s @ r) = map_option ((+) emit) (str_find tag (drop emit s @ r))"
proof -
  have eq: "take emit s @ drop emit s @ r = s @ r" by simp
  have len: "length (take emit s) = emit" by (simp add: emit_def)
  have "\<not> prefix tag (drop j (take emit s @ drop emit s @ r))" if "j < length (take emit s)" for j
    using no_tag_before_tail[OF assms(1,2), of j r] that unfolding eq len by (simp add: emit_def)
  from str_find_skip[OF this] show ?thesis unfolding eq len .
qed

lemma push_loop_visible:
  "push_loop b p = (out, b', p') \<Longrightarrow> visible_from b (p @ r) = out @ visible_from b' (p' @ r)"
proof (induction b p arbitrary: out rule: push_loop.induct)
  case (1 p)
  show ?case
  proof (cases "str_find THINK_CLOSE p")
    case (Some fin)
    have "fin + length THINK_CLOSE \<le> length p" by (rule str_find_len[OF Some])
    then have "visible_from True (p @ r) = visible_from False (drop (fin + length THINK_CLOSE) p @ r)"
      by (simp add: visible_from_def str_find_append[OF Some])
    then show ?thesis using 1(1)[OF Some] 1(2) Some by simp
  next
    case None
    let ?emit = "length p - trailing_tag_prefix_len p THINK_CLOSE"
    have "str_find THINK_CLOSE (p @ r) = map_option ((+) ?emit) (str_find THINK_CLOSE (drop ?emit p @ r))"
      by (rule find_after_tail[OF None]) (simp add: tag_defs)
    moreover have "drop (?emit + k) (p @ r) = drop k (drop ?emit p @ r)" for k by (simp add: add.commute)
    ultimately show ?thesis using 1(2) None
      by (auto simp: visible_from_def add.assoc split: option.split)
  qed
next
  case (2 p)
  show ?case
  proof (cases "str_find THINK_OPEN p")
    case (Some start)
    have len: "start + length THINK_OPEN \<le> length p" by (rule str_find_len[OF Some])
    obtain o1 where o1: "push_loop True (drop (start + length THINK_OPEN) p) = (o1, b', p')" "out = take start p @ o1"
      using 2(2) Some by (auto split: prod.splits)
    have "visible_from False (p @ r) = take start p @ visible_from True (drop (start + length THINK_OPEN) p @ r)"
      using len by (simp add: visible_from_def[of False] strip_visible[of "p @ r"] str_find_append[OF Some])
    then show ?thesis using 2(1)[OF Some o1(1)] o1(2) by simp
  next
    case None
    let ?emit = "length p - trailing_tag_prefix_len p THINK_OPEN"
    have find: "str_find THINK_OPEN (p @ r) = map_option ((+) ?emit) (str_find THINK_OPEN (drop ?emit p @ r))"
      by (rule find_after_tail[OF None]) (simp add: tag_defs)
    have split: "p @ r = take ?emit p @ (drop ?emit p @ r)" by simp
    have "strip_think_blocks (p @ r) = take ?emit p @ strip_think_blocks (drop ?emit p @ r)"
    proof (cases "str_find THINK_OPEN (drop ?emit p @ r)")
      case None
      then show ?thesis using find strip_visible[of "p @ r"] strip_visible[of "drop ?emit p @ r"] by simp
    next
      case (Some e)
      have "take (?emit + e) (p @ r) = take ?emit p @ take e (drop ?emit p @ r)"
        "drop (?emit + e + length THINK_OPEN) (p @ r) = drop (e + length THINK_OPEN) (drop ?emit p @ r)"
        by (subst split, simp)+
      then show ?thesis using Some find strip_visible[of "p @ r"] strip_visible[of "drop ?emit p @ r"] by simp
    qed
    then show ?thesis using 2(2) None by (auto simp: visible_from_def Let_def)
  qed
qed

lemma trailing_tail: "drop (length s - trailing_tag_prefix_len s tag) s = take (trailing_tag_prefix_len s tag) tag"
proof -
  obtain u where u: "s = u @ take (trailing_tag_prefix_len s tag) tag"
    using tag_prefix_len_from_suffix[of "length tag - 1" s tag]
    by (auto simp: trailing_tag_prefix_len_def suffix_def)
  have "length (take (trailing_tag_prefix_len s tag) tag) = trailing_tag_prefix_len s tag"
    using trailing_bounds(1)[of s tag] by simp
  then show ?thesis using u by (metis append_eq_conv_conj diff_add_inverse2 length_append)
qed

text \<open>What is held back is a proper beginning of the tag that would change the mode.\<close>

definition pending_ok :: "bool \<Rightarrow> string \<Rightarrow> bool" where
  "pending_ok in_think p \<longleftrightarrow> strict_prefix p (if in_think then THINK_CLOSE else THINK_OPEN)"

lemma take_trailing_strict: "tag \<noteq> [] \<Longrightarrow> strict_prefix (take (trailing_tag_prefix_len s tag) tag) tag"
proof -
  assume "tag \<noteq> []"
  then have "length (take (trailing_tag_prefix_len s tag) tag) < length tag"
    using trailing_bounds(1)[of s tag] by (cases tag) auto
  then have "take (trailing_tag_prefix_len s tag) tag \<noteq> tag" by (metis less_irrefl)
  then show ?thesis by (simp add: strict_prefix_def take_is_prefix)
qed

lemma push_loop_pending: "push_loop b p = (out, b', p') \<Longrightarrow> pending_ok b' p'"
proof (induction b p arbitrary: out rule: push_loop.induct)
  case (1 p)
  show ?case
  proof (cases "str_find THINK_CLOSE p")
    case None
    have "THINK_CLOSE \<noteq> []" by (simp add: tag_defs)
    then show ?thesis using 1(2) None take_trailing_strict[of THINK_CLOSE p]
      by (simp add: pending_ok_def trailing_tail)
  qed (use 1 in simp)
next
  case (2 p)
  show ?case
  proof (cases "str_find THINK_OPEN p")
    case None
    have "THINK_OPEN \<noteq> []" by (simp add: tag_defs)
    then show ?thesis using 2(2) None take_trailing_strict[of THINK_OPEN p]
      by (simp add: pending_ok_def trailing_tail Let_def)
  next
    case (Some start)
    then show ?thesis using 2 by (auto split: prod.splits)
  qed
qed

lemma find_in_shorter: "length s < length pat \<Longrightarrow> str_find pat s = None"
  by (auto simp: str_find_None_iff dest!: prefix_length_le)

lemma pending_visible: "pending_ok b p \<Longrightarrow> visible_from b p = (if b then [] else p)"
  by (auto simp: pending_ok_def visible_from_def strip_visible find_in_shorter prefix_length_less)

interpretation stream: incremental sanitizer_push "\<lambda>st s. visible_from (ss_in_think st) (ss_pending st @ s)"
proof
  fix st piece out st' rest
  assume "sanitizer_push st piece = (out, st')"
  then have "push_loop (ss_in_think st) (ss_pending st @ piece) = (out, ss_in_think st', ss_pending st')"
    by (auto simp: sanitizer_push_def split: prod.splits)
  from push_loop_visible[OF this, of rest]
  show "visible_from (ss_in_think st) (ss_pending st @ piece @ rest) = out @ visible_from (ss_in_think st') (ss_pending st' @ rest)"
    by simp
qed

lemma sanitize_stream_run: "sanitize_stream st chunks = stream.run st chunks"
  by (induction chunks arbitrary: st) auto

lemma sanitize_stream_pending:
  "sanitize_stream st chunks = (out, st') \<Longrightarrow> pending_ok (ss_in_think st) (ss_pending st) \<Longrightarrow>
   pending_ok (ss_in_think st') (ss_pending st')"
proof (induction chunks arbitrary: st out)
  case (Cons chunk chunks)
  obtain o1 st1 where 1: "sanitizer_push st chunk = (o1, st1)" by fastforce
  have "pending_ok (ss_in_think st1) (ss_pending st1)"
    using 1 by (auto simp: sanitizer_push_def intro: push_loop_pending split: prod.splits)
  then show ?case using Cons.IH[of st1] Cons.prems(1) 1 by (auto split: prod.splits)
qed simp

text \<open>
  C13: A streamed reply shows exactly what the finished reply keeps. However a reply is cut into chunks, the
  text the streaming sanitizer has let through, followed by what it still holds back outside a reasoning
  block, is the whole reply with its reasoning blocks removed. What it holds back is a proper beginning
  of a tag, at most seven bytes, so that the display never lags further behind, and nothing from inside a
  block is ever shown.
\<close>

theorem stream_shows_what_batch_keeps:
  "case sanitize_stream stream_sanitizer_new chunks of
     (out, st) \<Rightarrow>
       strip_think_blocks (concat chunks) = out @ (if ss_in_think st then [] else ss_pending st) \<and>
       strict_prefix (ss_pending st) (if ss_in_think st then THINK_CLOSE else THINK_OPEN)"
proof -
  obtain out st where run: "sanitize_stream stream_sanitizer_new chunks = (out, st)" by fastforce
  have "pending_ok (ss_in_think st) (ss_pending st)"
    by (rule sanitize_stream_pending[OF run]) (simp add: stream_sanitizer_new_def pending_ok_def tag_defs)
  moreover from this have "visible_from (ss_in_think st) (ss_pending st) = (if ss_in_think st then [] else ss_pending st)"
    by (rule pending_visible)
  moreover have "stream.run stream_sanitizer_new chunks = (out, st)" using run by (simp add: sanitize_stream_run)
  from stream.run_whole[OF this, of "[]"]
  have "strip_think_blocks (concat chunks) = out @ visible_from (ss_in_think st) (ss_pending st)"
    by (simp add: stream_sanitizer_new_def visible_from_def)
  ultimately show ?thesis using run by (simp add: pending_ok_def)
qed

text \<open>
  The streaming form is documented to be identical to a batch form that cuts a partial tag off the end of
  the stripped text. It is not where a partial tag stands before a block: the block decides that the
  partial tag is text, and the stream has shown it.
\<close>

lemma stream_is_not_the_documented_batch:
  "fst (sanitize_stream stream_sanitizer_new [''<th<think>x</think>'']) = ''<th''"
  "sanitize_assistant_text_for_stream ''<th<think>x</think>'' = []"
  by (simp_all add: sanitizer_push_def stream_sanitizer_new_def sanitize_assistant_text_for_stream_def tag_defs
      strip_think_blocks.simps trailing_tag_prefix_len_def suffix_def)

lemma collapse_lines_done: "\<not> contains_str LF3 (collapse_lines s)"
proof (induction s rule: collapse_lines.induct)
  case (1 s)
  then show ?case by (cases "contains_str LF3 s") (simp_all add: collapse_lines.simps[of s])
qed

text \<open>A finished reply has no two blank lines in a row.\<close>

lemma sanitized_has_no_double_blank: "\<not> contains_str LF3 (sanitize_assistant_text s)"
  by (simp add: sanitize_assistant_text_def collapse_lines_done)

section \<open>Redaction\<close>

definition SECRET_PREFIXES :: "string list" where
  "SECRET_PREFIXES = [''AKIA'', ''ASIA'', ''sk-'', ''xoxb-'', ''xoxp-'', ''ghp_'', ''github_pat_'', ''AIza'']"

definition is_secret_byte :: "char \<Rightarrow> bool" where
  "is_secret_byte c \<longleftrightarrow> is_ascii_alphanumeric c \<or> c \<in> set ''+/_=-.''"

definition is_ascii_alphabetic :: "char \<Rightarrow> bool" where
  "is_ascii_alphabetic c \<longleftrightarrow> is_ascii_alphanumeric c \<and> \<not> is_digit_byte c"

definition looks_like_secret :: "string \<Rightarrow> bool" where
  "looks_like_secret s \<longleftrightarrow>
     list_ex (\<lambda>p. prefix p s) SECRET_PREFIXES \<or>
     (20 \<le> length s \<and> list_all is_secret_byte s \<and> list_ex is_digit_byte s \<and> list_ex is_ascii_alphabetic s)"

text \<open>\<^verbatim>\<open>token.trim_matches(|c| !c.is_ascii_alphanumeric())\<close>\<close>

definition token_core :: "string \<Rightarrow> string" where
  "token_core s =
     rev (dropWhile (\<lambda>c. \<not> is_ascii_alphanumeric c) (rev (dropWhile (\<lambda>c. \<not> is_ascii_alphanumeric c) s)))"

definition REDACTED :: string where "REDACTED = ''[REDACTED]''"

definition redact_token :: "string \<Rightarrow> string" where
  "redact_token s =
     (let c = token_core s in if c = [] \<or> \<not> looks_like_secret c then s else str_replace c REDACTED s)"

definition redact_secrets :: "string \<Rightarrow> string" where
  "redact_secrets s = join_str '' '' (map redact_token (split_whitespace s))"

lemma token_core_split:
  obtains a b where "s = a @ token_core s @ b" "\<forall>c\<in>set a. \<not> is_ascii_alphanumeric c" "\<forall>c\<in>set b. \<not> is_ascii_alphanumeric c"
proof -
  let ?P = "\<lambda>c. \<not> is_ascii_alphanumeric c"
  let ?t = "dropWhile ?P s"
  have "?t = rev (takeWhile ?P (rev ?t) @ dropWhile ?P (rev ?t))" by simp
  then have "?t = token_core s @ rev (takeWhile ?P (rev ?t))" unfolding token_core_def by (metis rev_append)
  then have "s = takeWhile ?P s @ token_core s @ rev (takeWhile ?P (rev ?t))" by (metis takeWhile_dropWhile_id)
  then show thesis using that by (metis set_rev set_takeWhileD)
qed

lemma token_core_first: "token_core s \<noteq> [] \<Longrightarrow> is_ascii_alphanumeric (hd (token_core s))"
proof -
  let ?P = "\<lambda>c. \<not> is_ascii_alphanumeric c"
  let ?t = "dropWhile ?P s"
  assume ne: "token_core s \<noteq> []"
  have "prefix (token_core s) ?t"
    unfolding token_core_def by (metis rev_rev_ident suffix_dropWhile suffix_to_prefix)
  then obtain z where z: "?t = token_core s @ z" by (rule prefixE)
  then have "?t \<noteq> []" using ne by (metis append_is_Nil_conv)
  then show ?thesis using hd_dropWhile[of ?P s] z ne by (metis hd_append2)
qed

lemma str_replace_skip:
  assumes "pat \<noteq> []" and "hd pat \<notin> set a"
  shows "str_replace pat by_text (a @ s) = a @ str_replace pat by_text s"
  using assms(2)
proof (induction a)
  case (Cons c a)
  have "\<not> prefix pat (c # a @ s)" using Cons.prems assms(1) by (cases pat) auto
  then show ?case using Cons by simp
qed simp

lemma str_replace_once:
  assumes "pat \<noteq> []" and "hd pat \<notin> set a" and "hd pat \<notin> set b"
  shows "str_replace pat by_text (a @ pat @ b) = a @ by_text @ b"
proof -
  obtain c p where pat: "pat = c # p" using assms(1) by (cases pat) auto
  have "str_replace pat by_text (pat @ b) = by_text @ str_replace pat by_text b" by (simp add: pat)
  moreover have "str_replace pat by_text b = b" using str_replace_skip[OF assms(1,3), of by_text "[]"] by simp
  ultimately show ?thesis using str_replace_skip[OF assms(1,2)] by simp
qed

lemma redacted_core:
  assumes "\<forall>c\<in>set a. \<not> is_ascii_alphanumeric c" and "\<forall>c\<in>set b. \<not> is_ascii_alphanumeric c"
  shows "token_core (a @ REDACTED @ b) = ''REDACTED''"
proof -
  let ?P = "\<lambda>c. \<not> is_ascii_alphanumeric c"
  have edge: "?P CHR ''[''" "?P CHR '']''" "\<not> ?P CHR ''R''" "\<not> ?P CHR ''D''" by code_simp+
  have "dropWhile ?P (a @ REDACTED @ b) = ''REDACTED]'' @ b"
    using assms(1) edge by (simp add: REDACTED_def)
  moreover have "dropWhile ?P (rev b @ rev ''REDACTED]'') = dropWhile ?P (rev ''REDACTED]'')"
    by (rule dropWhile_append2) (use assms(2) in simp)
  then have "dropWhile ?P (rev (''REDACTED]'' @ b)) = rev ''REDACTED''"
    using edge by simp
  ultimately show ?thesis unfolding token_core_def by simp
qed

lemma redact_token_secret:
  assumes "looks_like_secret (token_core s)" and "token_core s \<noteq> []"
  shows "\<exists>a b. s = a @ token_core s @ b \<and> redact_token s = a @ REDACTED @ b \<and> token_core (redact_token s) = ''REDACTED''"
proof -
  obtain a b where s: "s = a @ token_core s @ b" "\<forall>c\<in>set a. \<not> is_ascii_alphanumeric c" "\<forall>c\<in>set b. \<not> is_ascii_alphanumeric c"
    by (rule token_core_split)
  have "hd (token_core s) \<notin> set a" "hd (token_core s) \<notin> set b" using token_core_first s(2,3) assms(2) by auto
  then have "redact_token s = a @ REDACTED @ b"
    using str_replace_once[of "token_core s" a b REDACTED] assms s(1) by (metis redact_token_def)
  then show ?thesis using s redacted_core[OF s(2,3)] by auto
qed

lemma redact_token_core: "\<not> looks_like_secret (token_core (redact_token s))"
proof (cases "token_core s = [] \<or> \<not> looks_like_secret (token_core s)")
  case True
  moreover have "\<not> looks_like_secret []" by code_simp
  ultimately show ?thesis by (auto simp: redact_token_def)
next
  case False
  then have "token_core (redact_token s) = ''REDACTED''" using redact_token_secret by blast
  moreover have "\<not> looks_like_secret ''REDACTED''" by code_simp
  ultimately show ?thesis by simp
qed

text \<open>
  C35: No token of a redacted error text looks like a credential. The text that goes to the classifying model
  is the tokens of the error joined by single spaces: a token whose core looks like a secret (a known
  prefix, or a long mix of letters and digits) has exactly that core replaced, every other token is
  unchanged, and no token of the result has a core that looks like a secret.
\<close>

theorem redaction_leaves_no_secret:
  "\<exists>ts. redact_secrets s = join_str '' '' ts \<and> length ts = length (split_whitespace s) \<and>
     list_all2 (\<lambda>old new. \<not> looks_like_secret (token_core new) \<and>
       (if looks_like_secret (token_core old)
        then \<exists>a b. old = a @ token_core old @ b \<and> new = a @ REDACTED @ b
        else new = old)) (split_whitespace s) ts"
proof (intro exI[of _ "map redact_token (split_whitespace s)"] conjI)
  have empty: "\<not> looks_like_secret []" by code_simp
  have "\<not> looks_like_secret (token_core (redact_token old)) \<and>
       (if looks_like_secret (token_core old)
        then \<exists>a b. old = a @ token_core old @ b \<and> redact_token old = a @ REDACTED @ b
        else redact_token old = old)" for old
  proof (cases "looks_like_secret (token_core old)")
    case True
    then have "token_core old \<noteq> []" using empty by auto
    then show ?thesis using redact_token_core[of old] redact_token_secret[OF True] True by auto
  qed (use redact_token_core[of old] in \<open>simp add: redact_token_def\<close>)
  then show "list_all2 (\<lambda>old new. \<not> looks_like_secret (token_core new) \<and>
       (if looks_like_secret (token_core old)
        then \<exists>a b. old = a @ token_core old @ b \<and> new = a @ REDACTED @ b
        else new = old)) (split_whitespace s) (map redact_token (split_whitespace s))"
    by (simp add: list_all2_map2 list.rel_refl)
qed (simp_all add: redact_secrets_def)

section \<open>Fields a client reports about itself\<close>

definition MAX_CLIENT_FIELD_CHARS :: nat where "MAX_CLIENT_FIELD_CHARS = 200"

text \<open>The length of the control character a string begins with: U+0000 to U+001F, U+007F to U+009F.\<close>

definition control_len :: "string \<Rightarrow> nat" where
  "control_len s =
     (case s of [] \<Rightarrow> 0
      | a # t \<Rightarrow>
          if byte_of a < 32 \<or> byte_of a = 127 then 1
          else (case t of [] \<Rightarrow> 0
                | b # _ \<Rightarrow> if byte_of a = 194 \<and> 128 \<le> byte_of b \<and> byte_of b \<le> 159 then 2 else 0))"

text \<open>White space becomes a space, other control characters go.\<close>

function normalize_field :: "string \<Rightarrow> string" where
  "normalize_field [] = []"
| "normalize_field (c # s) =
     (if 0 < ws_len (c # s) then CHR '' '' # normalize_field (drop (ws_len (c # s)) (c # s))
      else if 0 < control_len (c # s) then normalize_field (drop (control_len (c # s)) (c # s))
      else c # normalize_field s)"
  by pat_completeness auto
termination
  by (relation "measure length") auto

definition sanitize_client_field :: "string \<Rightarrow> string option" where
  "sanitize_client_field raw =
     (let collapsed = join_str '' '' (split_whitespace (normalize_field raw)) in
      if collapsed = [] then None else Some (take_chars MAX_CLIENT_FIELD_CHARS collapsed))"

definition printable :: "char \<Rightarrow> bool" where
  "printable c \<longleftrightarrow> 32 \<le> byte_of c \<and> byte_of c \<noteq> 127"

lemma normalize_field_printable: "\<forall>c\<in>set (normalize_field s). printable c"
proof (induction s rule: normalize_field.induct)
  case (2 c s)
  have "printable c" if "\<not> 0 < control_len (c # s)"
    using that by (auto simp: control_len_def printable_def split: if_splits)
  moreover have "printable CHR '' ''" by code_simp
  ultimately show ?case using 2 by simp
qed simp

declare split_whitespace_from.simps [simp del]

lemma split_whitespace_from_set:
  "w \<in> set (split_whitespace_from word s) \<Longrightarrow> set w \<subseteq> set word \<union> set s"
proof (induction word s rule: split_whitespace_from.induct)
  case (1 word s)
  have mem: "w \<in> set (case s of
        [] \<Rightarrow> (if word = [] then [] else [word])
      | c # t \<Rightarrow>
          if ws_len s = 0 then split_whitespace_from (word @ [c]) t
          else (if word = [] then [] else [word]) @ split_whitespace_from [] (drop (ws_len s) s))"
    using 1(3) by (subst (asm) split_whitespace_from.simps)
  show ?case
  proof (cases s)
    case Nil
    then show ?thesis using mem by (auto split: if_splits)
  next
    case (Cons c t)
    show ?thesis
    proof (cases "ws_len s = 0")
      case True
      have "w \<in> set (split_whitespace_from (word @ [c]) t)" using mem Cons True by (simp only: list.case if_True refl)
      from 1(1)[OF Cons True this] show ?thesis using Cons by auto
    next
      case False
      have "w \<in> set (split_whitespace_from [] (drop (ws_len s) s)) \<or> w = word"
        using mem Cons False by (simp only: list.case if_False set_append Un_iff) (auto split: if_splits)
      then show ?thesis using 1(2)[OF Cons False] by (auto dest: in_set_dropD)
    qed
  qed
qed

lemma join_str_set: "set (join_str sep ws) \<subseteq> set sep \<union> \<Union> (set ` set ws)"
  by (induction sep ws rule: join_str.induct) auto

text \<open>
  A field a client reports is one line of at most two hundred characters, without control characters,
  so that it cannot open a section of the prompt on a line of its own.
\<close>

lemma client_field_is_one_line:
  assumes "sanitize_client_field raw = Some s"
  shows "\<forall>c\<in>set s. printable c" "length s \<le> 4 * MAX_CLIENT_FIELD_CHARS"
proof -
  let ?c = "join_str '' '' (split_whitespace (normalize_field raw))"
  have s: "s = take_chars MAX_CLIENT_FIELD_CHARS ?c"
    using assms by (auto simp: sanitize_client_field_def Let_def split: if_splits)
  have "set ?c \<subseteq> insert CHR '' '' (set (normalize_field raw))"
    using join_str_set[of "'' ''" "split_whitespace (normalize_field raw)"]
      split_whitespace_from_set[of _ "[]" "normalize_field raw"]
    by (fastforce simp: split_whitespace_def)
  moreover have "set s \<subseteq> set ?c"
    unfolding s using take_chars_prefix[of MAX_CLIENT_FIELD_CHARS ?c] set_mono_prefix by blast
  moreover have "printable CHR '' ''" by code_simp
  ultimately show "\<forall>c\<in>set s. printable c" using normalize_field_printable[of raw] by blast
  show "length s \<le> 4 * MAX_CLIENT_FIELD_CHARS" unfolding s by (rule length_take_chars)
qed

end
