(* ===== verification/Transcript_View.thy ===== *)
theory Transcript_View
  imports Tool_Provenance
begin

text \<open>
  The way back to what a round no longer reads (\<^verbatim>\<open>core/src/ports/transcript.rs\<close> and
  \<^verbatim>\<open>core/src/turn_index.rs\<close>).

  \<^item> \<open>transcript_view\<close> is the transcript a running tool may read: one entry per message, an index by
    id, and the tool each call asked for. \<open>absorb\<close> takes in what a turn has appended.
  \<^item> \<open>read_transcript_message\<close> and \<open>read_transcript_turn\<close> answer a read with a page of bytes, its
    offset and where to go on; \<open>walk_pages\<close> is a reader that follows the offsets.
  \<^item> \<open>index_turns\<close> and \<open>render_turn_index\<close> name the earlier turns of a conversation by ids a read
    accepts.
  \<^item> The scope in force (the task-locals of user, conversation and transcript) is an argument. The
    payload is a JSON value; printing it is a function of another crate, the parameter \<open>print\<close>, of
    which only \<open>json_printer\<close> is used: a string member appears as the JSON text of the string.
\<close>

section \<open>The view\<close>

record transcript_entry =
  te_id :: string
  te_role :: role
  te_content :: string
  te_tool_name :: "string option"

record transcript_data =
  tx_entries :: "transcript_entry list"
  tx_by_id :: "(string, nat) hashmap"
  tx_call_names :: "(string, string) hashmap"

record transcript_view =
  tv_user_id :: string
  tv_conversation_id :: string
  tv_data :: transcript_data

definition transcript_default :: transcript_data where
  "transcript_default = \<lparr>tx_entries = [], tx_by_id = [], tx_call_names = []\<rparr>"

definition transcript_view_new :: "string \<Rightarrow> string \<Rightarrow> transcript_view" where
  "transcript_view_new user conversation =
     \<lparr>tv_user_id = user, tv_conversation_id = conversation, tv_data = transcript_default\<rparr>"

definition absorb_message :: "message \<Rightarrow> transcript_data \<Rightarrow> transcript_data" where
  "absorb_message m d =
     (let names = (if msg_role m = Assistant
            then fold (\<lambda>c. hm_insert (tc_id c) (tc_name c)) (msg_tool_calls m) (tx_call_names d)
            else tx_call_names d)
      in \<lparr>tx_entries = tx_entries d @
            [\<lparr>te_id = msg_id m, te_role = msg_role m, te_content = msg_content m,
              te_tool_name = Option.bind (msg_tool_call_id m) (hm_get names)\<rparr>],
          tx_by_id = hm_insert (msg_id m) (length (tx_entries d)) (tx_by_id d),
          tx_call_names = names\<rparr>)"

definition absorb :: "message list \<Rightarrow> transcript_view \<Rightarrow> transcript_view" where
  "absorb ms v =
     (let d = tv_data v; held = length (tx_entries d);
          diverged = (length ms < held \<or>
            0 < held \<and> msg_id (ms ! (held - 1)) \<noteq> te_id (tx_entries d ! (held - 1)));
          d' = (if diverged then transcript_default else d)
      in v\<lparr>tv_data := fold absorb_message (drop (length (tx_entries d')) ms) d'\<rparr>)"

definition view_len :: "transcript_view \<Rightarrow> nat" where
  "view_len v = length (tx_entries (tv_data v))"

definition view_get :: "transcript_view \<Rightarrow> string \<Rightarrow> transcript_entry option" where
  "view_get v message_id =
     (case hm_get (tx_by_id (tv_data v)) message_id of
        None \<Rightarrow> None
      | Some i \<Rightarrow> if i < length (tx_entries (tv_data v)) then Some (tx_entries (tv_data v) ! i) else None)"

definition turn_range :: "transcript_view \<Rightarrow> string \<Rightarrow> (nat \<times> nat) option" where
  "turn_range v message_id =
     (let es = tx_entries (tv_data v) in
      case hm_get (tx_by_id (tv_data v)) message_id of
        None \<Rightarrow> None
      | Some at \<Rightarrow>
          (case rposition (\<lambda>e. te_role e = User) (take (Suc at) es) of
             None \<Rightarrow> None
           | Some start \<Rightarrow>
               Some (start, case position (\<lambda>e. te_role e = User) (drop (Suc start) es) of
                              Some offset \<Rightarrow> start + 1 + offset
                            | None \<Rightarrow> length es)))"

text \<open>The task-locals in force while a tool runs.\<close>

record read_scope =
  sc_user :: string
  sc_conversation :: "string option"
  sc_transcript :: "transcript_view option"

definition matches_current_scope :: "read_scope \<Rightarrow> transcript_view \<Rightarrow> bool" where
  "matches_current_scope sc v \<longleftrightarrow>
     sc_user sc = tv_user_id v \<and> sc_conversation sc = Some (tv_conversation_id v)"

definition readable_view :: "read_scope \<Rightarrow> transcript_view option" where
  "readable_view sc =
     (case sc_transcript sc of
        Some v \<Rightarrow> if matches_current_scope sc v then Some v else None
      | None \<Rightarrow> None)"

section \<open>Reads\<close>

definition TRANSCRIPT_READ_MAX_BYTES :: nat where "TRANSCRIPT_READ_MAX_BYTES = 20480"

record read_request =
  rr_message_id :: string
  rr_offset :: nat
  rr_length :: "nat option"

definition CODE_OUT_OF_SCOPE :: string where "CODE_OUT_OF_SCOPE = ''TRANSCRIPT_OUT_OF_SCOPE''"
definition CODE_NOT_FOUND :: string where "CODE_NOT_FOUND = ''MESSAGE_NOT_FOUND''"
definition CODE_NOT_IN_A_TURN :: string where "CODE_NOT_IN_A_TURN = ''NOT_IN_A_TURN''"

definition decline :: "string \<Rightarrow> string \<Rightarrow> string \<Rightarrow> json_value" where
  "decline code description message =
     JObject [(''ok'', JBool False), (''code'', JString code), (''description'', JString description),
       (''message'', JString message), (''retryable'', JBool False)]"

text \<open>\<^verbatim>\<open>str::ceil_char_boundary\<close>\<close>

function ceil_boundary :: "string \<Rightarrow> nat \<Rightarrow> nat" where
  "ceil_boundary s i =
     (if length s \<le> i then length s else if is_char_boundary s i then i else ceil_boundary s (Suc i))"
  by pat_completeness auto
termination
  by (relation "measure (\<lambda>(s, i). length s - i)") auto

declare ceil_boundary.simps [simp del]

definition slice_end :: "string \<Rightarrow> nat \<Rightarrow> nat \<Rightarrow> nat" where
  "slice_end s start len =
     (let fin = floor_boundary s (start + len) in
      if start < fin \<or> length s \<le> start \<or> len = 0 then fin else ceil_boundary s (start + 1))"

text \<open>The offset, the end and the request of a read, which both reads share.\<close>

definition requested_bytes :: "read_request \<Rightarrow> nat" where
  "requested_bytes rq = (case rr_length rq of None \<Rightarrow> TRANSCRIPT_READ_MAX_BYTES | Some l \<Rightarrow> l)"

definition page_bounds :: "string \<Rightarrow> read_request \<Rightarrow> nat \<times> nat" where
  "page_bounds s rq =
     (let start = floor_boundary s (rr_offset rq)
      in (start, slice_end s start (min (requested_bytes rq) TRANSCRIPT_READ_MAX_BYTES)))"

definition page_members :: "string \<Rightarrow> read_request \<Rightarrow> (string \<times> json_value) list" where
  "page_members s rq =
     (let (start, fin) = page_bounds s rq in
      [(''total_bytes'', JNumber (show_nat (length s))), (''offset'', JNumber (show_nat start)),
       (''returned_bytes'', JNumber (show_nat (fin - start))),
       (''next_offset'', if fin < length s \<and> start < fin then JNumber (show_nat fin) else JNull),
       (''content'', JString (take (fin - start) (drop start s)))])"

definition page_notes :: "string \<Rightarrow> read_request \<Rightarrow> (string \<times> json_value) list" where
  "page_notes s rq =
     (let (start, fin) = page_bounds s rq in
      if TRANSCRIPT_READ_MAX_BYTES < requested_bytes rq
      then [(''truncated'', JBool True),
            (''message'', JString (''`length` was cut to the '' @ show_nat TRANSCRIPT_READ_MAX_BYTES @
               ''-byte cap on one read. Read the rest from `next_offset`.''))]
      else if fin < length s \<and> \<not> start < fin
      then [(''message'', JString (''`length` was 0, so this read returned no bytes and there is no `next_offset` to '' @
               ''follow. Read again from offset '' @ show_nat start @ '' with a `length` of at least one byte.''))]
      else [])"

definition entry_is_externally_controlled :: "json_parser \<Rightarrow> transcript_entry \<Rightarrow> bool" where
  "entry_is_externally_controlled parse e =
     (case te_tool_name e of
        Some name \<Rightarrow> result_is_externally_controlled parse name (te_content e)
      | None \<Rightarrow> te_role e = ToolRole)"

fun role_as_str :: "role \<Rightarrow> string" where
  "role_as_str User = ''user''"
| "role_as_str Assistant = ''assistant''"
| "role_as_str SystemRole = ''system''"
| "role_as_str ToolRole = ''tool''"

definition opt_string :: "string option \<Rightarrow> json_value" where
  "opt_string s = (case s of None \<Rightarrow> JNull | Some t \<Rightarrow> JString t)"

definition provenance_stamp :: "bool \<Rightarrow> (string \<times> json_value) list" where
  "provenance_stamp external = (if external then [(''provenance'', JString EXTERNAL_CONTENT_MARKER)] else [])"

definition out_of_scope :: json_value where
  "out_of_scope = decline CODE_OUT_OF_SCOPE ''no conversation transcript is readable here''
     ''There is no transcript to read from in this context.''"

definition message_page :: "json_parser \<Rightarrow> transcript_entry \<Rightarrow> read_request \<Rightarrow> json_value" where
  "message_page parse e rq =
     JObject ([(''ok'', JBool True), (''message_id'', JString (te_id e)),
       (''role'', JString (role_as_str (te_role e))), (''produced_by'', opt_string (te_tool_name e))] @
       page_members (te_content e) rq @ page_notes (te_content e) rq @
       provenance_stamp (entry_is_externally_controlled parse e))"

definition read_transcript_message :: "json_parser \<Rightarrow> read_scope \<Rightarrow> read_request \<Rightarrow> json_value" where
  "read_transcript_message parse sc rq =
     (case readable_view sc of
        None \<Rightarrow> out_of_scope
      | Some v \<Rightarrow>
          (case view_get v (rr_message_id rq) of
             None \<Rightarrow> decline CODE_NOT_FOUND ''no message in this conversation has that id''
               (''This conversation holds no message with that id. Check the id in the pointer '' @ ''you read it from.'')
           | Some e \<Rightarrow> message_page parse e rq))"

definition entry_text :: "transcript_entry \<Rightarrow> string" where
  "entry_text e =
     (case te_role e of
        ToolRole \<Rightarrow> (case te_tool_name e of Some name \<Rightarrow> ''tool ('' @ name @ '')'' | None \<Rightarrow> ''tool'')
      | r \<Rightarrow> role_as_str r) @ '': '' @ te_content e"

definition render_turn :: "transcript_entry list \<Rightarrow> string" where
  "render_turn es = join_str [CHR 0x0A, CHR 0x0A] (map entry_text es)"

definition turn_page :: "json_parser \<Rightarrow> transcript_entry list \<Rightarrow> read_request \<Rightarrow> json_value" where
  "turn_page parse es rq =
     JObject ([(''ok'', JBool True), (''turn_id'', JString (te_id (hd es))),
       (''messages'', JNumber (show_nat (length es)))] @
       page_members (render_turn es) rq @ page_notes (render_turn es) rq @
       provenance_stamp (list_ex (entry_is_externally_controlled parse) es))"

definition read_transcript_turn :: "json_parser \<Rightarrow> read_scope \<Rightarrow> read_request \<Rightarrow> json_value" where
  "read_transcript_turn parse sc rq =
     (case readable_view sc of
        None \<Rightarrow> out_of_scope
      | Some v \<Rightarrow>
          if view_get v (rr_message_id rq) = None
          then decline CODE_NOT_FOUND ''no message in this conversation has that id''
            (''This conversation holds no message with that id. Check the id in the line you '' @ ''read it from.'')
          else case turn_range v (rr_message_id rq) of
             None \<Rightarrow> decline CODE_NOT_IN_A_TURN ''that message sits ahead of the first thing the user said''
               (''That message belongs to no turn, because nothing opened one before it. Read it '' @
                ''on its own with `message_id`.'')
           | Some (start, fin) \<Rightarrow> turn_page parse (take (fin - start) (drop start (tx_entries (tv_data v)))) rq)"

section \<open>The index of earlier turns\<close>

definition MAX_INDEXED_TURNS :: nat where "MAX_INDEXED_TURNS = 40"
definition OPENING_CHARS :: nat where "OPENING_CHARS = 100"

record indexed_turn =
  it_id :: string
  it_opening :: string
  it_tool_results :: nat
  it_in_window :: bool

definition openings :: "message list \<Rightarrow> nat list" where
  "openings ms = filter (\<lambda>i. msg_role (ms ! i) = User) [0..<length ms]"

definition index_turns :: "message list \<Rightarrow> nat \<Rightarrow> indexed_turn list" where
  "index_turns ms window_from =
     map (\<lambda>n. let start = openings ms ! n; fin = openings ms ! (n + 1) in
       \<lparr>it_id = msg_id (ms ! start), it_opening = msg_content (ms ! start),
        it_tool_results = length (filter (\<lambda>m. msg_role m = ToolRole) (take (fin - start) (drop start ms))),
        it_in_window = window_from \<le> start\<rparr>) [0..<length (openings ms) - 1]"

text \<open>One pass over the turns from the last to the first, as long as there is room.\<close>

fun choose_pass :: "nat \<Rightarrow> bool \<Rightarrow> indexed_turn list \<Rightarrow> nat list \<Rightarrow> nat list \<Rightarrow> nat list" where
  "choose_pass most want ts [] keep = keep"
| "choose_pass most want ts (i # is) keep =
     (if most \<le> length keep then keep
      else choose_pass most want ts is (if it_in_window (ts ! i) = want then i # keep else keep))"

definition chosen_turns :: "indexed_turn list \<Rightarrow> nat \<Rightarrow> nat list" where
  "chosen_turns ts most =
     (if length ts \<le> most then [0..<length ts]
      else (let back = rev [0..<length ts]
            in choose_pass most True ts back (choose_pass most False ts back [])))"

definition TRUNCATION_MARKER :: string where "TRUNCATION_MARKER = ''...''"

definition one_line :: "string \<Rightarrow> nat \<Rightarrow> string" where
  "one_line s max_chars =
     (let collapsed = join_str '' '' (split_whitespace s); marker_chars = char_count TRUNCATION_MARKER in
      if char_count collapsed \<le> max_chars then collapsed
      else if max_chars \<le> marker_chars then take_chars max_chars collapsed
      else take_chars (max_chars - marker_chars) collapsed @ TRUNCATION_MARKER)"

definition index_line :: "indexed_turn list \<Rightarrow> nat \<Rightarrow> string" where
  "index_line ts n =
     (let turn = ts ! n;
          tools = (if it_tool_results turn = 0 then []
            else if it_tool_results turn = 1 then '', 1 tool result''
            else '', '' @ show_nat (it_tool_results turn) @ '' tool results'');
          view = (if it_in_window turn then [] else '', not in view'')
      in [CHR 0x0A] @ show_nat (n + 1) @ ''. '' @ [CHR 0x22] @ one_line (it_opening turn) OPENING_CHARS @ [CHR 0x22] @
         tools @ view @ '' - turn_id='' @ [CHR 0x22] @ it_id turn @ [CHR 0x22])"

definition render_turn_index :: "indexed_turn list \<Rightarrow> string option" where
  "render_turn_index ts =
     (if list_all it_in_window ts then None
      else
        (let keep = chosen_turns ts MAX_INDEXED_TURNS; dropped = length ts - length keep in
         Some (''[Earlier turns] Turns of this conversation before this one, oldest first. One '' @
           ''marked '' @ [CHR 0x22] @ ''not in view'' @ [CHR 0x22] @
           '' is not in the messages below - it happened, and it is not '' @
           ''lost. Read it back with '' @ TRANSCRIPT_GET_TOOL @ '' turn_id='' @ [CHR 0x22] @ ''<id>'' @ [CHR 0x22] @
           '' rather than guessing what it said.'' @
           concat (map (index_line ts) (filter (\<lambda>i. i \<in> set keep) [0..<length ts])) @
           (if 0 < dropped
            then [CHR 0x0A] @ ''('' @ show_nat dropped @ '' earlier '' @ (if dropped = 1 then ''turn'' else ''turns'') @
              '' are not listed here. They still exist; search the '' @
              ''conversation with builtin_conversation_search to reach one.)''
            else []))))"

section \<open>Paging\<close>

lemma boundary_le: "is_char_boundary s i \<Longrightarrow> i \<le> length s"
  by (auto simp: is_char_boundary_def)

lemma ceil_boundary_bounds:
  "i \<le> length s \<Longrightarrow> i \<le> ceil_boundary s i \<and> is_char_boundary s (ceil_boundary s i)"
proof (induction s i rule: ceil_boundary.induct)
  case (1 s i)
  show ?case
  proof (cases "length s \<le> i \<or> is_char_boundary s i")
    case True
    then show ?thesis using 1(2) by (auto simp: ceil_boundary.simps[of s i])
  next
    case False
    then show ?thesis using 1(1) by (simp add: ceil_boundary.simps[of s i])
  qed
qed

lemma page_bounds_props:
  assumes "page_bounds s rq = (start, fin)" and "0 < requested_bytes rq"
  shows "start = floor_boundary s (rr_offset rq)" "is_char_boundary s fin" "start \<le> fin"
    "start < length s \<Longrightarrow> start < fin"
proof -
  let ?len = "min (requested_bytes rq) TRANSCRIPT_READ_MAX_BYTES"
  have start: "start = floor_boundary s (rr_offset rq)" and fin: "fin = slice_end s start ?len"
    using assms(1) by (auto simp: page_bounds_def Let_def)
  have b: "is_char_boundary s start" "start \<le> length s" using start boundary_le by auto
  have len: "0 < ?len" using assms(2) by (simp add: TRANSCRIPT_READ_MAX_BYTES_def)
  have mono: "start \<le> floor_boundary s (start + ?len)"
    using floor_boundary_mono[of start "start + ?len" s] floor_boundary_eq[OF b(1)] by simp
  show "start = floor_boundary s (rr_offset rq)" by (rule start)
  show "is_char_boundary s fin" "start \<le> fin" "start < length s \<Longrightarrow> start < fin"
    using fin mono len ceil_boundary_bounds[of "start + 1" s] b(2)
    by (auto simp: slice_end_def Let_def Suc_le_eq less_le_trans)
qed

text \<open>A reader that follows \<^verbatim>\<open>next_offset\<close> until there is none.\<close>

definition next_offset_of :: "json_value \<Rightarrow> nat option" where
  "next_offset_of v = (case json_get ''next_offset'' v of Some (JNumber n) \<Rightarrow> parse_uint u64_max n | _ \<Rightarrow> None)"

fun walk_pages :: "nat \<Rightarrow> (nat \<Rightarrow> json_value) \<Rightarrow> nat \<Rightarrow> string list option" where
  "walk_pages 0 read off = None"
| "walk_pages (Suc n) read off =
     (case Option.bind (json_get ''content'' (read off)) as_str of
        None \<Rightarrow> None
      | Some c \<Rightarrow>
          (case next_offset_of (read off) of
             None \<Rightarrow> Some [c]
           | Some off' \<Rightarrow> map_option ((#) c) (walk_pages n read off')))"

text \<open>
  A read that serves a text: what its replies say of the content and the next offset. Both reads of
  the transcript are instances.
\<close>

locale paged_text =
  fixes page :: "'e \<Rightarrow> read_request \<Rightarrow> json_value"
    and body :: "'e \<Rightarrow> string"
  assumes content_is: "page_bounds (body e) rq = (start, fin) \<Longrightarrow>
      json_get ''content'' (page e rq) = Some (JString (take (fin - start) (drop start (body e))))"
    and next_is: "page_bounds (body e) rq = (start, fin) \<Longrightarrow>
      json_get ''next_offset'' (page e rq) =
        Some (if fin < length (body e) \<and> start < fin then JNumber (show_nat fin) else JNull)"
begin

lemma page_cases:
  assumes "is_char_boundary (body e) (rr_offset rq)" and "0 < requested_bytes rq" and "length (body e) \<le> u64_max"
  obtains (final) "json_get ''content'' (page e rq) = Some (JString (drop (rr_offset rq) (body e)))"
      "next_offset_of (page e rq) = None"
  | (more) fin where "rr_offset rq < fin" "fin < length (body e)" "is_char_boundary (body e) fin"
      "json_get ''content'' (page e rq) = Some (JString (take (fin - rr_offset rq) (drop (rr_offset rq) (body e))))"
      "next_offset_of (page e rq) = Some fin"
proof -
  obtain start fin where b: "page_bounds (body e) rq = (start, fin)" by fastforce
  note props = page_bounds_props[OF b assms(2)]
  have start: "start = rr_offset rq" using props(1) floor_boundary_eq[OF assms(1)] by simp
  show thesis
  proof (cases "fin < length (body e)")
    case True
    have "rr_offset rq < fin" using props(4) True props(3) start by simp
    moreover have "parse_uint u64_max (show_nat fin) = Some fin" using True assms(3) by (intro parse_show_nat) simp
    ultimately show ?thesis
      using more[of fin] True props(2) content_is[OF b] next_is[OF b] start by (simp add: next_offset_of_def)
  next
    case False
    then have "fin = length (body e)" using boundary_le[OF props(2)] by simp
    then show ?thesis
      using final content_is[OF b] next_is[OF b] start by (simp add: next_offset_of_def)
  qed
qed

lemma walk_from:
  fixes i :: string and len :: "nat option" and e :: 'e
  assumes "len \<noteq> Some 0" and "length (body e) \<le> u64_max"
  defines "read \<equiv> \<lambda>off. page e \<lparr>rr_message_id = i, rr_offset = off, rr_length = len\<rparr>"
  shows "is_char_boundary (body e) off \<Longrightarrow> length (body e) - off < n \<Longrightarrow>
    \<exists>pages. walk_pages n read off = Some pages \<and> concat pages = drop off (body e)"
proof (induction n arbitrary: off)
  case (Suc n)
  let ?rq = "\<lparr>rr_message_id = i, rr_offset = off, rr_length = len\<rparr>"
  have asks: "0 < requested_bytes ?rq"
    using assms(1) by (auto simp: requested_bytes_def TRANSCRIPT_READ_MAX_BYTES_def split: option.split)
  have at: "is_char_boundary (body e) (rr_offset ?rq)" using Suc.prems(1) by simp
  show ?case
  proof (rule page_cases[OF at asks assms(2)])
    assume "json_get ''content'' (page e ?rq) = Some (JString (drop (rr_offset ?rq) (body e)))"
      "next_offset_of (page e ?rq) = None"
    then show ?thesis by (simp add: read_def)
  next
    fix fin
    assume fin: "rr_offset ?rq < fin" "fin < length (body e)" "is_char_boundary (body e) fin"
      "json_get ''content'' (page e ?rq) = Some (JString (take (fin - rr_offset ?rq) (drop (rr_offset ?rq) (body e))))"
      "next_offset_of (page e ?rq) = Some fin"
    have "length (body e) - fin < n" using Suc.prems(2) fin(1,2) by simp
    then obtain pages where "walk_pages n read fin = Some pages" "concat pages = drop fin (body e)"
      using Suc.IH[OF fin(3)] by blast
    moreover have "take (fin - off) (drop off (body e)) @ drop fin (body e) = drop off (body e)"
      using fin(1) append_take_drop_id[of "fin - off" "drop off (body e)"] by simp
    ultimately show ?thesis using fin(4,5) by (simp add: read_def)
  qed
qed simp

lemma walk_reads_all:
  assumes "len \<noteq> Some 0" and "length (body e) \<le> u64_max"
  shows "\<exists>pages. walk_pages (Suc (length (body e))) (\<lambda>off. page e \<lparr>rr_message_id = i, rr_offset = off, rr_length = len\<rparr>) 0 = Some pages \<and>
    concat pages = body e"
  using walk_from[OF assms, of 0 "Suc (length (body e))"] by simp

end

interpretation message_pages: paged_text "message_page parse" te_content for parse
  by unfold_locales (simp_all add: message_page_def page_members_def Let_def)

interpretation turn_pages: paged_text "turn_page parse" render_turn for parse
  by unfold_locales (simp_all add: turn_page_def page_members_def Let_def)

section \<open>What the view holds\<close>

definition transcript_of :: "message list \<Rightarrow> transcript_data" where
  "transcript_of ms = fold absorb_message ms transcript_default"

lemma transcript_of_snoc: "transcript_of (ms @ [m]) = absorb_message m (transcript_of ms)"
  by (simp add: transcript_of_def)

definition entry_shows :: "transcript_entry \<Rightarrow> message \<Rightarrow> bool" where
  "entry_shows e m \<longleftrightarrow> te_id e = msg_id m \<and> te_role e = msg_role m \<and> te_content e = msg_content m"

lemma transcript_of_entries: "list_all2 entry_shows (tx_entries (transcript_of ms)) ms"
proof (induction ms rule: rev_induct)
  case (snoc m ms)
  then show ?case
    by (auto simp: transcript_of_snoc absorb_message_def Let_def entry_shows_def intro: list_all2_appendI)
qed (simp add: transcript_of_def transcript_default_def)

lemmas transcript_of_length = list_all2_lengthD[OF transcript_of_entries]

lemma transcript_of_nth: "i < length ms \<Longrightarrow> entry_shows (tx_entries (transcript_of ms) ! i) (ms ! i)"
  using transcript_of_entries list_all2_nthD2 by blast

lemma transcript_of_by_id:
  "distinct (map msg_id ms) \<Longrightarrow> i < length ms \<Longrightarrow> hm_get (tx_by_id (transcript_of ms)) (msg_id (ms ! i)) = Some i"
proof (induction ms arbitrary: i rule: rev_induct)
  case (snoc m ms)
  show ?case
  proof (cases "i < length ms")
    case True
    then have "msg_id (ms ! i) \<in> set (map msg_id ms)" by simp
    then have "msg_id (ms ! i) \<noteq> msg_id m" using snoc.prems(1) by auto
    then show ?thesis using snoc True
      by (simp add: transcript_of_snoc absorb_message_def Let_def hm_simps nth_append)
  next
    case False
    then have "i = length ms" using snoc.prems(2) by simp
    then show ?thesis
      by (simp add: transcript_of_snoc absorb_message_def Let_def hm_simps transcript_of_length)
  qed
qed simp

lemma view_get_transcript_of:
  assumes "tv_data v = transcript_of ms" and "distinct (map msg_id ms)" and "i < length ms"
  shows "view_get v (msg_id (ms ! i)) = Some (tx_entries (transcript_of ms) ! i)"
  using assms transcript_of_by_id[OF assms(2,3)] by (simp add: view_get_def transcript_of_length)

lemma absorb_prefix:
  assumes "tv_data v = transcript_of ms" and "prefix ms ms'"
  shows "tv_data (absorb ms' v) = transcript_of ms'"
proof -
  obtain more where more: "ms' = ms @ more" using assms(2) by (rule prefixE)
  let ?held = "length (tx_entries (tv_data v))"
  have held: "?held = length ms" using assms(1) transcript_of_length by simp
  have "msg_id (ms' ! (?held - 1)) = te_id (tx_entries (tv_data v) ! (?held - 1))" if "0 < ?held"
  proof -
    have "?held - 1 < length ms" using that held by simp
    then show ?thesis using transcript_of_nth[of "?held - 1" ms] assms(1) by (simp add: more nth_append entry_shows_def)
  qed
  moreover have "\<not> length ms' < ?held" by (simp add: held more)
  ultimately have "tv_data (absorb ms' v) = fold absorb_message (drop ?held ms') (tv_data v)"
    by (auto simp: absorb_def Let_def)
  also have "\<dots> = fold absorb_message more (transcript_of ms)" unfolding held by (simp add: more assms(1))
  finally show ?thesis by (simp add: more transcript_of_def)
qed

text \<open>A transcript that grew, absorbed again and again as a turn does before each tool it runs.\<close>

definition view_after :: "string \<Rightarrow> string \<Rightarrow> message list list \<Rightarrow> transcript_view" where
  "view_after user conversation mss = fold absorb mss (transcript_view_new user conversation)"

lemma view_after_scope:
  "tv_user_id (view_after user conversation mss) = user" "tv_conversation_id (view_after user conversation mss) = conversation"
  by (induction mss rule: rev_induct) (simp_all add: view_after_def transcript_view_new_def absorb_def Let_def)

lemma view_after_data:
  "sorted_wrt prefix mss \<Longrightarrow> mss \<noteq> [] \<Longrightarrow> tv_data (view_after user conversation mss) = transcript_of (last mss)"
proof (induction mss rule: rev_induct)
  case (snoc ms mss)
  show ?case
  proof (cases "mss = []")
    case True
    have "tv_data (absorb ms (transcript_view_new user conversation)) = transcript_of ms"
      by (rule absorb_prefix[of _ "[]"]) (simp_all add: transcript_view_new_def transcript_of_def)
    then show ?thesis by (simp add: True view_after_def)
  next
    case False
    then have "prefix (last mss) ms" using snoc.prems by (simp add: sorted_wrt_append)
    then show ?thesis using absorb_prefix[of "view_after user conversation mss" "last mss" ms] snoc False
      by (simp add: view_after_def sorted_wrt_append)
  qed
qed simp

definition scope_of :: "string \<Rightarrow> string \<Rightarrow> transcript_view \<Rightarrow> read_scope" where
  "scope_of user conversation v = \<lparr>sc_user = user, sc_conversation = Some conversation, sc_transcript = Some v\<rparr>"

lemma readable_scope_of: "readable_view (scope_of user conversation (view_after user conversation mss)) = Some (view_after user conversation mss)"
  by (simp add: readable_view_def scope_of_def matches_current_scope_def view_after_scope)

text \<open>
  C14: Every message of a transcript can be read back whole. However a turn's transcript grew between the
  tools it ran, and whatever length of at least one byte a reader asks for, following the offsets a read
  hands out ends after at most one page a byte, and the pages put together are the stored content of the
  message, byte for byte.
\<close>

theorem transcript_reads_back_whole:
  assumes "sorted_wrt prefix mss" and "mss \<noteq> []" and "distinct (map msg_id (last mss))"
    and "m \<in> set (last mss)" and "len \<noteq> Some 0" and "length (msg_content m) \<le> u64_max"
  shows "\<exists>pages. walk_pages (Suc (length (msg_content m)))
      (\<lambda>off. read_transcript_message parse (scope_of user conversation (view_after user conversation mss))
         \<lparr>rr_message_id = msg_id m, rr_offset = off, rr_length = len\<rparr>) 0 = Some pages \<and>
    concat pages = msg_content m"
proof -
  let ?v = "view_after user conversation mss" and ?ms = "last mss"
  obtain i where i: "i < length ?ms" "m = ?ms ! i" using assms(4) by (auto simp: in_set_conv_nth)
  define e where "e = tx_entries (transcript_of ?ms) ! i"
  have body: "te_content e = msg_content m" using transcript_of_nth[OF i(1)] i(2) by (simp add: e_def entry_shows_def)
  have "view_get ?v (msg_id m) = Some e"
    using view_get_transcript_of[OF view_after_data[OF assms(1,2)] assms(3) i(1)] i(2) by (simp add: e_def)
  then have "read_transcript_message parse (scope_of user conversation ?v) \<lparr>rr_message_id = msg_id m, rr_offset = off, rr_length = len\<rparr> =
      message_page parse e \<lparr>rr_message_id = msg_id m, rr_offset = off, rr_length = len\<rparr>" for off
    by (simp add: read_transcript_message_def readable_scope_of)
  then show ?thesis
    using message_pages.walk_reads_all[OF assms(5), of e parse "msg_id m"] assms(6) body by simp
qed

text \<open>
  What is used of the printing of a payload: a string member of an object appears in the text as its
  JSON string.
\<close>

definition json_printer :: "(json_value \<Rightarrow> string) \<Rightarrow> bool" where
  "json_printer print \<longleftrightarrow>
     (\<forall>members key v. (key, JString v) \<in> set members \<longrightarrow> sublist (json_str v) (print (JObject members)))"

lemma stamp_taints:
  assumes "json_printer print"
  shows "result_is_externally_controlled parse TRANSCRIPT_GET_TOOL (print (JObject (members @ provenance_stamp True)))"
proof -
  have "sublist (json_str EXTERNAL_CONTENT_MARKER) (print (JObject (members @ provenance_stamp True)))"
  proof -
    have "(''provenance'', JString EXTERNAL_CONTENT_MARKER) \<in> set (members @ provenance_stamp True)"
      by (simp add: provenance_stamp_def)
    then show ?thesis using assms unfolding json_printer_def by blast
  qed
  moreover have "sublist EXTERNAL_CONTENT_MARKER (json_str EXTERNAL_CONTENT_MARKER)"
    using sublist_appendI[of EXTERNAL_CONTENT_MARKER "[CHR 0x22]" "[CHR 0x22]"] by (simp add: json_str_def json_body_marker)
  ultimately have "carries_external_marker (print (JObject (members @ provenance_stamp True)))"
    unfolding carries_external_marker_def contains_str_sublist by (rule sublist_order.order_trans[rotated])
  moreover have "tcl_provenance (classify_tool TRANSCRIPT_GET_TOOL) = Declared ExternalContentMarker"
    unfolding TRANSCRIPT_GET_TOOL_def by code_simp
  ultimately show ?thesis by (simp add: result_is_externally_controlled_def)
qed

lemma external_message_page:
  "json_printer print \<Longrightarrow> entry_is_externally_controlled parse e \<Longrightarrow>
   result_is_externally_controlled parse TRANSCRIPT_GET_TOOL (print (message_page parse e rq))"
  using stamp_taints[of print parse "[(''ok'', JBool True), (''message_id'', JString (te_id e)),
       (''role'', JString (role_as_str (te_role e))), (''produced_by'', opt_string (te_tool_name e))] @
       page_members (te_content e) rq @ page_notes (te_content e) rq"]
  by (simp add: message_page_def)

section \<open>Turns\<close>

lemma rposition_last: "P x \<Longrightarrow> rposition P (xs @ [x]) = Some (length xs)"
  by (induction xs) auto

lemma position_skip:
  "\<forall>x\<in>set xs. \<not> P x \<Longrightarrow> P y \<Longrightarrow> position P (xs @ y # ys) = Some (length xs)"
  by (induction xs) auto

lemma turn_range_holds:
  assumes "tv_data v = transcript_of ms" and "distinct (map msg_id ms)" and "i < length ms"
    and "turn_range v (msg_id (ms ! i)) = Some (start, fin)"
  shows "start \<le> i \<and> i < fin \<and> fin \<le> length ms"
proof -
  let ?es = "tx_entries (tv_data v)" and ?P = "\<lambda>e :: transcript_entry. te_role e = User"
  have len: "length ?es = length ms" using assms(1) transcript_of_length by simp
  have "hm_get (tx_by_id (tv_data v)) (msg_id (ms ! i)) = Some i" using transcript_of_by_id[OF assms(2,3)] assms(1) by simp
  then have r: "rposition ?P (take (Suc i) ?es) = Some start"
    and f: "fin = (case position ?P (drop (Suc start) ?es) of Some offset \<Rightarrow> start + 1 + offset | None \<Rightarrow> length ?es)"
    using assms(4) by (auto simp: turn_range_def Let_def split: option.splits)
  note start = rposition_Some[OF r]
  have "i < fin \<and> fin \<le> length ms"
  proof (cases "position ?P (drop (Suc start) ?es)")
    case None
    then show ?thesis using f len assms(3) by simp
  next
    case (Some offset)
    have off: "offset < length (drop (Suc start) ?es)" "?P (drop (Suc start) ?es ! offset)"
      using position_Some[OF Some] by auto
    then have user: "?P (?es ! (start + 1 + offset))" "start + 1 + offset < length ?es" by auto
    have "\<not> start + 1 + offset \<le> i"
    proof
      assume le: "start + 1 + offset \<le> i"
      then have "\<not> ?P (take (Suc i) ?es ! (start + 1 + offset))" using start len assms(3) by simp
      then show False using user(1) le by simp
    qed
    then show ?thesis using f Some user(2) len by simp
  qed
  moreover have "start \<le> i" using start by simp
  ultimately show ?thesis by simp
qed

lemma list_ex_slice:
  assumes "start \<le> fin" and "fin \<le> length xs"
  shows "list_ex P (take (fin - start) (drop start xs)) \<longleftrightarrow> (\<exists>j. start \<le> j \<and> j < fin \<and> P (xs ! j))"
proof
  assume "list_ex P (take (fin - start) (drop start xs))"
  then obtain k where "k < fin - start" "P (xs ! (start + k))"
    using assms by (auto simp: list_ex_iff in_set_conv_nth)
  then show "\<exists>j. start \<le> j \<and> j < fin \<and> P (xs ! j)" by (intro exI[of _ "start + k"]) simp
next
  assume "\<exists>j. start \<le> j \<and> j < fin \<and> P (xs ! j)"
  then obtain j where j: "start \<le> j" "j < fin" "P (xs ! j)" by blast
  then have "take (fin - start) (drop start xs) ! (j - start) = xs ! j" using assms by simp
  moreover have "j - start < length (take (fin - start) (drop start xs))" using j assms by simp
  ultimately show "list_ex P (take (fin - start) (drop start xs))"
    unfolding list_ex_iff using j(3) nth_mem by metis
qed

text \<open>The stamp is the only member of a payload under its key.\<close>

lemma page_stamp:
  "json_get ''provenance'' (message_page parse e rq) =
     (if entry_is_externally_controlled parse e then Some (JString EXTERNAL_CONTENT_MARKER) else None)"
  "json_get ''provenance'' (turn_page parse es rq) =
     (if list_ex (entry_is_externally_controlled parse) es then Some (JString EXTERNAL_CONTENT_MARKER) else None)"
  by (simp_all add: message_page_def turn_page_def page_members_def page_notes_def provenance_stamp_def map_add_def
      split: prod.split)

text \<open>
  C15: Reading old bytes back keeps their provenance stamp. Whatever range of a stored message a turn
  reads back, the payload is stamped as external content exactly when the message is externally
  controlled, and the payload of the turn around it exactly when some message of that turn is. A tool
  result counts as externally controlled exactly when the loop closed the gate on it as it arrived,
  graded as then by its whole stored text and the name of its call, so a range that misses the outside
  bytes makes no difference; a result whose call cannot be found counts as external.
\<close>

theorem read_back_keeps_provenance:
  assumes "sorted_wrt prefix mss" and "mss \<noteq> []" and "distinct (map msg_id (last mss))" and "i < length (last mss)"
    and es: "es = tx_entries (transcript_of (last mss))" and v: "v = view_after user conversation mss"
    and rq: "rq = \<lparr>rr_message_id = msg_id (last mss ! i), rr_offset = off, rr_length = len\<rparr>"
  shows "json_get ''provenance'' (read_transcript_message parse (scope_of user conversation v) rq) =
      (if entry_is_externally_controlled parse (es ! i) then Some (JString EXTERNAL_CONTENT_MARKER) else None) \<and>
    (\<forall>start fin. turn_range v (msg_id (last mss ! i)) = Some (start, fin) \<longrightarrow> start \<le> i \<and> i < fin \<and>
       json_get ''provenance'' (read_transcript_turn parse (scope_of user conversation v) rq) =
         (if \<exists>j. start \<le> j \<and> j < fin \<and> entry_is_externally_controlled parse (es ! j)
          then Some (JString EXTERNAL_CONTENT_MARKER) else None)) \<and>
    (case te_tool_name (es ! i) of
       Some name \<Rightarrow> entry_is_externally_controlled parse (es ! i) \<longleftrightarrow>
         snd (observe_result parse name (msg_content (last mss ! i)) (new_with_policy policy)) = JustClosed
     | None \<Rightarrow> entry_is_externally_controlled parse (es ! i) \<longleftrightarrow> msg_role (last mss ! i) = ToolRole)"
proof -
  note data = view_after_data[OF assms(1,2), of user conversation, folded v]
  have len: "length es = length (last mss)" using transcript_of_length[of "last mss"] by (simp add: es)
  have get: "view_get v (msg_id (last mss ! i)) = Some (es ! i)"
    unfolding es by (rule view_get_transcript_of[OF data assms(3,4)])
  then have "read_transcript_message parse (scope_of user conversation v) rq = message_page parse (es ! i) rq"
    by (simp add: read_transcript_message_def readable_scope_of rq v)
  moreover have "start \<le> i \<and> i < fin \<and>
       json_get ''provenance'' (read_transcript_turn parse (scope_of user conversation v) rq) =
         (if \<exists>j. start \<le> j \<and> j < fin \<and> entry_is_externally_controlled parse (es ! j)
          then Some (JString EXTERNAL_CONTENT_MARKER) else None)"
    if r: "turn_range v (msg_id (last mss ! i)) = Some (start, fin)" for start fin
  proof -
    have range: "start \<le> i \<and> i < fin \<and> fin \<le> length es" using turn_range_holds[OF data assms(3,4) r] len by simp
    have "read_transcript_turn parse (scope_of user conversation v) rq = turn_page parse (take (fin - start) (drop start es)) rq"
      using get r data by (simp add: read_transcript_turn_def readable_scope_of rq es v)
    moreover have "list_ex P (take (fin - start) (drop start es)) \<longleftrightarrow> (\<exists>j. start \<le> j \<and> j < fin \<and> P (es ! j))" for P
      by (rule list_ex_slice) (use range in auto)
    ultimately show ?thesis using range by (simp add: page_stamp)
  qed
  moreover have "te_content (es ! i) = msg_content (last mss ! i)" "te_role (es ! i) = msg_role (last mss ! i)"
    using transcript_of_nth[OF assms(4)] by (simp_all add: es entry_shows_def)
  ultimately show ?thesis
    by (auto simp: page_stamp entry_is_externally_controlled_def observe_result_def new_with_policy_def split: option.split)
qed

text \<open>
  The stamp reaches the gate only under the tool's own name. A read of external content is graded as
  external when it is graded as a result of \<^verbatim>\<open>builtin_transcript_get\<close>; the loop grades a result under the
  name the model called, which has the location before it, and under that name it is not.
\<close>

lemma composed_reader: "compose_name DaemonLoc TRANSCRIPT_GET_TOOL = Some ''daemon_builtin_transcript_get''"
  unfolding TRANSCRIPT_GET_TOOL_def by code_simp

lemma read_back_is_graded_by_its_name:
  assumes "json_printer print" and "entry_is_externally_controlled parse e"
    and "compose_name DaemonLoc TRANSCRIPT_GET_TOOL = Some name"
  shows "result_is_externally_controlled parse TRANSCRIPT_GET_TOOL (print (message_page parse e rq)) \<and>
    \<not> result_is_externally_controlled parse name (print (message_page parse e rq))"
proof -
  have "name = ''daemon_builtin_transcript_get''" using assms(3) by (simp add: composed_reader)
  moreover have "tcl_provenance (classify_tool ''daemon_builtin_transcript_get'') = Trusted" by code_simp
  ultimately show ?thesis
    using external_message_page[OF assms(1,2)] by (simp add: result_is_externally_controlled_def)
qed

section \<open>The turns an index names\<close>

lemma openings_set: "j \<in> set (openings ms) \<longleftrightarrow> j < length ms \<and> msg_role (ms ! j) = User"
  by (auto simp: openings_def)

lemma openings_nth: "n < length (openings ms) \<Longrightarrow> openings ms ! n < length ms \<and> msg_role (ms ! (openings ms ! n)) = User"
  using openings_set nth_mem by blast

lemma openings_increase: "sorted_wrt (<) (openings ms)"
  unfolding openings_def by (rule sorted_wrt_filter) simp

lemma openings_gap:
  assumes "Suc n < length (openings ms)" and "openings ms ! n < j" and "j < openings ms ! Suc n"
  shows "msg_role (ms ! j) \<noteq> User"
proof
  assume "msg_role (ms ! j) = User"
  moreover have "j < length ms" using openings_nth[OF assms(1)] assms(3) by simp
  ultimately have "j \<in> set (openings ms)" by (simp add: openings_set)
  then obtain k where k: "k < length (openings ms)" "openings ms ! k = j" by (auto simp: in_set_conv_nth)
  consider "k < n" | "k = n" | "k = Suc n" | "Suc n < k" by linarith
  then show False
    using k assms sorted_wrt_nth_less[OF openings_increase[of ms]] by cases (force)+
qed

lemma turn_range_of_opening:
  assumes "tv_data v = transcript_of ms" and "distinct (map msg_id ms)" and "Suc n < length (openings ms)"
  shows "turn_range v (msg_id (ms ! (openings ms ! n))) = Some (openings ms ! n, openings ms ! Suc n)"
proof -
  let ?es = "tx_entries (tv_data v)" and ?P = "\<lambda>e :: transcript_entry. te_role e = User"
  let ?a = "openings ms ! n" and ?b = "openings ms ! Suc n"
  have len: "length ?es = length ms" using assms(1) transcript_of_length by simp
  have role: "te_role (?es ! j) = msg_role (ms ! j)" if "j < length ms" for j
    using transcript_of_nth[OF that] assms(1) by (simp add: entry_shows_def)
  have ab: "?a < ?b" "?a < length ms" "?b < length ms" "?P (?es ! ?a)" "?P (?es ! ?b)"
    using sorted_wrt_nth_less[OF openings_increase, of n "Suc n" ms] openings_nth[of n ms] openings_nth[of "Suc n" ms] assms(3) role
    by simp_all
  have "rposition ?P (take (Suc ?a) ?es) = Some ?a"
    using rposition_last[of ?P "?es ! ?a" "take ?a ?es"] ab len by (simp add: take_Suc_conv_app_nth)
  moreover have "position ?P (drop (Suc ?a) ?es) = Some (?b - Suc ?a)"
  proof -
    have "drop (Suc ?a) ?es = take (?b - Suc ?a) (drop (Suc ?a) ?es) @ drop ?b ?es"
      using ab(1) append_take_drop_id[of "?b - Suc ?a" "drop (Suc ?a) ?es"] by simp
    also have "drop ?b ?es = ?es ! ?b # drop (Suc ?b) ?es" using ab(3) len by (simp add: Cons_nth_drop_Suc)
    finally have split: "drop (Suc ?a) ?es = take (?b - Suc ?a) (drop (Suc ?a) ?es) @ ?es ! ?b # drop (Suc ?b) ?es" .
    have "\<not> ?P x" if x: "x \<in> set (take (?b - Suc ?a) (drop (Suc ?a) ?es))" for x
    proof -
      obtain k where k: "k < ?b - Suc ?a" "x = ?es ! (Suc ?a + k)"
        using x ab len by (auto simp: in_set_conv_nth)
      then show ?thesis using openings_gap[OF assms(3), of "Suc ?a + k"] role[of "Suc ?a + k"] ab(3) by simp
    qed
    then show ?thesis using position_skip[of "take (?b - Suc ?a) (drop (Suc ?a) ?es)" ?P] ab len split
      by (metis (no_types, lifting) length_drop length_take less_imp_le_nat diff_le_mono min.absorb2)
  qed
  moreover have "hm_get (tx_by_id (tv_data v)) (msg_id (ms ! ?a)) = Some ?a"
    using transcript_of_by_id[OF assms(2) ab(2)] assms(1) by simp
  ultimately show ?thesis using ab(1) by (simp add: turn_range_def Let_def)
qed

text \<open>
  The id an index line gives is the way back to the turn. For every earlier turn a conversation's index
  names, reading the turn by that id and following the offsets ends, and the pages put together are the
  rendering of exactly the messages from the one that opened the turn up to the one that opened the next.
\<close>

theorem indexed_turn_reads_back:
  assumes "sorted_wrt prefix mss" and "mss \<noteq> []" and "distinct (map msg_id (last mss))"
    and "n < length (index_turns (last mss) window)" and "len \<noteq> Some 0"
    and "body = render_turn (take (openings (last mss) ! Suc n - openings (last mss) ! n)
           (drop (openings (last mss) ! n) (tx_entries (transcript_of (last mss)))))"
    and "length body \<le> u64_max"
  shows "\<exists>pages. walk_pages (Suc (length body))
      (\<lambda>off. read_transcript_turn parse (scope_of user conversation (view_after user conversation mss))
         \<lparr>rr_message_id = it_id (index_turns (last mss) window ! n), rr_offset = off, rr_length = len\<rparr>) 0 = Some pages \<and>
    concat pages = body"
proof -
  let ?v = "view_after user conversation mss" and ?ms = "last mss"
  let ?a = "openings ?ms ! n" and ?b = "openings ?ms ! Suc n"
  have n: "Suc n < length (openings ?ms)" using assms(4) by (simp add: index_turns_def)
  have id: "it_id (index_turns ?ms window ! n) = msg_id (?ms ! ?a)" using assms(4) by (simp add: index_turns_def Let_def)
  note data = view_after_data[OF assms(1,2), of user conversation]
  have a: "?a < length ?ms" using openings_nth[of n ?ms] n by simp
  have "read_transcript_turn parse (scope_of user conversation ?v) \<lparr>rr_message_id = msg_id (?ms ! ?a), rr_offset = off, rr_length = len\<rparr> =
      turn_page parse (take (?b - ?a) (drop ?a (tx_entries (transcript_of ?ms))))
        \<lparr>rr_message_id = msg_id (?ms ! ?a), rr_offset = off, rr_length = len\<rparr>" for off
    using view_get_transcript_of[OF data assms(3) a] turn_range_of_opening[OF data assms(3) n] data
    by (simp add: read_transcript_turn_def readable_scope_of)
  then show ?thesis
    using turn_pages.walk_reads_all[OF assms(5), of "take (?b - ?a) (drop ?a (tx_entries (transcript_of ?ms)))" parse "msg_id (?ms ! ?a)"]
      assms(6,7) id by simp
qed

lemma choose_pass_takes:
  "choose_pass most want ts is keep = rev (take (most - length keep) (filter (\<lambda>i. it_in_window (ts ! i) = want) is)) @ keep"
  by (induction "is" arbitrary: keep) (auto simp: take_Cons' Suc_diff_Suc)

text \<open>The lines an index lists when it cannot list them all: turns out of view first, and of those the latest.\<close>

lemma chosen_turns_are_the_latest_out_of_view:
  fixes ts most
  defines "out \<equiv> filter (\<lambda>i. \<not> it_in_window (ts ! i)) (rev [0..<length ts])"
    and "inside \<equiv> filter (\<lambda>i. it_in_window (ts ! i)) (rev [0..<length ts])"
  shows "set (chosen_turns ts most) = set (take most (out @ inside)) \<and> length (chosen_turns ts most) = min most (length ts)"
proof (cases "length ts \<le> most")
  case True
  have total: "length (out @ inside) = length ts"
    using sum_length_filter_compl[of "\<lambda>i. it_in_window (ts ! i)" "rev [0..<length ts]"] by (simp add: out_def inside_def)
  have "set (out @ inside) = {0..<length ts}" by (auto simp: out_def inside_def)
  then show ?thesis using True total by (simp add: chosen_turns_def)
next
  case False
  have total: "length (out @ inside) = length ts"
    using sum_length_filter_compl[of "\<lambda>i. it_in_window (ts ! i)" "rev [0..<length ts]"] by (simp add: out_def inside_def)
  have "chosen_turns ts most = rev (take most (out @ inside))"
    using False by (simp add: chosen_turns_def choose_pass_takes Let_def out_def inside_def min_def)
  then show ?thesis using total False by (auto simp: min_def)
qed

section \<open>Witnesses\<close>

text \<open>A short conversation: a question, a tool call, its result, an answer and the next question.\<close>

definition sample_messages :: "message list" where
  "sample_messages =
     [message_new ''u1'' User ''read it'',
      (assistant_with_tool_calls ''a1'' [\<lparr>tc_id = ''c1'', tc_name = ''daemon_osm__osm_search'', tc_arguments = ''{}''\<rparr>]),
      tool_result ''t1'' ''c1'' ''a page'',
      message_new ''a2'' Assistant ''it says a page'',
      message_new ''u2'' User ''and now?'']"

definition print_strings :: "json_value \<Rightarrow> string" where
  "print_strings v =
     (case v of JObject members \<Rightarrow> concat (map (\<lambda>(key, w). case w of JString s \<Rightarrow> json_str s | _ \<Rightarrow> []) members) | _ \<Rightarrow> [])"

lemma json_printer_print_strings: "json_printer print_strings"
  unfolding json_printer_def
proof (intro allI impI)
  fix members :: "(string \<times> json_value) list" and key v :: string
  assume "(key, JString v) \<in> set members"
  then obtain ys zs where "members = ys @ (key, JString v) # zs" by (auto dest: split_list)
  then show "sublist (json_str v) (print_strings (JObject members))" by (simp add: print_strings_def)
qed

theorem transcript_reads_back_whole_witness:
  "\<exists>pages. walk_pages 7
      (\<lambda>off. read_transcript_message (\<lambda>_. None)
         (scope_of ''ann'' ''c'' (view_after ''ann'' ''c'' [take 3 sample_messages, sample_messages]))
         \<lparr>rr_message_id = ''t1'', rr_offset = off, rr_length = Some 4\<rparr>) 0 = Some pages \<and> concat pages = ''a page''"
proof -
  have "distinct (map msg_id sample_messages)" "length sample_messages = 5"
    "msg_id (sample_messages ! 2) = ''t1''" "msg_content (sample_messages ! 2) = ''a page''" by code_simp+
  moreover have fuel: "(7 :: nat) = Suc (length ''a page'')" by simp
  ultimately show ?thesis unfolding fuel
    using transcript_reads_back_whole[of "[take 3 sample_messages, sample_messages]" "sample_messages ! 2" "Some 4" "\<lambda>_. None" "''ann''" "''c''"]
    by (simp add: take_is_prefix u64_max_def del: walk_pages.simps)
qed

theorem indexed_turn_reads_back_witness:
  "\<exists>pages. walk_pages 93
      (\<lambda>off. read_transcript_turn (\<lambda>_. None)
         (scope_of ''ann'' ''c'' (view_after ''ann'' ''c'' [sample_messages]))
         \<lparr>rr_message_id = ''u1'', rr_offset = off, rr_length = None\<rparr>) 0 = Some pages \<and>
    concat pages = render_turn (take 4 (tx_entries (transcript_of sample_messages)))"
proof -
  have "openings sample_messages = [0, 4]" "it_id (index_turns sample_messages 4 ! 0) = ''u1''"
    "length (index_turns sample_messages 4) = 1" "distinct (map msg_id sample_messages)"
    "length (render_turn (take 4 (tx_entries (transcript_of sample_messages)))) = 92" by code_simp+
  then show ?thesis
    using indexed_turn_reads_back[of "[sample_messages]" 0 4 None _ "\<lambda>_. None" "''ann''" "''c''"] by (simp add: u64_max_def)
qed

theorem read_back_keeps_provenance_witness:
  "json_get ''provenance'' (read_transcript_message (\<lambda>_. None) (scope_of ''ann'' ''c'' (view_after ''ann'' ''c'' [sample_messages]))
      \<lparr>rr_message_id = ''t1'', rr_offset = 2, rr_length = Some 1\<rparr>) = Some (JString EXTERNAL_CONTENT_MARKER) \<and>
   json_get ''provenance'' (read_transcript_message (\<lambda>_. None) (scope_of ''ann'' ''c'' (view_after ''ann'' ''c'' [sample_messages]))
      \<lparr>rr_message_id = ''a2'', rr_offset = 0, rr_length = None\<rparr>) = None"
proof -
  have "distinct (map msg_id sample_messages)" "length sample_messages = 5" "msg_id (sample_messages ! 2) = ''t1''"
    "msg_id (sample_messages ! 3) = ''a2''"
    "entry_is_externally_controlled (\<lambda>_. None) (tx_entries (transcript_of sample_messages) ! 2)"
    "\<not> entry_is_externally_controlled (\<lambda>_. None) (tx_entries (transcript_of sample_messages) ! 3)" by code_simp+
  then show ?thesis
    using read_back_keeps_provenance[OF _ _ _ _ refl refl refl, of "[sample_messages]" 2 "\<lambda>_. None" "''ann''" "''c''" 2 "Some 1"]
      read_back_keeps_provenance[OF _ _ _ _ refl refl refl, of "[sample_messages]" 3 "\<lambda>_. None" "''ann''" "''c''" 0 None]
    by simp
qed

end
