(* ===== verification/Round_Tools.thy ===== *)
theory Round_Tools
  imports Tool_Provenance
begin

text \<open>
  The tools one round of a turn carries (\<^verbatim>\<open>core/src/tool_advertising.rs\<close> and the parts of
  \<^verbatim>\<open>core/src/service.rs\<close> that fill the round's table, activate tools and decide on a call).

  \<^item> \<open>activation_ledger\<close> holds what a turn's searches and first calls activated: bounded, appended to
    below the bound, and at the bound the tool unused for longest makes room.
  \<^item> \<open>round_table\<close> builds the table of a round from the turn's tools, the demotion of hosted search
    and the ledger; its block is what the model is shown.
  \<^item> \<open>activate_named\<close>, \<open>activate_hits\<close> and \<open>activate_namespace\<close> are the three places of the loop that
    activate; \<open>turn_step\<close> is the turn over them.
  \<^item> \<open>call_verdict\<close> is what the loop does with one call before a tool runs: the arguments, the route,
    the loop's own tools, the allowlist, the gate, a held act, the schema of a tool called by name.
    What the loop does beside the decision (the scope a subagent call gets, the narration, the events
    of a call) is left out.
  \<^item> Lookups of the tool executor and the warning of an act that went badly are functions given to
    the definitions.
\<close>

section \<open>The ledger of activations\<close>

definition DISCOVERY_TOOL :: string where "DISCOVERY_TOOL = ''builtin_tool_search''"
definition MAX_CLIENT_TOOLS_IN_BLOCK :: nat where "MAX_CLIENT_TOOLS_IN_BLOCK = 8"
definition MAX_ACTIVATED_TOOLS :: nat where "MAX_ACTIVATED_TOOLS = 24"

type_synonym tool_def = "json_value tool_definition"

datatype activated = Admitted "string option" | AlreadyHeld | ActivationRefused

record activation =
  ac_connection :: tool_connection
  ac_def :: tool_def
  ac_last_used_round :: nat

record activation_ledger =
  al_entries :: "activation list"
  al_bound :: nat

definition ledger_with_bound :: "nat \<Rightarrow> activation_ledger" where
  "ledger_with_bound bound = \<lparr>al_entries = [], al_bound = bound\<rparr>"

definition ledger_new :: activation_ledger where
  "ledger_new = ledger_with_bound MAX_ACTIVATED_TOOLS"

abbreviation activation_name :: "activation \<Rightarrow> string" where
  "activation_name e \<equiv> td_name (ac_def e)"

definition ledger_len :: "activation_ledger \<Rightarrow> nat" where
  "ledger_len l = length (al_entries l)"

definition ledger_is_empty :: "activation_ledger \<Rightarrow> bool" where
  "ledger_is_empty l \<longleftrightarrow> al_entries l = []"

definition ledger_holds :: "activation_ledger \<Rightarrow> string \<Rightarrow> bool" where
  "ledger_holds l provider_name = list_ex (\<lambda>e. activation_name e = provider_name) (al_entries l)"

text \<open>\<^verbatim>\<open>min_by_key\<close> over the last use and the position.\<close>

definition used_before :: "nat \<times> activation \<Rightarrow> nat \<times> activation \<Rightarrow> bool" where
  "used_before a b \<longleftrightarrow> ac_last_used_round (snd a) < ac_last_used_round (snd b) \<or>
     ac_last_used_round (snd a) = ac_last_used_round (snd b) \<and> fst a \<le> fst b"

fun longest_unused :: "(nat \<times> activation) list \<Rightarrow> (nat \<times> activation) option" where
  "longest_unused [] = None"
| "longest_unused (x # xs) =
     (case longest_unused xs of None \<Rightarrow> Some x | Some y \<Rightarrow> Some (if used_before x y then x else y))"

definition mark_used :: "string \<Rightarrow> nat \<Rightarrow> activation_ledger \<Rightarrow> activation_ledger" where
  "mark_used provider_name round l =
     (case position (\<lambda>e. activation_name e = provider_name) (al_entries l) of
        None \<Rightarrow> l
      | Some i \<Rightarrow> l\<lparr>al_entries := (al_entries l)[i := (al_entries l ! i)\<lparr>ac_last_used_round := round\<rparr>]\<rparr>)"

definition activate ::
  "tool_connection \<Rightarrow> tool_def \<Rightarrow> nat \<Rightarrow> activation_ledger \<Rightarrow> activation_ledger \<times> activated" where
  "activate connection def round l =
     (if ledger_holds l (td_name def) then (mark_used (td_name def) round l, AlreadyHeld)
      else (let entry = \<lparr>ac_connection = connection, ac_def = def, ac_last_used_round = round\<rparr> in
        if length (al_entries l) < al_bound l
        then (l\<lparr>al_entries := al_entries l @ [entry]\<rparr>, Admitted None)
        else case longest_unused (List.enumerate 0 (al_entries l)) of
            Some (i, victim) \<Rightarrow>
              if ac_last_used_round victim < round
              then (l\<lparr>al_entries := take i (al_entries l) @ drop (Suc i) (al_entries l) @ [entry]\<rparr>,
                    Admitted (Some (activation_name (al_entries l ! i))))
              else (l, ActivationRefused)
          | None \<Rightarrow> (l, ActivationRefused)))"

definition offers :: "activation_ledger \<Rightarrow> (tool_connection \<times> tool_def) list" where
  "offers l = map (\<lambda>e. (ac_connection e, ac_def e)) (al_entries l)"

text \<open>What the loop keeps of an attempt; the outcome is logged.\<close>

definition record_activation ::
  "activation_ledger \<Rightarrow> tool_connection \<Rightarrow> tool_def \<Rightarrow> nat \<Rightarrow> activation_ledger" where
  "record_activation l connection def round = fst (activate connection def round l)"

section \<open>The table of a round\<close>

record tool_namespace =
  ns_name :: string
  ns_description :: string
  ns_tools :: "tool_def list"

definition BEGIN_STEP_TOOL :: string where "BEGIN_STEP_TOOL = ''begin_step''"
definition COMPLETE_STEP_TOOL :: string where "COMPLETE_STEP_TOOL = ''complete_step''"
definition PROMOTE_PLAN_TOOL :: string where "PROMOTE_PLAN_TOOL = ''promote_plan_to_skill''"

text \<open>The three tools of the loop itself, by name; their prose and schemas come with the turn.\<close>

record turn_tools =
  tt_core_tools :: "tool_def list"
  tt_use_hosted_search :: bool
  tt_namespaces :: "tool_namespace list"
  tt_scratchpad_write :: bool
  tt_skill_write_authored :: bool
  tt_begin_step :: tool_def
  tt_complete_step :: tool_def
  tt_promote_plan :: tool_def
  tt_client_tool_defs :: "tool_def list"
  tt_allowlist :: "string list option"

definition core_tools_for_llm :: "turn_tools \<Rightarrow> tool_def list" where
  "core_tools_for_llm t =
     (if tt_use_hosted_search t \<and> tt_namespaces t \<noteq> []
      then filter (\<lambda>d. td_name d \<noteq> ''builtin_tool_search'') (tt_core_tools t)
      else tt_core_tools t)"

definition round_core :: "turn_tools \<Rightarrow> bool \<Rightarrow> tool_def list" where
  "round_core t demoted = (if demoted then tt_core_tools t else core_tools_for_llm t)"

definition discovery_offered :: "turn_tools \<Rightarrow> bool \<Rightarrow> bool" where
  "discovery_offered t demoted = list_ex (\<lambda>d. td_name d = DISCOVERY_TOOL) (round_core t demoted)"

definition client_in_block :: "turn_tools \<Rightarrow> bool \<Rightarrow> nat" where
  "client_in_block t demoted =
     (if discovery_offered t demoted
      then min (length (tt_client_tool_defs t)) MAX_CLIENT_TOOLS_IN_BLOCK
      else length (tt_client_tool_defs t))"

definition offer_pinned :: "turn_tools \<Rightarrow> bool \<Rightarrow> json_value tool_router" where
  "offer_pinned t demoted =
     (let r = offer daemon_builtins (round_core t demoted) router_new;
          r = (if tt_use_hosted_search t \<and> \<not> demoted
               then fold (\<lambda>ns. offer_deferred (daemon_server (ns_name ns)) (ns_tools ns)) (tt_namespaces t) r
               else r)
      in if tt_scratchpad_write t
         then (let r = offer_core_loop_tool (tt_complete_step t) (offer_core_loop_tool (tt_begin_step t) r)
               in if tt_skill_write_authored t then offer_core_loop_tool (tt_promote_plan t) r else r)
         else r)"

definition offer_connection :: "turn_tools \<Rightarrow> bool \<Rightarrow> json_value tool_router \<Rightarrow> json_value tool_router" where
  "offer_connection t demoted r =
     (let n = client_in_block t demoted
      in offer_named client_device (drop n (tt_client_tool_defs t))
           (offer client_device (take n (tt_client_tool_defs t)) r))"

definition offer_activations :: "activation_ledger \<Rightarrow> json_value tool_router \<Rightarrow> json_value tool_router" where
  "offer_activations l = fold (\<lambda>(connection, def). offer connection [def]) (offers l)"

definition allows :: "string list option \<Rightarrow> string \<Rightarrow> bool" where
  "allows allowlist name = (case allowlist of None \<Rightarrow> True | Some allowed \<Rightarrow> name \<in> set allowed)"

definition restrict_table :: "string list option \<Rightarrow> json_value tool_router \<Rightarrow> json_value tool_router" where
  "restrict_table allowlist r =
     (case allowlist of
        None \<Rightarrow> r
      | Some allowed \<Rightarrow>
          retain_tools (\<lambda>name. name = BEGIN_STEP_TOOL \<or> name = COMPLETE_STEP_TOOL \<or> list_ex (\<lambda>a. a = name) allowed) r)"

definition round_table :: "turn_tools \<Rightarrow> bool \<Rightarrow> activation_ledger \<Rightarrow> json_value tool_router" where
  "round_table t demoted l =
     restrict_table (tt_allowlist t) (offer_activations l (offer_connection t demoted (offer_pinned t demoted)))"

definition tool_defs :: "turn_tools \<Rightarrow> bool \<Rightarrow> activation_ledger \<Rightarrow> tool_def list" where
  "tool_defs t demoted l = advertised_definitions (round_table t demoted l)"

text \<open>What the provider's own search may still carry.\<close>

definition offered_namespaces :: "json_value tool_router \<Rightarrow> tool_namespace list \<Rightarrow> tool_namespace list" where
  "offered_namespaces r =
     List.map_filter (\<lambda>ns.
       let tools = List.map_filter (\<lambda>t. map_option rt_advertised
             (List.find (\<lambda>e. rt_surface e = Deferred \<and> rt_provider_name e = td_name t) (tr_entries r))) (ns_tools ns)
       in if tools = [] then None
          else Some \<lparr>ns_name = ns_name ns, ns_description = ns_description ns, ns_tools = tools\<rparr>)"

section \<open>The places that activate\<close>

definition activation_connection :: "tool_namespace list \<Rightarrow> string \<Rightarrow> tool_connection" where
  "activation_connection namespaces tool_name =
     (case List.find (\<lambda>ns. list_ex (\<lambda>t. td_name t = tool_name) (ns_tools ns)) namespaces of
        None \<Rightarrow> daemon_registry
      | Some ns \<Rightarrow> daemon_server (ns_name ns))"

definition activate_named :: "json_value routed_tool \<Rightarrow> nat \<Rightarrow> activation_ledger \<Rightarrow> activation_ledger" where
  "activate_named entry round l =
     (case rt_connection entry of
        Some connection \<Rightarrow>
          if rt_surface entry = Named
          then record_activation l connection ((rt_advertised entry)\<lparr>td_name := rt_provider_name entry\<rparr>) round
          else l
      | None \<Rightarrow> l)"

definition hit_definition ::
  "turn_tools \<Rightarrow> (string \<Rightarrow> tool_def option) \<Rightarrow> json_value \<Rightarrow> string \<Rightarrow> (tool_connection \<times> tool_def) option" where
  "hit_definition t lookup hit name =
     (if Option.bind (json_get ''runs_on'' hit) as_str = Some ''device''
      then map_option (\<lambda>def. (client_device, def)) (List.find (\<lambda>d. td_name d = name) (tt_client_tool_defs t))
      else if list_ex (\<lambda>d. td_name d = name) (tt_core_tools t) then None
      else map_option (\<lambda>def. (activation_connection (tt_namespaces t) (td_name def), def)) (lookup name))"

definition activate_hit ::
  "turn_tools \<Rightarrow> (string \<Rightarrow> tool_def option) \<Rightarrow> json_value tool_router \<Rightarrow> nat \<Rightarrow> json_value \<Rightarrow>
   activation_ledger \<Rightarrow> activation_ledger" where
  "activate_hit t lookup router round hit l =
     (case map_option strip_location (Option.bind (json_get ''name'' hit) as_str) of
        None \<Rightarrow> l
      | Some name \<Rightarrow>
          (case hit_definition t lookup hit name of
             None \<Rightarrow> l
           | Some (connection, def) \<Rightarrow>
               if advertises router connection (td_name def) then l else record_activation l connection def round))"

definition activate_hits ::
  "turn_tools \<Rightarrow> (string \<Rightarrow> tool_def option) \<Rightarrow> json_parser \<Rightarrow> json_value tool_router \<Rightarrow> nat \<Rightarrow> string \<Rightarrow>
   activation_ledger \<Rightarrow> activation_ledger" where
  "activate_hits t lookup parse router round result l =
     (case Option.bind (Option.bind (parse result) (json_get ''tools'')) as_array of
        None \<Rightarrow> l
      | Some hits \<Rightarrow> fold (activate_hit t lookup router round) hits l)"

definition activate_namespace ::
  "turn_tools \<Rightarrow> json_value tool_router \<Rightarrow> nat \<Rightarrow> string \<Rightarrow> activation_ledger \<Rightarrow> activation_ledger" where
  "activate_namespace t router round call l =
     (case List.find (\<lambda>ns. list_ex (\<lambda>d. td_name d = call) (ns_tools ns)) (tt_namespaces t) of
        None \<Rightarrow> l
      | Some ns \<Rightarrow>
          fold (\<lambda>d l. if \<not> list_ex (\<lambda>c. td_name c = td_name d) (tt_core_tools t) \<and>
                        \<not> advertises router (daemon_server (ns_name ns)) (td_name d)
                     then record_activation l (daemon_server (ns_name ns)) d round else l) (ns_tools ns) l)"

section \<open>One call\<close>

definition missing_required_argument :: "json_value \<Rightarrow> json_value \<Rightarrow> string option" where
  "missing_required_argument schema arguments =
     (case Option.bind (json_get ''required'' schema) as_array of
        None \<Rightarrow> None
      | Some required \<Rightarrow>
          List.find (\<lambda>name. case as_object arguments of None \<Rightarrow> True | Some args \<Rightarrow> map_of args name = None)
            (List.map_filter as_str required))"

definition parsed_arguments :: "json_parser \<Rightarrow> string \<Rightarrow> json_value option" where
  "parsed_arguments parse text = (if split_whitespace text = [] then Some (JObject []) else parse text)"

datatype call_outcome =
    BadArguments
  | PromotesPlan
  | ControlsStep
  | NotPermitted string
  | GateRefused string
  | ActHeld
  | NeedsSchema string
  | RunsTool string

definition not_permitted_text :: "string \<Rightarrow> string" where
  "not_permitted_text name =
     ''Error: the tool '' @ [CHR 0x27] @ name @ [CHR 0x27] @ '' is not permitted for this subagent '' @
     [CHR 0xE2, CHR 0x80, CHR 0x94] @ '' it is not on the configured tool allowlist. Choose a tool from your available '' @
     ''set, or answer without it.''"

definition is_core_loop :: "json_value routed_tool option \<Rightarrow> bool" where
  "is_core_loop routed = (case routed of Some e \<Rightarrow> rt_surface e = CoreLoop | None \<Rightarrow> False)"

definition missing_of_named :: "json_value routed_tool option \<Rightarrow> json_value \<Rightarrow> string option" where
  "missing_of_named routed arguments =
     (case routed of
        Some e \<Rightarrow> if rt_surface e = Named then missing_required_argument (td_parameters (rt_advertised e)) arguments else None
      | None \<Rightarrow> None)"

definition call_verdict ::
  "json_parser \<Rightarrow> string list option \<Rightarrow> turn_provenance \<Rightarrow> turn_interactivity \<Rightarrow> (string \<Rightarrow> json_value \<Rightarrow> bool) \<Rightarrow>
   json_value tool_router \<Rightarrow> tool_call \<Rightarrow> call_outcome" where
  "call_verdict parse allowlist p who warned router call =
     (case parsed_arguments parse (tc_arguments call) of
        None \<Rightarrow> BadArguments
      | Some arguments \<Rightarrow>
          (let routed = resolve router (tc_name call); name = call_name router (tc_name call) in
           if is_core_loop routed \<and> name = PROMOTE_PLAN_TOOL then PromotesPlan
           else if is_core_loop routed \<and> (name = BEGIN_STEP_TOOL \<or> name = COMPLETE_STEP_TOOL) then ControlsStep
           else if \<not> allows allowlist name then NotPermitted (not_permitted_text (tc_name call))
           else case check p name who of
             Refuse refusal \<Rightarrow> GateRefused refusal
           | Allow \<Rightarrow>
               if warned name arguments then ActHeld
               else case missing_of_named routed arguments of
                 Some missing \<Rightarrow> NeedsSchema missing
               | None \<Rightarrow> RunsTool name))"

section \<open>A turn\<close>

record turn_state =
  ts_demoted :: bool
  ts_round :: nat
  ts_ledger :: activation_ledger
  ts_table :: "json_value tool_router"

definition turn_init :: "turn_tools \<Rightarrow> turn_state" where
  "turn_init t = \<lparr>ts_demoted = False, ts_round = 0, ts_ledger = ledger_new, ts_table = round_table t False ledger_new\<rparr>"

inductive turn_step :: "turn_tools \<Rightarrow> (string \<Rightarrow> tool_def option) \<Rightarrow> json_parser \<Rightarrow> turn_state \<Rightarrow> turn_state \<Rightarrow> bool"
  for t lookup parse where
  step_round: "turn_step t lookup parse s
    (s\<lparr>ts_round := Suc (ts_round s), ts_table := round_table t (ts_demoted s) (ts_ledger s)\<rparr>)"
| step_demote: "tt_use_hosted_search t \<Longrightarrow> tt_namespaces t \<noteq> [] \<Longrightarrow> \<not> ts_demoted s \<Longrightarrow> ts_round s < 2 \<Longrightarrow>
    turn_step t lookup parse s
      (s\<lparr>ts_demoted := True, ts_round := Suc (ts_round s), ts_table := round_table t True (ts_ledger s)\<rparr>)"
| step_named_call: "resolve (ts_table s) name = Some e \<Longrightarrow>
    turn_step t lookup parse s (s\<lparr>ts_ledger := activate_named e (ts_round s) (ts_ledger s)\<rparr>)"
| step_used: "turn_step t lookup parse s (s\<lparr>ts_ledger := mark_used name (ts_round s) (ts_ledger s)\<rparr>)"
| step_search: "\<not> tt_use_hosted_search t \<or> ts_demoted s \<Longrightarrow>
    turn_step t lookup parse s
      (s\<lparr>ts_ledger := activate_hits t lookup parse (ts_table s) (ts_round s) result (ts_ledger s)\<rparr>)"
| step_namespace: "tt_use_hosted_search t \<Longrightarrow> \<not> ts_demoted s \<Longrightarrow>
    (case resolve (ts_table s) name of Some e \<Rightarrow> \<not> is_client e | None \<Rightarrow> True) \<Longrightarrow>
    \<not> ledger_holds (ts_ledger s) (call_name (ts_table s) name) \<Longrightarrow>
    \<not> list_ex (\<lambda>d. td_name d = call_name (ts_table s) name) (tt_core_tools t) \<Longrightarrow>
    turn_step t lookup parse s
      (s\<lparr>ts_ledger := activate_namespace t (ts_table s) (ts_round s) (call_name (ts_table s) name) (ts_ledger s)\<rparr>)"

section \<open>The ledger is bounded and keeps what is in use\<close>

definition ledger_ok :: "nat \<Rightarrow> activation_ledger \<Rightarrow> bool" where
  "ledger_ok round l \<longleftrightarrow> length (al_entries l) \<le> al_bound l \<and> distinct (map activation_name (al_entries l)) \<and>
     (\<forall>e\<in>set (al_entries l). ac_last_used_round e \<le> round)"

definition grows :: "activation_ledger \<Rightarrow> activation_ledger \<Rightarrow> bool" where
  "grows l l' \<longleftrightarrow> al_bound l' = al_bound l \<and> length (al_entries l) \<le> length (al_entries l') \<and>
     (length (al_entries l') < al_bound l \<longrightarrow> prefix (offers l) (offers l'))"

lemma grows_refl [simp]: "grows l l"
  by (simp add: grows_def)

lemma grows_trans: "grows l l' \<Longrightarrow> grows l' l'' \<Longrightarrow> grows l l''"
  by (auto simp: grows_def intro: prefix_order.trans)

lemma longest_unused_min:
  "longest_unused xs = Some x \<Longrightarrow> x \<in> set xs \<and> (\<forall>y\<in>set xs. used_before x y)"
proof (induction xs arbitrary: x)
  case (Cons a xs)
  show ?case
  proof (cases "longest_unused xs")
    case None
    then have "xs = []" by (cases xs) (auto split: option.splits)
    then show ?thesis using Cons.prems by (simp add: used_before_def)
  next
    case (Some y)
    then show ?thesis using Cons.IH[OF Some] Cons.prems by (auto simp: used_before_def split: if_splits)
  qed
qed simp

lemma longest_unused_exists: "xs \<noteq> [] \<Longrightarrow> \<exists>x. longest_unused xs = Some x"
  by (cases xs) (auto split: option.splits)

lemma mark_used_keeps:
  "al_bound (mark_used n round l) = al_bound l" "offers (mark_used n round l) = offers l"
  "map activation_name (al_entries (mark_used n round l)) = map activation_name (al_entries l)"
  "length (al_entries (mark_used n round l)) = length (al_entries l)"
  by (auto simp: mark_used_def offers_def map_update list_update_same_conv dest!: position_Some split: option.split
        intro!: nth_equalityI simp del: map_update simp: nth_list_update)

lemma mark_used_entries:
  "e \<in> set (al_entries (mark_used n round l)) \<Longrightarrow> e \<in> set (al_entries l) \<or> ac_last_used_round e = round"
  by (auto simp: mark_used_def split: option.splits dest!: set_update_subset_insert[THEN subsetD])

lemma unused_split:
  assumes "longest_unused (List.enumerate 0 es) = Some (i, v)"
  shows "es = take i es @ v # drop (Suc i) es" "es ! i = v"
    "\<forall>e\<in>set (take i es). ac_last_used_round v < ac_last_used_round e"
    "\<forall>e\<in>set (drop (Suc i) es). ac_last_used_round v \<le> ac_last_used_round e"
    "\<forall>e\<in>set es. ac_last_used_round v \<le> ac_last_used_round e"
proof -
  note m = longest_unused_min[OF assms]
  then have i: "i < length es" "v = es ! i" by (auto simp: in_set_enumerate_eq)
  have before: "used_before (i, v) (j, es ! j)" if "j < length es" for j
  proof -
    have "(j, es ! j) \<in> set (List.enumerate 0 es)" using that by (simp add: in_set_enumerate_eq)
    then show ?thesis using m by blast
  qed
  show "es = take i es @ v # drop (Suc i) es" "es ! i = v" using i by (simp_all add: id_take_nth_drop[symmetric])
  show all: "\<forall>e\<in>set es. ac_last_used_round v \<le> ac_last_used_round e"
    using before by (force simp: in_set_conv_nth used_before_def)
  then show "\<forall>e\<in>set (drop (Suc i) es). ac_last_used_round v \<le> ac_last_used_round e" by (meson in_set_dropD)
  show "\<forall>e\<in>set (take i es). ac_last_used_round v < ac_last_used_round e"
  proof
    fix e assume "e \<in> set (take i es)"
    then obtain j where "j < i" "e = es ! j" using i(1) by (auto simp: in_set_conv_nth)
    then show "ac_last_used_round v < ac_last_used_round e" using before[of j] i(1) by (auto simp: used_before_def)
  qed
qed

lemma holds_names: "ledger_holds l n \<longleftrightarrow> n \<in> set (map activation_name (al_entries l))"
  by (auto simp: ledger_holds_def list_ex_iff)

lemma mark_used_keeps_used:
  "e \<in> set (al_entries l) \<Longrightarrow> ac_last_used_round e = round \<Longrightarrow> e \<in> set (al_entries (mark_used n round l))"
proof (cases "position (\<lambda>e. activation_name e = n) (al_entries l)")
  case (Some i)
  assume e: "e \<in> set (al_entries l)" "ac_last_used_round e = round"
  then obtain j where j: "j < length (al_entries l)" "e = al_entries l ! j" by (auto simp: in_set_conv_nth)
  have "(al_entries (mark_used n round l)) ! j = e"
    using Some j e(2) by (cases "i = j") (simp_all add: mark_used_def)
  then show ?thesis using j(1) mark_used_keeps(4)[of n round l] by (metis nth_mem)
qed (simp add: mark_used_def)

text \<open>The four outcomes of an activation.\<close>

lemma activate_cases:
  assumes "activate c d round l = (l', out)" and "length (al_entries l) \<le> al_bound l"
  defines "new \<equiv> \<lparr>ac_connection = c, ac_def = d, ac_last_used_round = round\<rparr>"
  obtains (held) "ledger_holds l (td_name d)" "l' = mark_used (td_name d) round l" "out = AlreadyHeld"
  | (appended) "\<not> ledger_holds l (td_name d)" "length (al_entries l) < al_bound l"
      "l' = l\<lparr>al_entries := al_entries l @ [new]\<rparr>" "out = Admitted None"
  | (retired) xs victim ys where "\<not> ledger_holds l (td_name d)" "length (al_entries l) = al_bound l"
      "al_entries l = xs @ victim # ys" "ac_last_used_round victim < round"
      "\<forall>e\<in>set xs. ac_last_used_round victim < ac_last_used_round e"
      "\<forall>e\<in>set ys. ac_last_used_round victim \<le> ac_last_used_round e"
      "l' = l\<lparr>al_entries := xs @ ys @ [new]\<rparr>" "out = Admitted (Some (activation_name victim))"
  | (refused) "\<not> ledger_holds l (td_name d)" "length (al_entries l) = al_bound l"
      "\<forall>e\<in>set (al_entries l). round \<le> ac_last_used_round e" "l' = l" "out = ActivationRefused"
proof -
  let ?es = "al_entries l"
  show thesis
  proof (cases "ledger_holds l (td_name d)")
    case True
    then show ?thesis using assms(1) by (intro held) (simp_all add: activate_def)
  next
    case False
    note free = False
    show ?thesis
    proof (cases "length ?es < al_bound l")
      case True
      then show ?thesis using assms(1) free by (intro appended) (simp_all add: activate_def new_def)
    next
      case False
      then have full: "length ?es = al_bound l" using assms(2) by simp
      show ?thesis
      proof (cases "longest_unused (List.enumerate 0 ?es)")
        case None
        then have "?es = []" using longest_unused_exists[of "List.enumerate 0 ?es"] by (cases ?es) auto
        then show ?thesis using None free full assms(1) by (intro refused) (simp_all add: activate_def)
      next
        case (Some iv)
        obtain i v where iv: "iv = (i, v)" by fastforce
        note split = unused_split[OF Some[unfolded iv]]
        show ?thesis
        proof (cases "ac_last_used_round v < round")
          case True
          then show ?thesis using assms(1) Some iv free full split
            by (intro retired[of "take i ?es" v "drop (Suc i) ?es"]) (simp_all add: activate_def new_def)
        next
          case False
          then have "\<forall>e\<in>set ?es. round \<le> ac_last_used_round e" using split(5) by fastforce
          then show ?thesis using False assms(1) Some iv free full by (intro refused) (simp_all add: activate_def)
        qed
      qed
    qed
  qed
qed

lemma activate_grows: "length (al_entries l) \<le> al_bound l \<Longrightarrow> grows l (fst (activate c d round l))"
proof -
  assume le: "length (al_entries l) \<le> al_bound l"
  obtain l' out where a: "activate c d round l = (l', out)" by fastforce
  from a le have "grows l l'"
  proof (cases rule: activate_cases)
    case held
    then show ?thesis by (simp add: grows_def mark_used_keeps)
  qed (auto simp: grows_def offers_def)
  then show ?thesis using a by simp
qed

lemma activate_ok: "ledger_ok round l \<Longrightarrow> ledger_ok round (fst (activate c d round l))"
proof -
  assume ok: "ledger_ok round l"
  then have le: "length (al_entries l) \<le> al_bound l" by (simp add: ledger_ok_def)
  obtain l' out where a: "activate c d round l = (l', out)" by fastforce
  from a le show ?thesis
  proof (cases rule: activate_cases)
    case held
    then show ?thesis using ok a mark_used_entries[of _ "td_name d" round l]
      by (auto simp: ledger_ok_def mark_used_keeps)
  qed (use ok a in \<open>auto simp: ledger_ok_def ledger_holds_def list_ex_iff\<close>)
qed

text \<open>Everything a round does to the ledger keeps it in order and only grows it.\<close>

definition sound_on :: "nat \<Rightarrow> (activation_ledger \<Rightarrow> activation_ledger) \<Rightarrow> bool" where
  "sound_on round f \<longleftrightarrow> (\<forall>l. ledger_ok round l \<longrightarrow> ledger_ok round (f l) \<and> grows l (f l))"

lemma sound_on_id: "sound_on round (\<lambda>l. l)"
  by (simp add: sound_on_def)

lemma sound_on_if: "sound_on round f \<Longrightarrow> sound_on round g \<Longrightarrow> sound_on round (\<lambda>l. if b then f l else g l)"
  by (simp add: sound_on_def)

lemma sound_on_option:
  "sound_on round f \<Longrightarrow> (\<And>x. sound_on round (g x)) \<Longrightarrow> sound_on round (\<lambda>l. case y of None \<Rightarrow> f l | Some x \<Rightarrow> g x l)"
  by (cases y) simp_all

lemma sound_on_prod: "(\<And>a b. sound_on round (f a b)) \<Longrightarrow> sound_on round (\<lambda>l. case p of (a, b) \<Rightarrow> f a b l)"
  by (cases p) simp

lemma sound_on_fold: "(\<And>x. sound_on round (f x)) \<Longrightarrow> sound_on round (fold f xs)"
proof (induction xs)
  case (Cons x xs)
  then have "sound_on round (f x)" "sound_on round (fold f xs)" by blast+
  then show ?case by (auto simp: sound_on_def intro: grows_trans)
qed (simp add: sound_on_def)

lemma sound_on_record: "sound_on round (\<lambda>l. record_activation l c d round)"
  using activate_ok activate_grows by (simp add: sound_on_def record_activation_def ledger_ok_def)

lemma sound_on_used: "sound_on round (mark_used n round)"
  using mark_used_entries by (fastforce simp: sound_on_def ledger_ok_def grows_def mark_used_keeps)

lemmas sound_on_intros = sound_on_id sound_on_if sound_on_option sound_on_prod sound_on_fold sound_on_record

lemma sound_on_named: "sound_on round (activate_named e round)"
  unfolding activate_named_def by (intro sound_on_intros)

lemma sound_on_hit: "sound_on round (activate_hit t lookup router round hit)"
  unfolding activate_hit_def by (intro sound_on_intros)

lemma sound_on_hits: "sound_on round (activate_hits t lookup parse router round result)"
  unfolding activate_hits_def by (intro sound_on_intros sound_on_hit)

lemma sound_on_namespace: "sound_on round (activate_namespace t router round call)"
  unfolding activate_namespace_def by (intro sound_on_intros)

lemmas sound_steps = sound_on_used sound_on_named sound_on_hits sound_on_namespace

section \<open>The block a table shows\<close>

definition block_of :: "'j tool_router \<Rightarrow> 'j routed_tool list" where
  "block_of r = filter (\<lambda>e. in_block (rt_surface e)) (tr_entries r)"

lemma advertised_block: "advertised_definitions r = map rt_advertised (block_of r)"
  by (simp add: advertised_definitions_def block_of_def)

text \<open>A sequence of offers keeps the table in order, lets the block grow at its end only, and by so many.\<close>

definition extends_by :: "nat \<Rightarrow> 'j tool_router \<Rightarrow> 'j tool_router \<Rightarrow> bool" where
  "extends_by n r r' \<longleftrightarrow> router_ok r' \<and> prefix (block_of r) (block_of r') \<and> length (block_of r') \<le> length (block_of r) + n"

lemma extends_by_refl: "router_ok r \<Longrightarrow> extends_by 0 r r"
  by (simp add: extends_by_def)

lemma extends_by_trans: "extends_by m r r' \<Longrightarrow> extends_by n r' r'' \<Longrightarrow> extends_by (m + n) r r''"
  by (auto simp: extends_by_def intro: prefix_order.trans)

lemma extends_by_insert:
  assumes "router_ok r" and "entry_ok \<lparr>rt_advertised = d, rt_provider_name = p, rt_connection = c, rt_surface = sf\<rparr>"
  shows "extends_by (if in_block sf then 1 else 0) r (router_insert d p c sf r)"
proof -
  have "prefix (block_of r) (block_of (router_insert d p c sf r)) \<and>
    length (block_of (router_insert d p c sf r)) \<le> length (block_of r) + (if in_block sf then 1 else 0)"
    by (rule router_insert_cases[where r' = "router_insert d p c sf r" and d = d and p = p and c = c and sf = sf and r = r])
      (simp_all add: block_of_def)
  then show ?thesis using router_ok_insert[OF assms] by (simp add: extends_by_def)
qed

lemma extends_by_admit:
  "router_ok r \<Longrightarrow> sf \<noteq> CoreLoop \<Longrightarrow> extends_by (if in_block sf then length defs else 0) r (router_admit c defs sf r)"
proof (induction c defs sf r rule: router_admit.induct)
  case (2 c def defs sf r)
  show ?case
  proof (cases "compose_name (con_location c) (td_name def)")
    case None
    then show ?thesis using 2 by (auto simp: extends_by_def)
  next
    case (Some name)
    let ?r = "router_insert (def\<lparr>td_name := name\<rparr>) (td_name def) (Some c) sf r"
    have one: "extends_by (if in_block sf then 1 else 0) r ?r"
      using 2(3,4) Some by (intro extends_by_insert) (simp_all add: entry_ok_def)
    then have "extends_by (if in_block sf then length defs else 0) ?r (router_admit c defs sf ?r)"
      using 2(2)[OF Some] 2(4) by (simp add: extends_by_def)
    from extends_by_trans[OF one this] show ?thesis using Some by (simp split: if_splits)
  qed
qed (simp add: extends_by_refl)

lemma extends_by_offer: "router_ok r \<Longrightarrow> extends_by (length defs) r (offer c defs r)"
  using extends_by_admit[of r Block defs c] by (simp add: offer_def)

lemma extends_by_unseen:
  "router_ok r \<Longrightarrow> extends_by 0 r (offer_deferred c defs r)" "router_ok r \<Longrightarrow> extends_by 0 r (offer_named c defs r)"
  using extends_by_admit[of r Deferred defs c] extends_by_admit[of r Named defs c]
  by (simp_all add: offer_deferred_def offer_named_def)

lemma extends_by_core: "router_ok r \<Longrightarrow> extends_by 1 r (offer_core_loop_tool d r)"
  using extends_by_insert[of r d "td_name d" None CoreLoop] by (simp add: offer_core_loop_tool_def entry_ok_def)

lemma extends_by_okD: "extends_by n r r' \<Longrightarrow> router_ok r'"
  by (simp add: extends_by_def)

lemma extends_by_weaken: "extends_by m r r' \<Longrightarrow> m \<le> n \<Longrightarrow> extends_by n r r'"
  by (simp add: extends_by_def)

lemma extends_by_deferred_all:
  "router_ok r \<Longrightarrow> extends_by 0 r (fold (\<lambda>ns. offer_deferred (daemon_server (ns_name ns)) (ns_tools ns)) nss r)"
proof (induction nss arbitrary: r)
  case (Cons ns nss)
  note one = extends_by_unseen(1)[OF Cons.prems, of "daemon_server (ns_name ns)" "ns_tools ns"]
  show ?case using extends_by_trans[OF one Cons.IH[OF extends_by_okD[OF one]]] by simp
qed (simp add: extends_by_refl)

lemma router_ok_new: "router_ok router_new"
  by (simp add: router_new_def router_ok_def)

lemma pinned_bound:
  "router_ok (offer_pinned t demoted) \<and> length (block_of (offer_pinned t demoted)) \<le> length (round_core t demoted) + 3"
proof -
  let ?r0 = "offer daemon_builtins (round_core t demoted) router_new"
  let ?r1 = "if tt_use_hosted_search t \<and> \<not> demoted
       then fold (\<lambda>ns. offer_deferred (daemon_server (ns_name ns)) (ns_tools ns)) (tt_namespaces t) ?r0 else ?r0"
  let ?r2 = "offer_core_loop_tool (tt_complete_step t) (offer_core_loop_tool (tt_begin_step t) ?r1)"
  note e0 = extends_by_offer[OF router_ok_new, of "round_core t demoted" daemon_builtins]
  have e1: "extends_by (length (round_core t demoted)) router_new ?r1"
    using extends_by_trans[OF e0 extends_by_deferred_all[OF extends_by_okD[OF e0], of "tt_namespaces t"]] e0 by (cases demoted) simp_all
  note e2 = extends_by_trans[OF e1 extends_by_core[OF extends_by_okD[OF e1], of "tt_begin_step t"]]
  note e3 = extends_by_trans[OF e2 extends_by_core[OF extends_by_okD[OF e2], of "tt_complete_step t"]]
  note e4 = extends_by_trans[OF e3 extends_by_core[OF extends_by_okD[OF e3], of "tt_promote_plan t"]]
  have "extends_by (length (round_core t demoted) + 3) router_new (offer_pinned t demoted)"
    unfolding offer_pinned_def Let_def using e1 e3 e4 by (auto intro: extends_by_weaken)
  then show ?thesis by (simp add: extends_by_def block_of_def router_new_def)
qed

lemma connection_extends:
  assumes "router_ok r"
  shows "extends_by (client_in_block t demoted) r (offer_connection t demoted r)"
proof -
  note e = extends_by_offer[OF assms, of "take (client_in_block t demoted) (tt_client_tool_defs t)" client_device]
  have "length (take (client_in_block t demoted) (tt_client_tool_defs t)) = client_in_block t demoted"
    by (simp add: client_in_block_def)
  then show ?thesis
    using extends_by_trans[OF e extends_by_unseen(2)[OF extends_by_okD[OF e]]] by (simp add: offer_connection_def Let_def)
qed

lemma fold_offer_extends:
  "router_ok r \<Longrightarrow> extends_by (length os) r (fold (\<lambda>(connection, def). offer connection [def]) os r)"
proof (induction os arbitrary: r)
  case (Cons o1 os)
  obtain c d where o1: "o1 = (c, d)" by fastforce
  note one = extends_by_offer[OF Cons.prems, of "[d]" c]
  show ?case using extends_by_trans[OF one Cons.IH[OF extends_by_okD[OF one]]] by (simp add: o1)
qed (simp add: extends_by_refl)

abbreviation open_table :: "turn_tools \<Rightarrow> bool \<Rightarrow> activation_ledger \<Rightarrow> json_value tool_router" where
  "open_table t demoted l \<equiv> offer_activations l (offer_connection t demoted (offer_pinned t demoted))"

lemma restrict_block: "block_of (restrict_table a r) =
    (case a of None \<Rightarrow> block_of r
     | Some allowed \<Rightarrow> filter (\<lambda>e. rt_provider_name e = BEGIN_STEP_TOOL \<or> rt_provider_name e = COMPLETE_STEP_TOOL \<or>
          rt_provider_name e \<in> set allowed) (block_of r))"
  by (auto simp: restrict_table_def retain_tools_def block_of_def list_ex_iff filter_filter conj_commute
        split: option.split intro!: arg_cong2[where f = filter])

lemma router_ok_restrict: "router_ok r \<Longrightarrow> router_ok (restrict_table a r)"
  by (auto simp: restrict_table_def retain_tools_def router_ok_def distinct_map_filter split: option.split)

lemma open_table_bound:
  "router_ok (open_table t demoted l) \<and> length (block_of (open_table t demoted l)) \<le>
     length (round_core t demoted) + 3 + client_in_block t demoted + length (al_entries l)"
proof -
  have "router_ok (offer_pinned t demoted)" using pinned_bound by blast
  note e = connection_extends[OF this, of t demoted]
  have "extends_by (length (offers l)) (offer_connection t demoted (offer_pinned t demoted)) (open_table t demoted l)"
    unfolding offer_activations_def by (rule fold_offer_extends[OF extends_by_okD[OF e]])
  from extends_by_trans[OF e this] show ?thesis
    using pinned_bound[of t demoted] by (auto simp: extends_by_def offers_def)
qed

lemma round_table_bound:
  "router_ok (round_table t demoted l) \<and> length (tool_defs t demoted l) \<le>
     length (round_core t demoted) + 3 + client_in_block t demoted + length (al_entries l)"
proof -
  have "length (block_of (restrict_table a r)) \<le> length (block_of r)" for a and r :: "json_value tool_router"
    by (simp add: restrict_block split: option.split)
  then show ?thesis using open_table_bound[of l t demoted] router_ok_restrict
    by (fastforce simp: round_table_def tool_defs_def advertised_block intro: order_trans)
qed

lemma round_table_grows:
  assumes "prefix (offers l) (offers l')"
  shows "prefix (tool_defs t demoted l) (tool_defs t demoted l')"
proof -
  obtain more where more: "offers l' = offers l @ more" using assms by (rule prefixE)
  have "router_ok (open_table t demoted l)" using open_table_bound by blast
  from fold_offer_extends[OF this, of more]
  have "prefix (block_of (open_table t demoted l)) (block_of (open_table t demoted l'))"
    by (simp add: extends_by_def offer_activations_def more)
  then have "prefix (block_of (round_table t demoted l)) (block_of (round_table t demoted l'))"
    by (auto simp: round_table_def restrict_block filter_mono_prefix split: option.split)
  then show ?thesis by (simp add: tool_defs_def advertised_block map_mono_prefix)
qed

section \<open>The rounds of a turn\<close>

definition turn_inv :: "turn_tools \<Rightarrow> turn_state \<Rightarrow> bool" where
  "turn_inv t s \<longleftrightarrow> ledger_ok (ts_round s) (ts_ledger s) \<and> al_bound (ts_ledger s) = MAX_ACTIVATED_TOOLS \<and>
     (\<exists>l. ts_table s = round_table t (ts_demoted s) l \<and> length (al_entries l) \<le> MAX_ACTIVATED_TOOLS \<and> grows l (ts_ledger s))"

lemma turn_inv_ledger:
  assumes "turn_inv t s" and "sound_on (ts_round s) f"
  shows "turn_inv t (s\<lparr>ts_ledger := f (ts_ledger s)\<rparr>)"
proof -
  have ok: "ledger_ok (ts_round s) (ts_ledger s)" and bound: "al_bound (ts_ledger s) = MAX_ACTIVATED_TOOLS"
    using assms(1) by (auto simp: turn_inv_def)
  have f: "ledger_ok (ts_round s) (f (ts_ledger s))" "grows (ts_ledger s) (f (ts_ledger s))"
    using assms(2) ok by (auto simp: sound_on_def)
  obtain l where "ts_table s = round_table t (ts_demoted s) l" "length (al_entries l) \<le> MAX_ACTIVATED_TOOLS" "grows l (ts_ledger s)"
    using assms(1) by (auto simp: turn_inv_def)
  moreover have "al_bound (f (ts_ledger s)) = MAX_ACTIVATED_TOOLS" using f(2) bound by (simp add: grows_def)
  ultimately show ?thesis using f grows_trans by (auto simp: turn_inv_def)
qed

lemma turn_inv_table:
  assumes "turn_inv t s"
  shows "turn_inv t (s\<lparr>ts_demoted := d, ts_round := Suc (ts_round s), ts_table := round_table t d (ts_ledger s)\<rparr>)"
proof -
  have "ledger_ok (Suc (ts_round s)) (ts_ledger s)" using assms by (auto simp: turn_inv_def ledger_ok_def)
  moreover have "length (al_entries (ts_ledger s)) \<le> MAX_ACTIVATED_TOOLS" using assms by (auto simp: turn_inv_def ledger_ok_def)
  ultimately show ?thesis using assms by (auto simp: turn_inv_def intro!: exI[of _ "ts_ledger s"])
qed

interpretation turn_sys: invariant_system "\<lambda>s. s = turn_init t" "turn_step t lookup parse" "turn_inv t" for t lookup parse
proof unfold_locales
  fix s assume "s = turn_init t"
  then show "turn_inv t s"
    by (auto simp: turn_inv_def turn_init_def ledger_ok_def ledger_new_def ledger_with_bound_def intro!: exI[of _ ledger_new])
next
  fix s s' assume inv: "turn_inv t s" and "turn_step t lookup parse s s'"
  from this(2) show "turn_inv t s'"
  proof cases
    case step_round
    then show ?thesis using turn_inv_table[OF inv, of "ts_demoted s"] by simp
  next
    case step_demote
    then show ?thesis using turn_inv_table[OF inv, of True] by simp
  qed (simp_all add: turn_inv_ledger[OF inv] sound_steps)
qed

text \<open>
  C16: However long a turn runs, its tool block stays within a fixed size. In every state a turn can reach,
  whatever its searches found and its calls named, the block of the round shows at most the core tools,
  the three tools of the loop, the tools of the client (eight of them when the model can look a name up)
  and twenty-four activated tools, and no two of them under one name.
\<close>

theorem tool_block_is_bounded:
  assumes "reachable (\<lambda>s. s = turn_init t) (turn_step t lookup parse) s"
  shows "length (advertised_definitions (ts_table s)) \<le> length (tt_core_tools t) + 3 +
      (if discovery_offered t (ts_demoted s) then min (length (tt_client_tool_defs t)) 8 else length (tt_client_tool_defs t)) + 24 \<and>
    distinct (map td_name (advertised_definitions (ts_table s)))"
proof -
  have "turn_inv t s" by (rule turn_sys.reachable_inv) (rule assms)
  then obtain l where l: "ts_table s = round_table t (ts_demoted s) l" "length (al_entries l) \<le> MAX_ACTIVATED_TOOLS"
    by (auto simp: turn_inv_def)
  have core: "length (round_core t (ts_demoted s)) \<le> length (tt_core_tools t)"
    by (simp add: round_core_def core_tools_for_llm_def)
  note b = round_table_bound[of t "ts_demoted s" l]
  have "distinct (map entry_name (tr_entries (ts_table s)))" using b l(1) by (simp add: router_ok_def)
  then have "distinct (map td_name (advertised_definitions (ts_table s)))"
    by (simp add: advertised_definitions_def distinct_map_filter comp_def)
  then show ?thesis
    using b core l by (auto simp: tool_defs_def client_in_block_def MAX_CLIENT_TOOLS_IN_BLOCK_def MAX_ACTIVATED_TOOLS_def)
qed

lemma step_keeps_demotion: "turn_step t lookup parse s s' \<Longrightarrow> ts_demoted s \<Longrightarrow> ts_demoted s'"
  by (cases rule: turn_step.cases) auto

text \<open>
  C36: From round to round the block only grows at its end. As long as a turn stays below its bound of
  activated tools and hosted search is not given up in between, the definitions one round shows are a
  prefix of what every later round shows, so what the provider has cached of an earlier round stays valid.
\<close>

theorem block_grows_at_its_end:
  assumes "reachable (\<lambda>s. s = turn_init t) (turn_step t lookup parse) s" and "(turn_step t lookup parse)\<^sup>*\<^sup>* s s'"
    and "ts_demoted s' = ts_demoted s" and "length (al_entries (ts_ledger s')) < MAX_ACTIVATED_TOOLS"
  shows "prefix (advertised_definitions (ts_table s)) (advertised_definitions (ts_table s'))"
  using assms(2,3,4)
proof (induction rule: rtranclp_induct)
  case (step u v)
  have "reachable (\<lambda>s. s = turn_init t) (turn_step t lookup parse) u"
    using step.hyps(1) assms(1) by (induction rule: rtranclp_induct) (auto intro: reach_step)
  then have inv: "turn_inv t u" by (rule turn_sys.reachable_inv)
  have mono: "ts_demoted s \<Longrightarrow> ts_demoted u"
    using step.hyps(1) by (induction rule: rtranclp_induct) (auto dest: step_keeps_demotion)
  obtain l where l: "ts_table u = round_table t (ts_demoted u) l" "grows l (ts_ledger u)"
    using inv by (auto simp: turn_inv_def)
  have in_round: ?case if v: "v = u\<lparr>ts_ledger := f (ts_ledger u)\<rparr>" and f: "sound_on (ts_round u) f" for f
  proof -
    have "grows (ts_ledger u) (f (ts_ledger u))" using f inv by (auto simp: sound_on_def turn_inv_def)
    then show ?thesis using step v by (simp add: grows_def)
  qed
  from step.hyps(2) show ?case
  proof cases
    case step_round
    have below: "length (al_entries (ts_ledger u)) < MAX_ACTIVATED_TOOLS" using step.prems step_round by simp
    moreover have "al_bound l = MAX_ACTIVATED_TOOLS" using inv l(2) by (simp add: turn_inv_def grows_def)
    ultimately have "prefix (offers l) (offers (ts_ledger u))" using l(2) by (simp add: grows_def)
    from round_table_grows[OF this, of t "ts_demoted u"]
    have "prefix (advertised_definitions (ts_table u)) (advertised_definitions (ts_table v))"
      using l(1) step_round by (simp add: tool_defs_def)
    moreover have "prefix (advertised_definitions (ts_table s)) (advertised_definitions (ts_table u))"
      using step below step_round by simp
    ultimately show ?thesis by (rule prefix_order.trans[rotated])
  next
    case step_demote
    then show ?thesis using step.prems mono by simp
  qed (use in_round sound_steps in blast)+
qed simp

text \<open>A refresh rewrites the last use of the first entry of that name and nothing else.\<close>

lemma mark_used_split:
  assumes "ledger_holds l n"
  obtains xs e ys where "al_entries l = xs @ e # ys" "activation_name e = n"
    "al_entries (mark_used n round l) = xs @ e\<lparr>ac_last_used_round := round\<rparr> # ys"
proof -
  let ?es = "al_entries l"
  obtain i where i: "position (\<lambda>e. activation_name e = n) ?es = Some i"
    using assms position_None[of "\<lambda>e. activation_name e = n" ?es]
    by (cases "position (\<lambda>e. activation_name e = n) ?es") (auto simp: ledger_holds_def list_ex_iff find_None_iff)
  have lt: "i < length ?es" "activation_name (?es ! i) = n" using position_Some[OF i] by auto
  show thesis
    by (rule that[of "take i ?es" "?es ! i" "drop (Suc i) ?es"])
      (use i lt in \<open>simp_all add: mark_used_def id_take_nth_drop[symmetric] upd_conv_take_nth_drop\<close>)
qed

text \<open>
  C37: What an activation does to the ledger of a turn. In every state a turn can reach: a tool that is
  already activated keeps its place and is marked as used in this round, and no other entry changes; a
  new tool goes to the end, marked as used in this round; room is made for it only when the ledger is
  full, by taking away one tool, the one unused for longest and of those the oldest; and it is refused
  only when the ledger is full of tools used in this very round. So a tool that was used in the current
  round stays.
\<close>

theorem activation_retires_the_longest_unused:
  assumes "reachable (\<lambda>s. s = turn_init t) (turn_step t lookup parse) s"
    and "activate c d (ts_round s) (ts_ledger s) = (l', out)"
  shows "(\<forall>e\<in>set (al_entries (ts_ledger s)). ac_last_used_round e = ts_round s \<longrightarrow> e \<in> set (al_entries l')) \<and>
    (case out of
       AlreadyHeld \<Rightarrow> offers l' = offers (ts_ledger s) \<and>
         (\<exists>xs e ys. al_entries (ts_ledger s) = xs @ e # ys \<and> activation_name e = td_name d \<and>
            al_entries l' = xs @ e\<lparr>ac_last_used_round := ts_round s\<rparr> # ys)
     | Admitted None \<Rightarrow> length (al_entries (ts_ledger s)) < 24 \<and> \<not> ledger_holds (ts_ledger s) (td_name d) \<and>
         al_entries l' = al_entries (ts_ledger s) @ [\<lparr>ac_connection = c, ac_def = d, ac_last_used_round = ts_round s\<rparr>]
     | Admitted (Some name) \<Rightarrow> length (al_entries (ts_ledger s)) = 24 \<and>
         (\<exists>xs victim ys. al_entries (ts_ledger s) = xs @ victim # ys \<and> activation_name victim = name \<and>
            al_entries l' = xs @ ys @ [\<lparr>ac_connection = c, ac_def = d, ac_last_used_round = ts_round s\<rparr>] \<and>
            (\<forall>e\<in>set xs. ac_last_used_round victim < ac_last_used_round e) \<and>
            (\<forall>e\<in>set ys. ac_last_used_round victim \<le> ac_last_used_round e))
     | ActivationRefused \<Rightarrow> l' = ts_ledger s \<and> length (al_entries l') = 24 \<and>
         (\<forall>e\<in>set (al_entries l'). ac_last_used_round e = ts_round s))"
proof -
  let ?l = "ts_ledger s"
  have inv: "turn_inv t s" by (rule turn_sys.reachable_inv) (rule assms(1))
  then have ok: "ledger_ok (ts_round s) ?l" and bound: "al_bound ?l = 24"
    by (auto simp: turn_inv_def MAX_ACTIVATED_TOOLS_def)
  then have le: "length (al_entries ?l) \<le> al_bound ?l" by (simp add: ledger_ok_def)
  from assms(2) le show ?thesis
  proof (cases rule: activate_cases)
    case held
    obtain xs e ys where "al_entries ?l = xs @ e # ys" "activation_name e = td_name d"
      "al_entries (mark_used (td_name d) (ts_round s) ?l) = xs @ e\<lparr>ac_last_used_round := ts_round s\<rparr> # ys"
      by (rule mark_used_split[OF held(1)])
    moreover have "e \<in> set (al_entries l')" if e: "e \<in> set (al_entries ?l)" "ac_last_used_round e = ts_round s" for e
      using held(2) e mark_used_keeps_used by simp
    ultimately show ?thesis using held by (auto simp: mark_used_keeps)
  next
    case appended
    then show ?thesis using bound by simp
  next
    case (retired xs victim ys)
    then show ?thesis using bound by auto
  next
    case refused
    then show ?thesis using bound ok by (auto simp: ledger_ok_def intro: antisym)
  qed
qed

lemma fold_offer_settles:
  "router_ok r \<Longrightarrow> extends r (fold (\<lambda>(connection, def). offer connection [def]) os r) \<and>
     (\<forall>c d name. (c, d) \<in> set os \<longrightarrow> compose_name (con_location c) (td_name d) = Some name \<longrightarrow>
        settled c Block (td_name d) name (fold (\<lambda>(connection, def). offer connection [def]) os r))"
proof (induction os arbitrary: r)
  case (Cons o1 os)
  obtain c d where o1: "o1 = (c, d)" by fastforce
  note one = admit_settles[OF Cons.prems, of Block c "[d]", folded offer_def]
  have "router_ok (offer c [d] r)" by (rule extends_by_okD[OF extends_by_offer[OF Cons.prems]])
  note rest = Cons.IH[OF this]
  have "settled c Block (td_name d) name (fold (\<lambda>(connection, def). offer connection [def]) os (offer c [d] r))"
    if "compose_name (con_location c) (td_name d) = Some name" for name
    using settled_extends one rest that by fastforce
  then show ?case using one rest extends_trans by (auto simp: o1)
qed simp

lemma restrict_keeps_settled:
  assumes "router_ok r" and "settled c sf p name r" and "allows a p"
  shows "settled c sf p name (restrict_table a r)"
proof (cases "\<exists>d\<in>set (tr_duplicates r). dn_name d = name \<and> dn_refused d = claimant (Some c) p")
  case True
  moreover have "tr_duplicates (restrict_table a r) = tr_duplicates r"
    by (simp add: restrict_table_def retain_tools_def split: option.split)
  ultimately show ?thesis by (simp add: settled_def)
next
  case False
  then obtain e where e: "resolve r name = Some e" "rt_connection e = Some c" "rt_provider_name e = p"
    "in_block sf \<longrightarrow> in_block (rt_surface e)" using assms(2) by (auto simp: settled_def)
  have "e \<in> set (tr_entries (restrict_table a r))"
    using resolve_Some[OF e(1)] e(3) assms(3)
    by (auto simp: restrict_table_def retain_tools_def allows_def list_ex_iff split: option.split)
  then have "resolve (restrict_table a r) (entry_name e) = Some e"
    using router_ok_restrict[OF assms(1)] resolve_entry by (auto simp: router_ok_def)
  then show ?thesis using e resolve_Some[OF e(1)] by (auto simp: settled_def)
qed

text \<open>
  What a turn activates, the next round offers. A tool a turn admits to its ledger, under a name that
  can be written and that the turn may use, is in the block of the table built from the ledger, and
  calling it reaches the connection it was activated for; unless another tool has its name, and then
  the refusal is on record against it.
\<close>

theorem activation_reaches_the_next_round:
  assumes "reachable (\<lambda>s. s = turn_init t) (turn_step t lookup parse) s"
    and "activate c d (ts_round s) (ts_ledger s) = (l', Admitted retired)"
    and "compose_name (con_location c) (td_name d) = Some name" and "allows (tt_allowlist t) (td_name d)"
    and "r = round_table t (ts_demoted s) l'"
  shows "(\<exists>e. resolve r name = Some e \<and> rt_connection e = Some c \<and> rt_provider_name e = td_name d \<and> in_block (rt_surface e)) \<or>
    (\<exists>dup\<in>set (tr_duplicates r). dn_name dup = name \<and> dn_refused dup = claimant (Some c) (td_name d))"
proof -
  have "turn_inv t s" by (rule turn_sys.reachable_inv) (rule assms(1))
  then have le: "length (al_entries (ts_ledger s)) \<le> al_bound (ts_ledger s)" by (simp add: turn_inv_def ledger_ok_def)
  from assms(2) le have offered: "(c, d) \<in> set (offers l')"
    by (cases rule: activate_cases) (auto simp: offers_def)
  let ?base = "offer_connection t (ts_demoted s) (offer_pinned t (ts_demoted s))"
  have "router_ok (offer_pinned t (ts_demoted s))" using pinned_bound by blast
  then have "router_ok ?base" by (rule extends_by_okD[OF connection_extends])
  from fold_offer_settles[OF this, of "offers l'"] offered assms(3)
  have "settled c Block (td_name d) name (open_table t (ts_demoted s) l')" by (simp add: offer_activations_def)
  moreover have "router_ok (open_table t (ts_demoted s) l')" using open_table_bound by blast
  ultimately have "settled c Block (td_name d) name r"
    unfolding assms(5) round_table_def using restrict_keeps_settled assms(4) by blast
  then show ?thesis by (simp add: settled_def)
qed

text \<open>
  C17: A turn with an allowlist runs nothing else. Whatever the model calls, under any name, the tool that runs
  has a provider's name on the list and the gate of the turn lets it through; a plan is kept as a skill
  only if that tool is on the list; and every definition the model is shown resolves to a tool on the
  list or to one of the two tools that control a step.
\<close>

theorem restricted_turn_runs_only_its_tools:
  assumes "tt_allowlist t = Some allowed" and "router = round_table t demoted l"
  shows "(case call_verdict parse (tt_allowlist t) p who warned router call of
      RunsTool name \<Rightarrow> name \<in> set allowed \<and> \<not> (tp_ingested_external p \<and> is_gated_under (tcl_tier (classify_tool name)) (tp_policy p))
    | PromotesPlan \<Rightarrow> PROMOTE_PLAN_TOOL \<in> set allowed
    | _ \<Rightarrow> True) \<and>
    (\<forall>d\<in>set (advertised_definitions router). \<exists>e. resolve router (td_name d) = Some e \<and> rt_advertised e = d \<and>
       rt_provider_name e \<in> set allowed \<union> {BEGIN_STEP_TOOL, COMPLETE_STEP_TOOL})"
proof -
  have kept: "rt_provider_name e \<in> set allowed \<union> {BEGIN_STEP_TOOL, COMPLETE_STEP_TOOL}" if "e \<in> set (tr_entries router)" for e
    using that assms by (auto simp: round_table_def restrict_table_def retain_tools_def list_ex_iff)
  have "distinct (map entry_name (tr_entries router))" using round_table_bound assms(2) by (auto simp: router_ok_def)
  then have "\<exists>e. resolve router (td_name d) = Some e \<and> rt_advertised e = d \<and>
      rt_provider_name e \<in> set allowed \<union> {BEGIN_STEP_TOOL, COMPLETE_STEP_TOOL}" if "d \<in> set (advertised_definitions router)" for d
    using that resolve_entry kept by (fastforce simp: advertised_definitions_def)
  moreover have "PROMOTE_PLAN_TOOL \<in> set allowed"
    if "resolve router (tc_name call) = Some e" "rt_provider_name e = PROMOTE_PLAN_TOOL" for e
    using kept[of e] resolve_Some[OF that(1)] that(2)
    by (auto simp: PROMOTE_PLAN_TOOL_def BEGIN_STEP_TOOL_def COMPLETE_STEP_TOOL_def)
  ultimately show ?thesis
    by (auto simp: call_verdict_def Let_def assms(1) allows_def is_core_loop_def call_name_def check_def
          split: option.splits if_splits tool_gate.splits)
qed

section \<open>What the ledger and the demotion do\<close>

text \<open>
  The ledger knows a tool by the name its provider gave it. A tool of the device and one of the daemon
  under one provider name are two tools of the table, but only the one that was activated first is held.
\<close>

lemma one_name_on_two_machines:
  assumes "activate client_device d round ledger_new = (l, out)"
  shows "activate daemon_registry d round l = (l, AlreadyHeld) \<and> offers l = [(client_device, d)]"
  using assms by (auto simp: activate_def ledger_new_def ledger_with_bound_def MAX_ACTIVATED_TOOLS_def Let_def
      ledger_holds_def mark_used_def offers_def)

text \<open>Giving up hosted search brings the discovery tool back, and with it the bound on the client's tools.\<close>

lemma demotion_bounds_the_client_tools:
  assumes "tt_use_hosted_search t" and "tt_namespaces t \<noteq> []" and "list_ex (\<lambda>d. td_name d = DISCOVERY_TOOL) (tt_core_tools t)"
  shows "client_in_block t False = length (tt_client_tool_defs t) \<and> client_in_block t True = min (length (tt_client_tool_defs t)) 8"
  using assms by (auto simp: client_in_block_def discovery_offered_def round_core_def core_tools_for_llm_def
      DISCOVERY_TOOL_def MAX_CLIENT_TOOLS_IN_BLOCK_def list_ex_iff)

section \<open>Witnesses\<close>

definition sample_def :: "string \<Rightarrow> tool_def" where
  "sample_def n = \<lparr>td_name = n, td_description = [], td_parameters = JNull\<rparr>"

definition sample_turn :: turn_tools where
  "sample_turn = \<lparr>tt_core_tools = [sample_def ''builtin_tool_search''], tt_use_hosted_search = False, tt_namespaces = [],
     tt_scratchpad_write = True, tt_skill_write_authored = False, tt_begin_step = sample_def ''begin_step'',
     tt_complete_step = sample_def ''complete_step'', tt_promote_plan = sample_def ''promote_plan_to_skill'',
     tt_client_tool_defs = [sample_def ''say_this''], tt_allowlist = None\<rparr>"

definition sample_lookup :: "string \<Rightarrow> tool_def option" where
  "sample_lookup name = (if name = ''osm__search'' then Some (sample_def ''osm__search'') else None)"

definition sample_answer :: json_parser where
  "sample_answer _ = Some (JObject [(''tools'', JArray [JObject [(''name'', JString ''daemon_osm__search'')]])])"

definition sample_searched :: turn_state where
  "sample_searched = (turn_init sample_turn)\<lparr>ts_ledger :=
     activate_hits sample_turn sample_lookup sample_answer (ts_table (turn_init sample_turn)) 0 [] ledger_new\<rparr>"

definition sample_next :: turn_state where
  "sample_next = sample_searched\<lparr>ts_round := 1, ts_table := round_table sample_turn False (ts_ledger sample_searched)\<rparr>"

abbreviation sample_steps :: "turn_state \<Rightarrow> turn_state \<Rightarrow> bool" where
  "sample_steps \<equiv> turn_step sample_turn sample_lookup sample_answer"

lemma sample_run: "sample_steps\<^sup>*\<^sup>* (turn_init sample_turn) sample_next"
proof -
  have "sample_steps (turn_init sample_turn) sample_searched"
    using step_search[of sample_turn "turn_init sample_turn" sample_lookup sample_answer "[]"]
    by (simp add: sample_searched_def sample_turn_def turn_init_def)
  moreover have "sample_steps sample_searched sample_next"
    using step_round[of sample_turn sample_lookup sample_answer sample_searched]
    by (simp add: sample_next_def sample_searched_def turn_init_def)
  ultimately show ?thesis by (meson converse_rtranclp_into_rtranclp rtranclp.rtrancl_refl)
qed

lemma sample_init_reachable: "reachable (\<lambda>s. s = turn_init sample_turn) sample_steps (turn_init sample_turn)"
  by (rule reach_init) simp

lemma sample_reachable: "reachable (\<lambda>s. s = turn_init sample_turn) sample_steps sample_next"
  using sample_run by (induction rule: rtranclp_induct) (auto intro: sample_init_reachable reach_step)

lemma sample_block: "map td_name (advertised_definitions (ts_table sample_next)) =
     [''daemon_builtin_tool_search'', ''begin_step'', ''complete_step'', ''client_say_this'', ''daemon_osm__search'']"
  by code_simp

theorem tool_block_is_bounded_witness:
  "map td_name (advertised_definitions (ts_table sample_next)) =
     [''daemon_builtin_tool_search'', ''begin_step'', ''complete_step'', ''client_say_this'', ''daemon_osm__search''] \<and>
   length (advertised_definitions (ts_table sample_next)) \<le> 29"
proof -
  have "length (tt_core_tools sample_turn) = 1" "length (tt_client_tool_defs sample_turn) = 1" by (simp_all add: sample_turn_def)
  then have "length (advertised_definitions (ts_table sample_next)) \<le> 29"
    using tool_block_is_bounded[OF sample_reachable] by (simp split: if_splits)
  then show ?thesis using sample_block by blast
qed

theorem block_grows_at_its_end_witness:
  "prefix (advertised_definitions (ts_table (turn_init sample_turn))) (advertised_definitions (ts_table sample_next)) \<and>
   length (advertised_definitions (ts_table sample_next)) = 5"
proof -
  have "length (al_entries (ts_ledger sample_next)) < MAX_ACTIVATED_TOOLS" by code_simp
  moreover have "ts_demoted sample_next = ts_demoted (turn_init sample_turn)" by (simp add: sample_next_def sample_searched_def)
  moreover have "length (advertised_definitions (ts_table sample_next)) = 5" using arg_cong[OF sample_block, of length] by simp
  ultimately show ?thesis using block_grows_at_its_end[OF sample_init_reachable sample_run] by blast
qed

lemma sample_activation:
  "activate client_device (sample_def ''shot'') (ts_round (turn_init sample_turn)) (ts_ledger (turn_init sample_turn)) =
     (\<lparr>al_entries = [\<lparr>ac_connection = client_device, ac_def = sample_def ''shot'', ac_last_used_round = 0\<rparr>], al_bound = 24\<rparr>, Admitted None)"
  by (simp add: turn_init_def ledger_new_def ledger_with_bound_def MAX_ACTIVATED_TOOLS_def activate_def ledger_holds_def)

text \<open>The first round activates a tool; the next round activates it again and marks it as used.\<close>

theorem activation_retires_the_longest_unused_witness:
  "map ac_last_used_round (al_entries (ts_ledger sample_next)) = [0] \<and>
   map ac_last_used_round (al_entries (fst (activate daemon_registry (sample_def ''osm__search'') (ts_round sample_next) (ts_ledger sample_next)))) = [1]"
proof -
  let ?a = "activate daemon_registry (sample_def ''osm__search'') (ts_round sample_next) (ts_ledger sample_next)"
  have "?a = (fst ?a, snd ?a)" by simp
  note held = activation_retires_the_longest_unused[OF sample_reachable this]
  have "snd ?a = AlreadyHeld" "map ac_last_used_round (al_entries (ts_ledger sample_next)) = [0]"
    "ts_round sample_next = 1" by code_simp+
  then show ?thesis using held by (auto simp: Cons_eq_append_conv append_eq_Cons_conv)
qed

theorem activation_reaches_the_next_round_witness:
  "\<exists>e. resolve (round_table sample_turn False
       \<lparr>al_entries = [\<lparr>ac_connection = client_device, ac_def = sample_def ''shot'', ac_last_used_round = 0\<rparr>], al_bound = 24\<rparr>) ''client_shot'' = Some e \<and>
     rt_connection e = Some client_device \<and> in_block (rt_surface e)"
proof -
  let ?r = "round_table sample_turn False
       \<lparr>al_entries = [\<lparr>ac_connection = client_device, ac_def = sample_def ''shot'', ac_last_used_round = 0\<rparr>], al_bound = 24\<rparr>"
  have "compose_name (con_location client_device) (td_name (sample_def ''shot'')) = Some ''client_shot''" by code_simp
  moreover have "tr_duplicates ?r = []" by code_simp
  moreover have "allows (tt_allowlist sample_turn) (td_name (sample_def ''shot''))" "ts_demoted (turn_init sample_turn) = False"
    by (simp_all add: sample_turn_def allows_def turn_init_def)
  ultimately show ?thesis
    using activation_reaches_the_next_round[OF sample_init_reachable sample_activation, of "''client_shot''" ?r] by auto
qed

theorem restricted_turn_runs_only_its_tools_witness:
  "call_verdict (\<lambda>_. None) (Some [''osm__search'']) (new_with_policy Standard) Interactive (\<lambda>_ _. False)
     (round_table (sample_turn\<lparr>tt_allowlist := Some [''osm__search'']\<rparr>) False ledger_new)
     \<lparr>tc_id = ''1'', tc_name = ''daemon_osm__search'', tc_arguments = []\<rparr> = RunsTool ''osm__search'' \<and>
   (\<exists>e. resolve (round_table (sample_turn\<lparr>tt_allowlist := Some [''osm__search'']\<rparr>) False ledger_new) ''begin_step'' = Some e \<and>
      rt_provider_name e \<in> {''osm__search'', ''begin_step'', ''complete_step''})"
proof -
  let ?t = "sample_turn\<lparr>tt_allowlist := Some [''osm__search'']\<rparr>" and ?d = "sample_def ''begin_step''"
  have "call_verdict (\<lambda>_. None) (Some [''osm__search'']) (new_with_policy Standard) Interactive (\<lambda>_ _. False)
     (round_table ?t False ledger_new) \<lparr>tc_id = ''1'', tc_name = ''daemon_osm__search'', tc_arguments = []\<rparr> = RunsTool ''osm__search''"
    by code_simp
  moreover have "\<exists>e. resolve (round_table ?t False ledger_new) (td_name ?d) = Some e \<and> rt_advertised e = ?d \<and>
      rt_provider_name e \<in> set [''osm__search''] \<union> {BEGIN_STEP_TOOL, COMPLETE_STEP_TOOL}"
  proof (rule bspec[OF conjunct2[OF restricted_turn_runs_only_its_tools[OF _ refl]]])
    show "tt_allowlist ?t = Some [''osm__search'']" by simp
    have "advertised_definitions (round_table ?t False ledger_new) = [?d, sample_def ''complete_step'']" by code_simp
    then show "?d \<in> set (advertised_definitions (round_table ?t False ledger_new))" by simp
  qed
  moreover have "td_name ?d = ''begin_step''" by (simp add: sample_def_def)
  ultimately show ?thesis by (auto simp: BEGIN_STEP_TOOL_def COMPLETE_STEP_TOOL_def)
qed

end
