(* ===== verification/Llm_Errors.thy ===== *)
theory Llm_Errors
  imports Context_Window Sanitize
begin

text \<open>
  What happens to a failed model call, and what is learned from it
  (\<^verbatim>\<open>core/src/error_classify.rs\<close>, \<^verbatim>\<open>daemon/src/classifying_llm.rs\<close>, the retrying client of
  \<^verbatim>\<open>core/src/ports/llm.rs\<close>, \<^verbatim>\<open>storage-sqlite/src/context_window_observations.rs\<close> and the budget of
  \<^verbatim>\<open>daemon/src/config/resolution.rs\<close>).

  \<^item> \<open>classify_builtin\<close> names the cause of an error text, \<open>cause_to_core_error\<close> the error the callers
    act on, \<open>reclassify_with\<close> the three tiers: the built-in rules, what was learned, the classifying
    model. The learned store and the model are functions of the dependencies.
  \<^item> \<open>retry_calls\<close> is the retrying client over a sequence of attempts.
  \<^item> \<open>record_overflow\<close> and \<open>record_success\<close> keep one row for each model, as signed 64-bit columns;
    \<open>resolve_context_budget\<close> and \<open>apply_learned_cap\<close> make the budget of a turn from it.
\<close>

section \<open>Causes\<close>

datatype normalized_cause =
    CauseOverflow "nat option" "nat option"
  | CauseRateLimited
  | CauseBilling
  | CauseAuth
  | CauseModelLoading
  | CauseToolsUnsupported
  | CauseTransient
  | CauseUnknown

fun is_terminal :: "normalized_cause \<Rightarrow> bool" where
  "is_terminal CauseBilling = True"
| "is_terminal CauseAuth = True"
| "is_terminal _ = False"

fun cause_as_key :: "normalized_cause \<Rightarrow> string" where
  "cause_as_key (CauseOverflow _ _) = ''context_overflow''"
| "cause_as_key CauseRateLimited = ''rate_limited''"
| "cause_as_key CauseBilling = ''billing_fatal''"
| "cause_as_key CauseAuth = ''auth''"
| "cause_as_key CauseModelLoading = ''model_loading''"
| "cause_as_key CauseToolsUnsupported = ''tools_unsupported''"
| "cause_as_key CauseTransient = ''transient''"
| "cause_as_key CauseUnknown = ''unknown''"

definition cause_from_key :: "string \<Rightarrow> normalized_cause option" where
  "cause_from_key key =
     (if key = ''context_overflow'' then Some (CauseOverflow None None)
      else if key = ''rate_limited'' then Some CauseRateLimited
      else if key = ''billing_fatal'' then Some CauseBilling
      else if key = ''auth'' then Some CauseAuth
      else if key = ''model_loading'' then Some CauseModelLoading
      else if key = ''tools_unsupported'' then Some CauseToolsUnsupported
      else if key = ''transient'' then Some CauseTransient
      else if key = ''unknown'' then Some CauseUnknown
      else None)"

record error_context =
  ec_connector :: string
  ec_http_status :: "nat option"
  ec_provider_code :: "string option"
  ec_message :: string

datatype core_error =
    LlmError string
  | ContextOverflow "nat option" "nat option" string
  | RateLimited "nat option" string
  | QuotaExceeded string
  | ModelLoading string
  | ToolsUnsupported string
  | OtherCoreError string

fun cause_to_core_error :: "normalized_cause \<Rightarrow> string \<Rightarrow> core_error option" where
  "cause_to_core_error (CauseOverflow prompt_tokens max_tokens) detail = Some (ContextOverflow prompt_tokens max_tokens detail)"
| "cause_to_core_error CauseRateLimited detail = Some (RateLimited None detail)"
| "cause_to_core_error CauseBilling detail = Some (QuotaExceeded detail)"
| "cause_to_core_error CauseModelLoading detail = Some (ModelLoading detail)"
| "cause_to_core_error CauseToolsUnsupported detail = Some (ToolsUnsupported detail)"
| "cause_to_core_error _ detail = None"

section \<open>The numbers of an overflow\<close>

record overflow_fields =
  of_max_context_tokens :: "nat option"
  of_prompt_tokens :: "nat option"
  of_requested_output_tokens :: "nat option"

definition option_or :: "'a option \<Rightarrow> 'a option \<Rightarrow> 'a option" where
  "option_or a b = (case a of None \<Rightarrow> b | Some x \<Rightarrow> Some x)"

definition fields_or :: "overflow_fields \<Rightarrow> overflow_fields \<Rightarrow> overflow_fields" where
  "fields_or a b =
     \<lparr>of_max_context_tokens = option_or (of_max_context_tokens a) (of_max_context_tokens b),
      of_prompt_tokens = option_or (of_prompt_tokens a) (of_prompt_tokens b),
      of_requested_output_tokens = option_or (of_requested_output_tokens a) (of_requested_output_tokens b)\<rparr>"

text \<open>The first and the last run of digits of a text.\<close>

definition first_digits :: "string \<Rightarrow> string" where
  "first_digits s = takeWhile is_digit_byte (dropWhile (\<lambda>c. \<not> is_digit_byte c) s)"

definition parse_run :: "string \<Rightarrow> nat option" where
  "parse_run run = (if run = [] then None else parse_uint u64_max run)"

definition number_after :: "string \<Rightarrow> string \<Rightarrow> nat option" where
  "number_after haystack keyword =
     (case str_find keyword haystack of
        None \<Rightarrow> None
      | Some i \<Rightarrow> parse_run (first_digits (drop (i + length keyword) haystack)))"

definition number_before :: "string \<Rightarrow> string \<Rightarrow> nat option" where
  "number_before haystack keyword =
     (case str_find keyword haystack of
        None \<Rightarrow> None
      | Some i \<Rightarrow> parse_run (rev (first_digits (rev (take i haystack)))))"

definition extract_overflow_fields :: "string \<Rightarrow> overflow_fields" where
  "extract_overflow_fields message =
     (let s = to_ascii_lowercase message in
      \<lparr>of_max_context_tokens =
         option_or (option_or (number_after s ''maximum context length'') (number_after s ''context length is''))
           (number_before s ''maximum''),
       of_prompt_tokens =
         option_or (option_or (option_or (number_after s ''prompt contains'') (number_after s ''prompt is too long''))
           (number_after s ''input length'')) (number_before s ''input tokens''),
       of_requested_output_tokens =
         option_or (number_before s ''output tokens'') (number_after s ''requested'')\<rparr>)"

definition DEFAULT_OUTPUT_RESERVE_TOKENS :: nat where "DEFAULT_OUTPUT_RESERVE_TOKENS = 8192"

definition derive_input_ceiling :: "overflow_fields \<Rightarrow> nat option" where
  "derive_input_ceiling fs =
     (case of_max_context_tokens fs of
        Some max_context \<Rightarrow>
          Some (max_context - min (case of_requested_output_tokens fs of None \<Rightarrow> DEFAULT_OUTPUT_RESERVE_TOKENS | Some r \<Rightarrow> r)
                                  (max_context div 2))
      | None \<Rightarrow> of_prompt_tokens fs)"

section \<open>The built-in rules\<close>

definition says_overflow :: "string \<Rightarrow> bool" where
  "says_overflow lower \<longleftrightarrow> contains_str ''prompt is too long'' lower \<or> contains_str ''input is too long'' lower \<or>
     contains_str ''maximum context length'' lower \<or>
     (contains_str ''context length'' lower \<and> contains_str ''exceed'' lower) \<or> contains_str ''too many tokens'' lower"

definition says_billing :: "string \<Rightarrow> bool" where
  "says_billing lower \<longleftrightarrow> contains_str ''quota'' lower \<or> contains_str ''billing'' lower \<or>
     contains_str ''insufficient_quota'' lower \<or> contains_str ''payment'' lower \<or> contains_str ''credit balance'' lower"

definition says_auth :: "nat option \<Rightarrow> string \<Rightarrow> bool" where
  "says_auth status lower \<longleftrightarrow> status = Some 401 \<or> status = Some 403 \<or> contains_str ''unauthorized'' lower \<or>
     contains_str ''forbidden'' lower \<or> contains_str ''invalid api key'' lower \<or> contains_str ''access denied'' lower \<or>
     contains_str ''not authorized'' lower"

definition says_rate_limit :: "nat option \<Rightarrow> string \<Rightarrow> bool" where
  "says_rate_limit status lower \<longleftrightarrow> status = Some 429 \<or> contains_str ''rate limit'' lower \<or>
     contains_str ''too many requests'' lower \<or> contains_str ''throttl'' lower"

definition says_loading :: "string \<Rightarrow> bool" where
  "says_loading lower \<longleftrightarrow> contains_str ''loading'' lower \<or> contains_str ''warming up'' lower \<or> contains_str ''not ready'' lower"

definition says_no_tools :: "string \<Rightarrow> bool" where
  "says_no_tools lower \<longleftrightarrow> contains_str ''tools are not supported'' lower \<or>
     (contains_str ''tool use'' lower \<and> (contains_str ''not support'' lower \<or>
        contains_str (''doesn'' @ [CHR 0x27] @ ''t support'') lower \<or> contains_str ''does not support'' lower))"

definition says_transient :: "nat option \<Rightarrow> string \<Rightarrow> bool" where
  "says_transient status lower \<longleftrightarrow> (case status of Some n \<Rightarrow> 500 \<le> n \<and> n \<le> 599 | None \<Rightarrow> False) \<or>
     contains_str ''internal server error'' lower \<or> contains_str ''service unavailable'' lower \<or> contains_str ''overloaded'' lower"

definition classify_builtin :: "error_context \<Rightarrow> normalized_cause" where
  "classify_builtin ctx =
     (let lower = to_ascii_lowercase (ec_message ctx); status = ec_http_status ctx in
      if says_overflow lower
      then (let fs = extract_overflow_fields (ec_message ctx)
            in CauseOverflow (of_prompt_tokens fs) (of_max_context_tokens fs))
      else if says_billing lower then CauseBilling
      else if says_auth status lower then CauseAuth
      else if says_rate_limit status lower then CauseRateLimited
      else if says_loading lower then CauseModelLoading
      else if says_no_tools lower then CauseToolsUnsupported
      else if says_transient status lower then CauseTransient
      else CauseUnknown)"

section \<open>The rows of the learned windows\<close>

text \<open>A column is a signed 64-bit integer: \<^verbatim>\<open>as i64\<close> on the way in, clamped at zero on the way out.\<close>

definition as_i64 :: "nat \<Rightarrow> int" where
  "as_i64 n = (if n < 9223372036854775808 then int n else int n - 18446744073709551616)"

record window_row =
  wr_observed_limit :: "int option"
  wr_configured_window :: "int option"
  wr_max_success_input :: "int option"

record learned_window =
  lw_observed_limit :: "nat option"
  lw_configured_window :: "nat option"
  lw_max_success_input :: "nat option"

type_synonym window_store = "(string \<times> string, window_row) hashmap"

definition window_lookup :: "window_store \<Rightarrow> string \<Rightarrow> string \<Rightarrow> learned_window option" where
  "window_lookup db connector model =
     map_option (\<lambda>r. \<lparr>lw_observed_limit = map_option nat (wr_observed_limit r),
         lw_configured_window = map_option nat (wr_configured_window r),
         lw_max_success_input = map_option nat (wr_max_success_input r)\<rparr>) (hm_get db (connector, model))"

definition record_overflow :: "string \<Rightarrow> string \<Rightarrow> nat \<Rightarrow> nat \<Rightarrow> window_store \<Rightarrow> window_store" where
  "record_overflow connector model observed configured db =
     (case hm_get db (connector, model) of
        None \<Rightarrow> hm_insert (connector, model)
          \<lparr>wr_observed_limit = Some (as_i64 observed), wr_configured_window = Some (as_i64 configured), wr_max_success_input = None\<rparr> db
      | Some r \<Rightarrow>
          if wr_configured_window r \<noteq> Some (as_i64 configured) \<or> wr_observed_limit r = None \<or>
             (\<exists>old \<in> set_option (wr_observed_limit r). as_i64 observed < old)
          then hm_insert (connector, model)
                 (r\<lparr>wr_observed_limit := Some (as_i64 observed), wr_configured_window := Some (as_i64 configured)\<rparr>) db
          else db)"

definition window_success :: "string \<Rightarrow> string \<Rightarrow> nat \<Rightarrow> window_store \<Rightarrow> window_store" where
  "window_success connector model input db =
     (case hm_get db (connector, model) of
        None \<Rightarrow> hm_insert (connector, model)
          \<lparr>wr_observed_limit = None, wr_configured_window = None, wr_max_success_input = Some (as_i64 input)\<rparr> db
      | Some r \<Rightarrow> hm_insert (connector, model)
          (r\<lparr>wr_max_success_input := Some (max (case wr_max_success_input r of None \<Rightarrow> 0 | Some n \<Rightarrow> n) (as_i64 input))\<rparr>) db)"

section \<open>The budget of a turn\<close>

datatype budget_source = PurposeOverride | ConnectorTable | UniversalFallback | LearnedCap

record context_budget =
  cb_max_input_tokens :: nat
  cb_source :: budget_source

definition DEFAULT_PURPOSE_MAX_CONTEXT_TOKENS :: nat where "DEFAULT_PURPOSE_MAX_CONTEXT_TOKENS = 200000"

definition resolve_context_budget :: "nat option \<Rightarrow> nat option \<Rightarrow> context_budget" where
  "resolve_context_budget purpose_override connector_max =
     (case purpose_override of
        Some v \<Rightarrow> \<lparr>cb_max_input_tokens = v, cb_source = PurposeOverride\<rparr>
      | None \<Rightarrow>
          (case connector_max of
             Some v \<Rightarrow> \<lparr>cb_max_input_tokens = v, cb_source = ConnectorTable\<rparr>
           | None \<Rightarrow> \<lparr>cb_max_input_tokens = DEFAULT_PURPOSE_MAX_CONTEXT_TOKENS, cb_source = UniversalFallback\<rparr>))"

definition overflow_cap :: "nat \<Rightarrow> learned_window \<Rightarrow> nat" where
  "overflow_cap resolved learned =
     (case (lw_observed_limit learned, lw_configured_window learned) of
        (Some observed, Some configured) \<Rightarrow>
          (case snap_down_to_common observed of
             Some snapped \<Rightarrow> if configured = resolved \<and> snapped < resolved then snapped else resolved
           | None \<Rightarrow> resolved)
      | _ \<Rightarrow> resolved)"

definition apply_learned_cap :: "context_budget \<Rightarrow> learned_window option \<Rightarrow> context_budget" where
  "apply_learned_cap budget learned =
     (case learned of
        None \<Rightarrow> budget
      | Some l \<Rightarrow>
          (let resolved = cb_max_input_tokens budget;
               capped = overflow_cap resolved l;
               effective = (case lw_max_success_input l of
                  None \<Rightarrow> capped | Some high_water \<Rightarrow> max capped (min high_water resolved))
           in if effective = resolved then budget
              else \<lparr>cb_max_input_tokens = effective, cb_source = LearnedCap\<rparr>))"

text \<open>The budget a turn runs under.\<close>

definition turn_budget :: "window_store option \<Rightarrow> string \<Rightarrow> string \<Rightarrow> nat option \<Rightarrow> nat option \<Rightarrow> context_budget" where
  "turn_budget db connector model purpose_override connector_max =
     (let budget = resolve_context_budget purpose_override connector_max in
      case db of None \<Rightarrow> budget | Some rows \<Rightarrow> apply_learned_cap budget (window_lookup rows connector model))"

section \<open>What was learned of errors\<close>

record learned_row =
  le_connector :: string
  le_signature :: string
  le_cause :: string

definition row_matches :: "string \<Rightarrow> string \<Rightarrow> learned_row \<Rightarrow> bool" where
  "row_matches connector message r \<longleftrightarrow>
     le_connector r = connector \<and> contains_str (to_ascii_lowercase (le_signature r)) (to_ascii_lowercase message)"

text \<open>The longest signature wins; of equal ones the query may take any, here the first.\<close>

fun longest_row :: "learned_row list \<Rightarrow> learned_row option" where
  "longest_row [] = None"
| "longest_row (r # rs) =
     (case longest_row rs of
        None \<Rightarrow> Some r
      | Some q \<Rightarrow> Some (if char_count (le_signature q) \<le> char_count (le_signature r) then r else q))"

definition learned_lookup :: "learned_row list \<Rightarrow> string \<Rightarrow> string \<Rightarrow> string option" where
  "learned_lookup rows connector message = map_option le_cause (longest_row (filter (row_matches connector message) rows))"

definition learned_record :: "string \<Rightarrow> string \<Rightarrow> string \<Rightarrow> learned_row list \<Rightarrow> learned_row list" where
  "learned_record connector sig cause rows =
     (if \<exists>r\<in>set rows. le_connector r = connector \<and> le_signature r = sig
      then map (\<lambda>r. if le_connector r = connector \<and> le_signature r = sig then r\<lparr>le_cause := cause\<rparr> else r) rows
      else rows @ [\<lparr>le_connector = connector, le_signature = sig, le_cause = cause\<rparr>])"

section \<open>The classifying client\<close>

definition MIN_SIGNATURE_LEN :: nat where "MIN_SIGNATURE_LEN = 8"
definition SUCCESS_HIGH_WATER_MIN_TOKENS :: nat where "SUCCESS_HIGH_WATER_MIN_TOKENS = 8192"

definition quoted :: "string \<Rightarrow> string" where
  "quoted s = [CHR 0x22] @ s @ [CHR 0x22]"

definition build_classifier_prompt :: "string \<Rightarrow> string \<Rightarrow> string" where
  "build_classifier_prompt connector message =
     ''You classify errors returned by the '' @ quoted connector @ '' LLM backend so an automated '' @
     ''system can react. Reply with ONLY a JSON object and nothing else:'' @ [CHR 0x0A] @
     ''{'' @ quoted ''cause'' @ '': '' @ quoted (''<one of: context_overflow, rate_limited, billing_fatal, auth, '' @
     ''model_loading, tools_unsupported, transient, unknown>'') @ '', '' @
     quoted ''signature'' @ '': '' @ quoted (''<a short distinctive substring copied verbatim from the error that '' @
     ''identifies this class of error>'') @ ''}'' @ [CHR 0x0A] @
     ''Use '' @ quoted ''billing_fatal'' @ '' for quota/billing/credit exhaustion, '' @ quoted ''auth'' @ '' for '' @
     ''authentication or permission failures, and '' @ quoted ''unknown'' @ '' if unsure. The signature must '' @
     ''be an exact substring of the error and must not contain secrets.'' @ [CHR 0x0A, CHR 0x0A] @ ''Error: '' @ message"

text \<open>The text from the first opening brace to the last closing one.\<close>

definition braced :: "string \<Rightarrow> string option" where
  "braced text =
     (case (str_find ''{'' text, rposition (\<lambda>c. c = CHR ''}'') text) of
        (Some start, Some fin) \<Rightarrow> if fin < start then None else Some (take (Suc fin - start) (drop start text))
      | _ \<Rightarrow> None)"

definition parse_classifier_response :: "json_parser \<Rightarrow> string \<Rightarrow> string \<Rightarrow> (normalized_cause \<times> string) option" where
  "parse_classifier_response parse text original =
     (case Option.bind (braced text) parse of
        None \<Rightarrow> None
      | Some v \<Rightarrow>
          (case (Option.bind (json_get ''cause'' v) as_str, Option.bind (json_get ''signature'' v) as_str) of
             (Some key, Some raw) \<Rightarrow>
               (case cause_from_key (trim key) of
                  None \<Rightarrow> None
                | Some cause \<Rightarrow>
                    if cause = CauseUnknown \<or> length (trim raw) < MIN_SIGNATURE_LEN \<or>
                       \<not> contains_str (to_ascii_lowercase (trim raw)) (to_ascii_lowercase original)
                    then None else Some (cause, trim raw))
           | _ \<Rightarrow> None))"

definition opt_u64 :: "json_value option \<Rightarrow> nat option option" where
  "opt_u64 v =
     (case v of
        None \<Rightarrow> Some None
      | Some JNull \<Rightarrow> Some None
      | Some (JNumber n) \<Rightarrow> map_option Some (parse_uint u64_max n)
      | Some _ \<Rightarrow> None)"

definition parse_overflow_extraction_response :: "json_parser \<Rightarrow> string \<Rightarrow> overflow_fields option" where
  "parse_overflow_extraction_response parse text =
     (case Option.bind (braced text) parse of
        Some (JObject ms) \<Rightarrow>
          (case (opt_u64 (map_of ms ''max_context_tokens''), opt_u64 (map_of ms ''prompt_tokens''),
                 opt_u64 (map_of ms ''requested_output_tokens'')) of
             (Some a, Some b, Some c) \<Rightarrow>
               Some \<lparr>of_max_context_tokens = a, of_prompt_tokens = b, of_requested_output_tokens = c\<rparr>
           | _ \<Rightarrow> None)
      | _ \<Rightarrow> None)"

definition build_overflow_extraction_prompt :: "string \<Rightarrow> string" where
  "build_overflow_extraction_prompt message =
     ''A context-window overflow error from an LLM backend is below. Extract the token '' @
     ''numbers it states. Reply with ONLY a JSON object and nothing else:'' @ [CHR 0x0A] @
     ''{'' @ quoted ''max_context_tokens'' @ '': <the model'' @ [CHR 0x27] @ ''s total context window in tokens, or null>, '' @
     quoted ''prompt_tokens'' @ '': <the input/prompt token count, or null>, '' @
     quoted ''requested_output_tokens'' @ '': <the requested/reserved output tokens, or null>}'' @ [CHR 0x0A] @
     ''Use null for any field the error does not state. Copy the integers exactly; do not '' @
     ''guess, round, or infer a number that is not written in the error.'' @ [CHR 0x0A, CHR 0x0A] @ ''Error: '' @ message"

text \<open>
  What a call has at hand: the store of learned errors, the model that classifies (its answer, if one
  comes in time) and the store of learned windows; and the state of the task it runs in.
\<close>

record classification_deps =
  cd_store :: "learned_row list"
  cd_classifier :: "(string \<Rightarrow> string option) option"
  cd_window_store :: "window_store option"

record call_scope =
  cl_connector :: string
  cl_model :: string
  cl_in_progress :: bool
  cl_budget :: "context_budget option"

record llm_response =
  lr_text :: string
  lr_input_tokens :: "nat option"

type_synonym llm_result = "core_error + llm_response"

definition learn_success :: "call_scope \<Rightarrow> llm_response \<Rightarrow> classification_deps \<Rightarrow> classification_deps" where
  "learn_success sc resp d =
     (case (cd_window_store d, lr_input_tokens resp) of
        (Some db, Some input_tokens) \<Rightarrow>
          (let floor = (case cl_budget sc of Some b \<Rightarrow> cb_max_input_tokens b div 2 | None \<Rightarrow> SUCCESS_HIGH_WATER_MIN_TOKENS)
           in if cl_in_progress sc \<or> input_tokens < max floor SUCCESS_HIGH_WATER_MIN_TOKENS then d
              else d\<lparr>cd_window_store := Some (window_success (cl_connector sc) (cl_model sc) input_tokens db)\<rparr>)
      | _ \<Rightarrow> d)"

definition overflow_numbers :: "json_parser \<Rightarrow> classification_deps \<Rightarrow> string \<Rightarrow> overflow_fields" where
  "overflow_numbers parse d detail =
     (let found = extract_overflow_fields detail in
      if derive_input_ceiling found \<noteq> None then found
      else case Option.bind (Option.bind (cd_classifier d) (\<lambda>ask. ask (build_overflow_extraction_prompt (redact_secrets detail))))
                  (parse_overflow_extraction_response parse) of
          None \<Rightarrow> found
        | Some asked \<Rightarrow> fields_or found asked)"

definition learn_window ::
  "json_parser \<Rightarrow> call_scope \<Rightarrow> normalized_cause \<Rightarrow> string \<Rightarrow> classification_deps \<Rightarrow> classification_deps" where
  "learn_window parse sc cause detail d =
     (case (cause, cd_window_store d, cl_budget sc) of
        (CauseOverflow _ _, Some db, Some budget) \<Rightarrow>
          if cl_in_progress sc then d
          else (case derive_input_ceiling (overflow_numbers parse d detail) of
                  None \<Rightarrow> d
                | Some ceiling \<Rightarrow> d\<lparr>cd_window_store :=
                    Some (record_overflow (cl_connector sc) (cl_model sc) ceiling (cb_max_input_tokens budget) db)\<rparr>)
      | _ \<Rightarrow> d)"

definition apply_cause :: "normalized_cause \<Rightarrow> string \<Rightarrow> llm_result" where
  "apply_cause cause detail = Inl (case cause_to_core_error cause detail of Some e \<Rightarrow> e | None \<Rightarrow> LlmError detail)"

definition classify_via_llm ::
  "json_parser \<Rightarrow> string \<Rightarrow> (string \<Rightarrow> string option) \<Rightarrow> string \<Rightarrow> (normalized_cause \<times> string) option" where
  "classify_via_llm parse connector ask detail =
     Option.bind (ask (build_classifier_prompt connector (redact_secrets detail)))
       (\<lambda>text. parse_classifier_response parse text detail)"

definition learned_cause :: "call_scope \<Rightarrow> classification_deps \<Rightarrow> string \<Rightarrow> normalized_cause option" where
  "learned_cause sc d detail = Option.bind (learned_lookup (cd_store d) (cl_connector sc) detail) cause_from_key"

definition reclassify_with ::
  "json_parser \<Rightarrow> call_scope \<Rightarrow> llm_result \<Rightarrow> classification_deps option \<Rightarrow> llm_result \<times> classification_deps option" where
  "reclassify_with parse sc result deps =
     (case result of
        Inr resp \<Rightarrow> (Inr resp, map_option (learn_success sc resp) deps)
      | Inl (LlmError detail) \<Rightarrow>
          (let cause = classify_builtin \<lparr>ec_connector = cl_connector sc, ec_http_status = None,
                 ec_provider_code = None, ec_message = detail\<rparr>
           in if cause \<noteq> CauseUnknown
              then (apply_cause cause detail, map_option (learn_window parse sc cause detail) deps)
              else if cl_in_progress sc then (Inl (LlmError detail), deps)
              else case deps of
                  None \<Rightarrow> (Inl (LlmError detail), None)
                | Some d \<Rightarrow>
                    (case learned_cause sc d detail of
                       Some c \<Rightarrow> (apply_cause c detail, Some d)
                     | None \<Rightarrow>
                         (case Option.bind (cd_classifier d) (\<lambda>ask. classify_via_llm parse (cl_connector sc) ask detail) of
                            None \<Rightarrow> (Inl (LlmError detail), Some d)
                          | Some (c, sig) \<Rightarrow>
                              (apply_cause c detail,
                               Some (d\<lparr>cd_store := learned_record (cl_connector sc) sig (cause_as_key c) (cd_store d)\<rparr>)))))
      | Inl other \<Rightarrow> (Inl other, deps))"

section \<open>The retrying client\<close>

fun is_retryable_error :: "core_error \<Rightarrow> bool" where
  "is_retryable_error (RateLimited _ _) = True"
| "is_retryable_error _ = False"

text \<open>
  One attempt after another, as long as retries are left: \<^verbatim>\<open>retry\<close> of the backon crate as its
  documentation describes it (the call is repeated at most \<^verbatim>\<open>max_times\<close> more times, while its error
  satisfies the \<^verbatim>\<open>when\<close> predicate), with the predicate and the flag of \<^verbatim>\<open>stream_completion\<close>. An attempt
  is its result and whether it passed on a piece of the answer. The pauses in between are left out.
\<close>

fun retry_calls :: "nat \<Rightarrow> (nat \<Rightarrow> llm_result \<times> bool) \<Rightarrow> nat \<Rightarrow> bool \<Rightarrow> llm_result \<times> nat" where
  "retry_calls left attempt i forwarded =
     (let (result, streamed) = attempt i; shown = forwarded \<or> streamed in
      case result of
        Inr resp \<Rightarrow> (result, Suc i)
      | Inl e \<Rightarrow>
          (case left of
             0 \<Rightarrow> (result, Suc i)
           | Suc n \<Rightarrow> if is_retryable_error e \<and> \<not> shown then retry_calls n attempt (Suc i) shown else (result, Suc i)))"

declare retry_calls.simps [simp del]

definition stream_completion :: "nat \<Rightarrow> (nat \<Rightarrow> llm_result \<times> bool) \<Rightarrow> llm_result \<times> nat" where
  "stream_completion max_retries attempt = retry_calls max_retries attempt 0 False"

section \<open>Retries\<close>

definition replayable :: "llm_result \<times> bool \<Rightarrow> bool" where
  "replayable a \<longleftrightarrow> (\<exists>after detail. fst a = Inl (RateLimited after detail)) \<and> \<not> snd a"

lemma replayable_iff: "replayable a \<longleftrightarrow> (case fst a of Inl e \<Rightarrow> is_retryable_error e | Inr _ \<Rightarrow> False) \<and> \<not> snd a"
  by (cases "fst a") (auto simp: replayable_def elim: is_retryable_error.elims)

lemma retry_step:
  "retry_calls left attempt i False =
     (if 0 < left \<and> replayable (attempt i) then retry_calls (left - 1) attempt (Suc i) False else (fst (attempt i), Suc i))"
  unfolding retry_calls.simps[of left attempt i False]
  by (cases left; cases "attempt i"; cases "fst (attempt i)") (auto simp: replayable_iff)

lemma retry_run:
  "retry_calls left attempt i False = (r, n) \<Longrightarrow>
     i < n \<and> n \<le> i + left + 1 \<and> r = fst (attempt (n - 1)) \<and> (\<forall>j. i \<le> j \<and> Suc j < n \<longrightarrow> replayable (attempt j)) \<and>
     (n \<le> i + left \<longrightarrow> \<not> replayable (attempt (n - 1)))"
proof (induction left arbitrary: i)
  case 0
  then show ?case by (subst (asm) retry_step) auto
next
  case (Suc left)
  show ?case
  proof (cases "replayable (attempt i)")
    case True
    then have "retry_calls left attempt (Suc i) False = (r, n)" using Suc.prems by (subst (asm) retry_step) simp
    note IH = Suc.IH[OF this]
    have "replayable (attempt j)" if "i \<le> j \<and> Suc j < n" for j
      using IH that True by (cases "i = j") auto
    then show ?thesis using IH by auto
  next
    case False
    then have "r = fst (attempt i)" "n = Suc i" using Suc.prems by (subst (asm) retry_step, simp)+
    then show ?thesis using False by auto
  qed
qed

text \<open>
  C38: A retry never shows the user the same words twice and never goes on for ever. A model call makes at
  least one and at most one more attempt than the retries allowed; what it returns is the result of its
  last attempt; every attempt before that was turned down by a rate limit before it passed on any part
  of an answer; and it gives up early only on a result that is not a rate limit, or that came after a
  part of an answer was shown.
\<close>

theorem retry_never_replays:
  assumes "stream_completion max_retries attempt = (r, n)"
  shows "0 < n \<and> n \<le> max_retries + 1 \<and> r = fst (attempt (n - 1)) \<and>
    (\<forall>j. Suc j < n \<longrightarrow> (\<exists>after detail. attempt j = (Inl (RateLimited after detail), False))) \<and>
    (n \<le> max_retries \<longrightarrow> \<not> (\<exists>after detail. attempt (n - 1) = (Inl (RateLimited after detail), False)))"
proof -
  have rep: "replayable (attempt j) \<longleftrightarrow> (\<exists>after detail. attempt j = (Inl (RateLimited after detail), False))" for j
    by (cases "attempt j") (auto simp: replayable_def)
  show ?thesis
    using retry_run[OF assms[unfolded stream_completion_def]] unfolding rep by simp
qed

text \<open>The calls of the retrying client around the classifying client around a connector.\<close>

definition classified_calls ::
  "json_parser \<Rightarrow> call_scope \<Rightarrow> classification_deps option \<Rightarrow> (nat \<Rightarrow> llm_result \<times> bool) \<Rightarrow> nat \<Rightarrow> llm_result \<times> bool" where
  "classified_calls parse sc deps raw i = (fst (reclassify_with parse sc (fst (raw i)) deps), snd (raw i))"

text \<open>The words that mark a text, in the order of the rules: the first rule with one of its words in it applies.\<close>

definition mentions :: "string list \<Rightarrow> string \<Rightarrow> bool" where
  "mentions phrases detail \<longleftrightarrow> (\<exists>w\<in>set phrases. sublist w (to_ascii_lowercase detail))"

definition overflow_words :: "string list" where
  "overflow_words = [''prompt is too long'', ''input is too long'', ''maximum context length'', ''too many tokens'']"

definition billing_words :: "string list" where
  "billing_words = [''quota'', ''billing'', ''payment'', ''credit balance'']"

definition credential_words :: "string list" where
  "credential_words = [''unauthorized'', ''forbidden'', ''invalid api key'', ''access denied'', ''not authorized'']"

definition rate_limit_words :: "string list" where
  "rate_limit_words = [''rate limit'', ''too many requests'', ''throttl'']"

definition names_overflow :: "string \<Rightarrow> bool" where
  "names_overflow detail \<longleftrightarrow> mentions overflow_words detail \<or> mentions [''context length''] detail \<and> mentions [''exceed''] detail"

lemma says_words:
  "says_overflow (to_ascii_lowercase detail) \<longleftrightarrow> names_overflow detail"
  "says_billing (to_ascii_lowercase detail) \<longleftrightarrow> mentions billing_words detail"
  "says_auth None (to_ascii_lowercase detail) \<longleftrightarrow> mentions credential_words detail"
  "says_rate_limit None (to_ascii_lowercase detail) \<longleftrightarrow> mentions rate_limit_words detail"
proof -
  have quota: "sublist ''insufficient_quota'' s \<Longrightarrow> sublist ''quota'' s" for s
    using sublist_order.order_trans[of "''quota''" "''insufficient_quota''" s]
      sublist_appendI[of "''quota''" "''insufficient_''" "[]"] by simp
  show "says_billing (to_ascii_lowercase detail) \<longleftrightarrow> mentions billing_words detail"
    using quota[of "to_ascii_lowercase detail"]
    by (auto simp: says_billing_def mentions_def billing_words_def contains_str_sublist)
qed (auto simp: says_overflow_def says_auth_def says_rate_limit_def names_overflow_def mentions_def overflow_words_def
    credential_words_def rate_limit_words_def contains_str_sublist)

lemma first_attempt:
  assumes "raw 0 = (Inl (LlmError detail), streamed)"
    and "classify_builtin \<lparr>ec_connector = cl_connector sc, ec_http_status = None, ec_provider_code = None, ec_message = detail\<rparr> = cause"
    and "cause \<noteq> CauseUnknown"
  shows "classified_calls parse sc deps raw 0 = (apply_cause cause detail, streamed)"
  using assms by (simp add: classified_calls_def reclassify_with_def Let_def)

lemma attempted_once:
  "calls 0 = (Inl e, streamed) \<Longrightarrow> \<not> is_retryable_error e \<Longrightarrow> stream_completion max_retries calls = (Inl e, 1)"
  unfolding stream_completion_def by (subst retry_step) (simp add: replayable_iff)

lemma attempted_again:
  assumes "calls 0 = (Inl (RateLimited after detail), False)" and "0 < max_retries"
  shows "1 < snd (stream_completion max_retries calls)"
proof -
  obtain r n where rn: "retry_calls (max_retries - 1) calls 1 False = (r, n)" by fastforce
  then have "stream_completion max_retries calls = (r, n)"
    unfolding stream_completion_def using assms by (subst retry_step) (simp add: replayable_def)
  then show ?thesis using retry_run[OF rn] by simp
qed

text \<open>
  C18: What the words of a failed call decide. The built-in rules read the text of the error in a fixed
  order. A text that names an overflow of the context is reported as one; else a text with a word of
  billing is reported as an exceeded quota, also when it speaks of credentials or of a rate limit; else a
  text with a word of credentials is reported as it came, also when it speaks of a rate limit: in these
  three cases the call is made once, whatever the retries left and whatever was learned. Only a text that
  speaks of a rate limit and of none of these is a rate limit, and is tried again if nothing of an answer
  was passed on and a retry is left.
\<close>

theorem terminal_errors_are_not_retried:
  assumes "raw 0 = (Inl (LlmError detail), streamed)"
    and outcome: "outcome = stream_completion max_retries (classified_calls parse sc deps raw)"
  shows "if names_overflow detail then snd outcome = 1 \<and> (\<exists>prompt most. fst outcome = Inl (ContextOverflow prompt most detail))
    else if mentions billing_words detail then outcome = (Inl (QuotaExceeded detail), 1)
    else if mentions credential_words detail then outcome = (Inl (LlmError detail), 1)
    else if mentions rate_limit_words detail
    then (if streamed \<or> max_retries = 0 then outcome = (Inl (RateLimited None detail), 1) else 1 < snd outcome)
    else True"
proof -
  let ?calls = "classified_calls parse sc deps raw"
  let ?ctx = "\<lparr>ec_connector = cl_connector sc, ec_http_status = None, ec_provider_code = None, ec_message = detail\<rparr>"
  note rules = classify_builtin_def says_words Let_def
  note first = first_attempt[of raw detail streamed sc _ parse deps, OF assms(1)]
  have once: "outcome = (Inl e, 1)"
    if "classify_builtin ?ctx = cause" "cause \<noteq> CauseUnknown" "apply_cause cause detail = Inl e" "\<not> is_retryable_error e" for cause e
    using attempted_once[of ?calls e streamed] first[OF that(1,2)] that(3,4) by (simp add: outcome)
  consider (overflow) "names_overflow detail"
    | (billing) "\<not> names_overflow detail" "mentions billing_words detail"
    | (auth) "\<not> names_overflow detail" "\<not> mentions billing_words detail" "mentions credential_words detail"
    | (rate) "\<not> names_overflow detail" "\<not> mentions billing_words detail" "\<not> mentions credential_words detail"
        "mentions rate_limit_words detail"
    | (other) "\<not> names_overflow detail" "\<not> mentions billing_words detail" "\<not> mentions credential_words detail"
        "\<not> mentions rate_limit_words detail" by blast
  then show ?thesis
  proof cases
    case overflow
    let ?fs = "extract_overflow_fields detail"
    have "outcome = (Inl (ContextOverflow (of_prompt_tokens ?fs) (of_max_context_tokens ?fs) detail), 1)"
      by (rule once[where cause = "CauseOverflow (of_prompt_tokens ?fs) (of_max_context_tokens ?fs)"])
        (use overflow in \<open>simp_all add: rules apply_cause_def\<close>)
    then show ?thesis using overflow by auto
  next
    case billing
    have "outcome = (Inl (QuotaExceeded detail), 1)"
      by (rule once[where cause = CauseBilling]) (use billing in \<open>simp_all add: rules apply_cause_def\<close>)
    then show ?thesis using billing by simp
  next
    case auth
    have "outcome = (Inl (LlmError detail), 1)"
      by (rule once[where cause = CauseAuth]) (use auth in \<open>simp_all add: rules apply_cause_def\<close>)
    then show ?thesis using auth by simp
  next
    case rate
    have "classify_builtin ?ctx = CauseRateLimited" using rate by (simp add: rules)
    then have call: "?calls 0 = (Inl (RateLimited None detail), streamed)"
      using first by (simp add: apply_cause_def)
    have "outcome = (Inl (RateLimited None detail), 1)" if "streamed \<or> max_retries = 0"
      unfolding outcome stream_completion_def by (subst retry_step) (use that call in \<open>auto simp: replayable_iff\<close>)
    moreover have "1 < snd outcome" if "\<not> (streamed \<or> max_retries = 0)"
      unfolding outcome by (rule attempted_again) (use that call in auto)
    ultimately show ?thesis using rate by simp
  qed simp
qed

section \<open>What is learned of an error is used\<close>

lemma longest_row_in: "longest_row rs = Some r \<Longrightarrow> r \<in> set rs"
  by (induction rs) (auto split: option.splits if_splits)

lemma longest_row_None: "longest_row rs = None \<longleftrightarrow> rs = []"
  by (cases rs) (auto split: option.split)

lemma learned_lookup_None: "learned_lookup rows c m = None \<longleftrightarrow> (\<forall>r\<in>set rows. \<not> row_matches c m r)"
  by (auto simp: learned_lookup_def longest_row_None filter_empty_conv)

lemma lookup_after_record:
  assumes "learned_lookup rows c m = None" and "contains_str (to_ascii_lowercase sig) (to_ascii_lowercase m)"
  shows "learned_lookup (learned_record c sig key rows) c m = Some key"
proof -
  have none: "\<forall>r\<in>set rows. \<not> row_matches c m r" using assms(1) by (simp add: learned_lookup_None)
  then have "\<not> (\<exists>r\<in>set rows. le_connector r = c \<and> le_signature r = sig)" using assms(2) by (auto simp: row_matches_def)
  then have "learned_record c sig key rows = rows @ [\<lparr>le_connector = c, le_signature = sig, le_cause = key\<rparr>]"
    by (simp add: learned_record_def)
  moreover have "filter (row_matches c m) rows = []" using none by (simp add: filter_empty_conv)
  ultimately show ?thesis using assms(2) by (simp add: learned_lookup_def row_matches_def)
qed

lemma cause_key_round_trip:
  "cause_from_key (cause_as_key cause) = Some (case cause of CauseOverflow _ _ \<Rightarrow> CauseOverflow None None | c \<Rightarrow> c)"
  by (cases cause) (simp_all add: cause_from_key_def)

lemma parsed_response_usable:
  assumes "parse_classifier_response parse text original = Some (cause, sig)"
  shows "contains_str (to_ascii_lowercase sig) (to_ascii_lowercase original) \<and> cause_from_key (cause_as_key cause) = Some cause"
proof -
  obtain key where "cause_from_key key = Some cause"
    and sub: "contains_str (to_ascii_lowercase sig) (to_ascii_lowercase original)"
    using assms by (auto simp: parse_classifier_response_def split: option.splits if_splits prod.splits)
  then have "cause_from_key (cause_as_key cause) = Some cause"
    unfolding cause_key_round_trip by (auto simp: cause_from_key_def split: if_splits)
  then show ?thesis using sub by simp
qed

text \<open>
  What the classifying model named once, the next error of this text is recognised without it. If the
  built-in rules do not know an error, nothing learned matches it and the classifying model names its
  cause, then a second failure with the same text gives the same result from the store alone, whatever
  has become of the classifying model, and the store does not change again.
\<close>

theorem learned_error_is_recognised:
  assumes "classify_builtin \<lparr>ec_connector = cl_connector sc, ec_http_status = None, ec_provider_code = None, ec_message = detail\<rparr> = CauseUnknown"
    and "\<not> cl_in_progress sc" and "learned_lookup (cd_store d) (cl_connector sc) detail = None"
    and "cd_classifier d = Some ask" and "classify_via_llm parse (cl_connector sc) ask detail = Some (cause, sig)"
    and "reclassify_with parse sc (Inl (LlmError detail)) (Some d) = (result, Some d')"
  shows "result = apply_cause cause detail \<and>
    reclassify_with parse sc (Inl (LlmError detail)) (Some (d'\<lparr>cd_classifier := any\<rparr>)) = (result, Some (d'\<lparr>cd_classifier := any\<rparr>))"
proof -
  have usable: "contains_str (to_ascii_lowercase sig) (to_ascii_lowercase detail)" "cause_from_key (cause_as_key cause) = Some cause"
    using assms(5) parsed_response_usable unfolding classify_via_llm_def by (auto simp: bind_eq_Some_conv)
  have first: "result = apply_cause cause detail"
    "cd_store d' = learned_record (cl_connector sc) sig (cause_as_key cause) (cd_store d)"
    using assms by (auto simp: reclassify_with_def Let_def learned_cause_def)
  then have "learned_cause sc (d'\<lparr>cd_classifier := any\<rparr>) detail = Some cause"
    using lookup_after_record[OF assms(3) usable(1)] usable(2) by (simp add: learned_cause_def)
  then show ?thesis using first assms(1,2) by (simp add: reclassify_with_def Let_def)
qed

section \<open>The learned budget\<close>

lemma snap_rung: "snap_down_to_common n = Some r \<Longrightarrow> 4096 \<le> r \<and> r \<le> n"
proof -
  assume "snap_down_to_common n = Some r"
  then have "r \<in> set COMMON_WINDOW_SIZES \<and> r \<le> n" using snap_down_largest(1) by blast
  moreover have "\<forall>x\<in>set COMMON_WINDOW_SIZES. 4096 \<le> x" by (simp add: COMMON_WINDOW_SIZES_def)
  ultimately show ?thesis by blast
qed

lemma overflow_cap_bounds: "min resolved 4096 \<le> overflow_cap resolved l \<and> overflow_cap resolved l \<le> resolved"
proof (cases "lw_observed_limit l")
  case (Some observed)
  then show ?thesis using snap_rung[of observed]
    by (cases "lw_configured_window l"; cases "snap_down_to_common observed") (auto simp: overflow_cap_def)
qed (simp add: overflow_cap_def)

text \<open>
  C39: Whatever was learned, the budget of a turn stays usable. It is never above what the configuration or
  the connector gives, never below that or 4096 tokens, whichever is less, whatever number was read from
  an error text; never below an input the model has been seen to accept, as far as the configuration
  allows; and without a row for the model it is the configured one.
\<close>

theorem learned_budget_stays_usable:
  "let resolved = cb_max_input_tokens (resolve_context_budget purpose_override connector_max);
       budget = cb_max_input_tokens (turn_budget (Some db) connector model purpose_override connector_max)
   in budget \<le> resolved \<and> min resolved 4096 \<le> budget \<and>
      (case window_lookup db connector model of
         None \<Rightarrow> budget = resolved
       | Some l \<Rightarrow> (case lw_max_success_input l of None \<Rightarrow> True | Some accepted \<Rightarrow> min accepted resolved \<le> budget))"
proof (cases "window_lookup db connector model")
  case None
  then show ?thesis by (simp add: turn_budget_def apply_learned_cap_def Let_def)
next
  case (Some l)
  define resolved where "resolved = cb_max_input_tokens (resolve_context_budget purpose_override connector_max)"
  have "cb_max_input_tokens (turn_budget (Some db) connector model purpose_override connector_max) =
      (case lw_max_success_input l of None \<Rightarrow> overflow_cap resolved l
       | Some high_water \<Rightarrow> max (overflow_cap resolved l) (min high_water resolved))"
    unfolding resolved_def by (simp add: turn_budget_def apply_learned_cap_def Let_def Some)
  then show ?thesis using overflow_cap_bounds[of resolved l] Some
    unfolding resolved_def[symmetric] Let_def by (auto simp: le_max_iff_disj split: option.split)
qed

text \<open>
  A ceiling keeps at least half of the window it was read from and never more than all of it.
\<close>

lemma derived_ceiling_bounds:
  "derive_input_ceiling f = Some c \<Longrightarrow> of_max_context_tokens f = Some m \<Longrightarrow> m \<le> 2 * c + 1 \<and> c \<le> m"
  by (auto simp: derive_input_ceiling_def)

text \<open>
  The budget a failed call is recorded under is the one in force, the capped one, while a recorded row
  counts only under the configured one. So a second overflow, under the budget the first one had
  lowered, puts the budget back where it was.
\<close>

definition overflow_turn :: "nat \<Rightarrow> window_store \<Rightarrow> window_store" where
  "overflow_turn ceiling db =
     record_overflow ''bedrock'' ''m'' ceiling (cb_max_input_tokens (turn_budget (Some db) ''bedrock'' ''m'' None (Some 200000))) db"

lemma second_overflow_undoes_the_first:
  "cb_max_input_tokens (turn_budget (Some (overflow_turn 194560 [])) ''bedrock'' ''m'' None (Some 200000)) = 192000"
  "cb_max_input_tokens (turn_budget (Some (overflow_turn 186368 (overflow_turn 194560 []))) ''bedrock'' ''m'' None (Some 200000)) = 200000"
proof -
  have snaps: "snap_down_to_common 194560 = Some 192000" "snap_down_to_common 186368 = Some 160000"
    by (simp_all add: snap_down_to_common_def COMMON_WINDOW_SIZES_def)
  note unfold = overflow_turn_def turn_budget_def resolve_context_budget_def window_lookup_def record_overflow_def
    apply_learned_cap_def overflow_cap_def as_i64_def Let_def
  show first: "cb_max_input_tokens (turn_budget (Some (overflow_turn 194560 [])) ''bedrock'' ''m'' None (Some 200000)) = 192000"
    by (simp add: unfold snaps)
  show "cb_max_input_tokens (turn_budget (Some (overflow_turn 186368 (overflow_turn 194560 []))) ''bedrock'' ''m'' None (Some 200000)) = 200000"
    by (simp add: unfold snaps)
qed

text \<open>A learned row also lowers a budget the user has set.\<close>

lemma learned_cap_overrides_the_purpose:
  "cb_source (apply_learned_cap (resolve_context_budget (Some 200000) None)
     (Some \<lparr>lw_observed_limit = Some 9000, lw_configured_window = Some 200000, lw_max_success_input = None\<rparr>)) = LearnedCap"
  by (simp add: apply_learned_cap_def overflow_cap_def resolve_context_budget_def snap_down_to_common_def COMMON_WINDOW_SIZES_def Let_def)

section \<open>Witnesses\<close>

theorem retry_never_replays_witness:
  "snd (stream_completion 3 (\<lambda>i. if i < 2 then (Inl (RateLimited None ''busy''), False) else (Inr \<lparr>lr_text = ''hi'', lr_input_tokens = None\<rparr>, True))) = 3 \<and>
   fst (stream_completion 3 (\<lambda>i. if i < 2 then (Inl (RateLimited None ''busy''), False) else (Inr \<lparr>lr_text = ''hi'', lr_input_tokens = None\<rparr>, True))) =
     Inr \<lparr>lr_text = ''hi'', lr_input_tokens = None\<rparr>"
proof -
  let ?a = "\<lambda>i :: nat. if i < 2 then (Inl (RateLimited None ''busy''), False) else (Inr \<lparr>lr_text = ''hi'', lr_input_tokens = None\<rparr>, True)"
  obtain r n where rn: "stream_completion 3 ?a = (r, n)" by fastforce
  have "n = 3" using rn unfolding stream_completion_def by (simp add: retry_step replayable_iff)
  then show ?thesis using retry_never_replays[OF rn] rn by simp
qed

theorem terminal_errors_are_not_retried_witness:
  "stream_completion 5 (classified_calls (\<lambda>_. None) \<lparr>cl_connector = ''openai'', cl_model = ''m'', cl_in_progress = False, cl_budget = None\<rparr>
      None (\<lambda>_. (Inl (LlmError ''Rate limit: Quota used up''), False))) = (Inl (QuotaExceeded ''Rate limit: Quota used up''), 1)"
proof -
  let ?d = "''Rate limit: Quota used up''"
  have words: "says_billing (to_ascii_lowercase ?d)" "\<not> says_overflow (to_ascii_lowercase ?d)" by code_simp+
  show ?thesis
    using terminal_errors_are_not_retried[of "\<lambda>_. (Inl (LlmError ?d), False)", OF refl refl] words[unfolded says_words] by simp
qed

definition sample_deps :: classification_deps where
  "sample_deps = \<lparr>cd_store = [], cd_classifier = Some (\<lambda>_. Some ''{}''), cd_window_store = None\<rparr>"

definition sample_reply :: json_parser where
  "sample_reply _ = Some (JObject [(''cause'', JString ''rate_limited''), (''signature'', JString ''slow down'')])"

theorem learned_error_is_recognised_witness:
  "fst (reclassify_with sample_reply \<lparr>cl_connector = ''x'', cl_model = ''m'', cl_in_progress = False, cl_budget = None\<rparr>
      (Inl (LlmError ''please slow down'')) (Some (the (snd (reclassify_with sample_reply
        \<lparr>cl_connector = ''x'', cl_model = ''m'', cl_in_progress = False, cl_budget = None\<rparr>
        (Inl (LlmError ''please slow down'')) (Some sample_deps)))\<lparr>cd_classifier := None\<rparr>))) = Inl (RateLimited None ''please slow down'')"
proof -
  let ?sc = "\<lparr>cl_connector = ''x'', cl_model = ''m'', cl_in_progress = False, cl_budget = None\<rparr>" and ?e = "''please slow down''"
  have unknown: "classify_builtin \<lparr>ec_connector = cl_connector ?sc, ec_http_status = None, ec_provider_code = None, ec_message = ?e\<rparr> = CauseUnknown"
    by code_simp
  have named: "classify_via_llm sample_reply (cl_connector ?sc) (\<lambda>_. Some ''{}'') ?e = Some (CauseRateLimited, ''slow down'')" by code_simp
  have fresh: "learned_lookup (cd_store sample_deps) (cl_connector ?sc) ?e = None" by (simp add: sample_deps_def learned_lookup_def)
  obtain result d' where call: "reclassify_with sample_reply ?sc (Inl (LlmError ?e)) (Some sample_deps) = (result, Some d')"
    using unknown named fresh by (simp add: reclassify_with_def Let_def learned_cause_def sample_deps_def)
  have "result = apply_cause CauseRateLimited ?e \<and>
    reclassify_with sample_reply ?sc (Inl (LlmError ?e)) (Some (d'\<lparr>cd_classifier := None\<rparr>)) = (result, Some (d'\<lparr>cd_classifier := None\<rparr>))"
    by (rule learned_error_is_recognised[OF unknown _ fresh _ named call]) (simp_all add: sample_deps_def)
  then show ?thesis using call by (simp add: apply_cause_def)
qed

end
