(* ===== verification/Tool_Names.thy ===== *)
theory Tool_Names
  imports Tool_Routing "HOL-Library.Word"
begin

unbundle bit_operations_syntax

text \<open>
  The tool names of a Bedrock request (\<^verbatim>\<open>llm-bedrock/src/tool_names.rs\<close>).

  \<^item> \<open>sanitize_base\<close>, \<open>stable_suffix\<close> and \<open>with_suffix\<close> are the pure parts; the FNV-1a hash is
    computed on 64-bit words. A string hashes as its bytes and the byte 255, as \<^verbatim>\<open>Hash for str\<close> does.
  \<^item> \<open>name_map\<close> is the two maps; \<open>insert_name\<close> binds one name, \<open>from_names\<close> a request's names. The
    last resort of an insertion counts over \<^verbatim>\<open>u32\<close>; running past its range is \<open>None\<close>.
\<close>

section \<open>Names the service accepts\<close>

definition MAX_TOOL_NAME_LEN :: nat where "MAX_TOOL_NAME_LEN = 64"
definition SUFFIX_HEX_LEN :: nat where "SUFFIX_HEX_LEN = 8"

definition is_name_byte :: "char \<Rightarrow> bool" where
  "is_name_byte c \<longleftrightarrow> is_ascii_alphanumeric c \<or> c = CHR ''_'' \<or> c = CHR ''-''"

text \<open>One byte for each character: the characters are counted by the bytes that begin them.\<close>

definition sanitize_base :: "string \<Rightarrow> string" where
  "sanitize_base name =
     (let out = take MAX_TOOL_NAME_LEN
            (map (\<lambda>c. if is_name_byte c then c else CHR ''_'') (filter (\<lambda>c. \<not> is_cont_byte c) name))
      in if out = [] then ''_'' else out)"

definition fnv_offset_basis :: "64 word" where "fnv_offset_basis = 0xcbf29ce484222325"

definition fnv_write :: "string \<Rightarrow> 64 word \<Rightarrow> 64 word" where
  "fnv_write bytes h = fold (\<lambda>b h. (h XOR of_nat (byte_of b)) * 0x100000001b3) bytes h"

definition hex_digit :: "64 word \<Rightarrow> char" where
  "hex_digit n = ''0123456789abcdef'' ! unat n"

definition hex16 :: "64 word \<Rightarrow> string" where
  "hex16 h = map (\<lambda>i. hex_digit (drop_bit (4 * (15 - i)) h AND 15)) [0..<16]"

definition stable_suffix :: "string \<Rightarrow> string" where
  "stable_suffix original = take SUFFIX_HEX_LEN (hex16 (fnv_write (original @ [CHR 0xFF]) fnv_offset_basis))"

definition with_suffix :: "string \<Rightarrow> string \<Rightarrow> string" where
  "with_suffix base sfx =
     (let truncated = take (MAX_TOOL_NAME_LEN - (length sfx + 1)) base
      in (if truncated = [] then ''_'' else truncated) @ ''-'' @ sfx)"

section \<open>The map of a request\<close>

record name_map =
  nm_to_safe :: "(string, string) hashmap"
  nm_to_original :: "(string, string) hashmap"

definition name_map_default :: name_map where
  "name_map_default = \<lparr>nm_to_safe = [], nm_to_original = []\<rparr>"

definition bind_name :: "string \<Rightarrow> string \<Rightarrow> name_map \<Rightarrow> name_map" where
  "bind_name original safe m =
     \<lparr>nm_to_safe = hm_insert original safe (nm_to_safe m), nm_to_original = hm_insert safe original (nm_to_original m)\<rparr>"

text \<open>The loop over \<^verbatim>\<open>0u32..\<close>.\<close>

definition U32_RANGE :: nat where "U32_RANGE = 4294967296"

function free_candidate :: "(string, string) hashmap \<Rightarrow> string \<Rightarrow> string \<Rightarrow> nat \<Rightarrow> string option" where
  "free_candidate taken original base i =
     (if U32_RANGE \<le> i then None
      else let candidate = with_suffix base (stable_suffix (original @ ''#'' @ show_nat i))
           in if hm_get taken candidate = None then Some candidate else free_candidate taken original base (Suc i))"
  by pat_completeness auto
termination
  by (relation "measure (\<lambda>(taken, original, base, i). U32_RANGE - i)") auto

declare free_candidate.simps [simp del]

definition insert_name :: "string \<Rightarrow> name_map \<Rightarrow> name_map option" where
  "insert_name original m =
     (if hm_get (nm_to_safe m) original \<noteq> None then Some m
      else
        (let base = sanitize_base original; candidate = with_suffix base (stable_suffix original) in
         if hm_get (nm_to_original m) base = None then Some (bind_name original base m)
         else if hm_get (nm_to_original m) candidate = None then Some (bind_name original candidate m)
         else map_option (\<lambda>safe. bind_name original safe m) (free_candidate (nm_to_original m) original base 0)))"

fun insert_names :: "string list \<Rightarrow> name_map \<Rightarrow> name_map option" where
  "insert_names [] m = Some m"
| "insert_names (n # ns) m = Option.bind (insert_name n m) (insert_names ns)"

definition from_names :: "string list \<Rightarrow> name_map option" where
  "from_names names = insert_names names name_map_default"

definition to_safe :: "name_map \<Rightarrow> string \<Rightarrow> string" where
  "to_safe m original = (case hm_get (nm_to_safe m) original of Some safe \<Rightarrow> safe | None \<Rightarrow> sanitize_base original)"

definition to_original :: "name_map \<Rightarrow> string \<Rightarrow> string" where
  "to_original m safe = (case hm_get (nm_to_original m) safe of Some original \<Rightarrow> original | None \<Rightarrow> safe)"

section \<open>Every name is acceptable and comes back\<close>

text \<open>The pattern of the service: one to 64 letters, digits, underscores and hyphens.\<close>

definition bedrock_valid :: "string \<Rightarrow> bool" where
  "bedrock_valid n \<longleftrightarrow> n \<noteq> [] \<and> length n \<le> 64 \<and> list_all is_name_byte n"

lemma is_name_byte_fill: "is_name_byte (if is_name_byte c then c else CHR ''_'')"
  by (simp add: is_name_byte_def)

lemma valid_base: "bedrock_valid (sanitize_base n)"
  by (auto simp: sanitize_base_def bedrock_valid_def Let_def MAX_TOOL_NAME_LEN_def list_all_iff is_name_byte_def
      dest!: in_set_takeD)

lemma length_suffix [simp]: "length (stable_suffix n) = 8"
  by (simp add: stable_suffix_def hex16_def SUFFIX_HEX_LEN_def)

lemma hex_digit_name: "is_name_byte (hex_digit (w AND 15))"
proof -
  have "unat (w AND 15) < 16"
  proof -
    have "w AND 15 \<le> 15" by (rule word_and_le1)
    then have "unat (w AND 15) \<le> unat (15 :: 64 word)" by (simp add: word_le_nat_alt)
    then show ?thesis by simp
  qed
  then have "hex_digit (w AND 15) \<in> set ''0123456789abcdef''" unfolding hex_digit_def by (intro nth_mem) simp
  moreover have "\<forall>c\<in>set ''0123456789abcdef''. is_name_byte c" by code_simp
  ultimately show ?thesis by blast
qed

lemma valid_with_suffix:
  assumes "bedrock_valid base"
  shows "bedrock_valid (with_suffix base (stable_suffix n))"
proof -
  have "list_all is_name_byte (stable_suffix n)"
    by (auto simp: stable_suffix_def hex16_def list_all_iff hex_digit_name dest!: in_set_takeD)
  moreover have "list_all is_name_byte (take 55 base)"
    using assms by (auto simp: bedrock_valid_def list_all_iff dest: in_set_takeD)
  ultimately show ?thesis
    by (auto simp: bedrock_valid_def with_suffix_def Let_def MAX_TOOL_NAME_LEN_def is_name_byte_def)
qed

text \<open>What holds of every map: the two directions are inverse to each other and every name is acceptable.\<close>

definition bijective :: "name_map \<Rightarrow> bool" where
  "bijective m \<longleftrightarrow> (\<forall>n s. hm_get (nm_to_safe m) n = Some s \<longleftrightarrow> hm_get (nm_to_original m) s = Some n) \<and>
     (\<forall>n s. hm_get (nm_to_safe m) n = Some s \<longrightarrow> bedrock_valid s)"

lemma bijective_bind:
  assumes "bijective m" "hm_get (nm_to_safe m) n = None" "hm_get (nm_to_original m) s = None" "bedrock_valid s"
  shows "bijective (bind_name n s m)"
proof -
  have "hm_get (nm_to_original m) s' \<noteq> Some n" for s' using assms(1,2) unfolding bijective_def by (metis option.distinct(1))
  moreover have "hm_get (nm_to_safe m) n' \<noteq> Some s" for n' using assms(1,3) by (auto simp: bijective_def)
  ultimately show ?thesis using assms by (auto simp: bijective_def bind_name_def hm_simps)
qed

lemma free_candidate_Some:
  "free_candidate taken n base i = Some s \<Longrightarrow> bedrock_valid base \<Longrightarrow> hm_get taken s = None \<and> bedrock_valid s"
proof (induction taken n base i rule: free_candidate.induct)
  case (1 taken n base i)
  let ?c = "with_suffix base (stable_suffix (n @ ''#'' @ show_nat i))"
  have below: "\<not> U32_RANGE \<le> i" using "1.prems"(1) by (auto simp: free_candidate.simps[of taken n base i] Let_def)
  show ?case
  proof (cases "hm_get taken ?c = None")
    case True
    then have "s = ?c" using "1.prems"(1) below by (simp add: free_candidate.simps[of taken n base i])
    then show ?thesis using True valid_with_suffix[OF "1.prems"(2)] by simp
  next
    case False
    then have "free_candidate taken n base (Suc i) = Some s"
      using "1.prems"(1) below by (simp only: free_candidate.simps[of taken n base i] Let_def if_False)
    then show ?thesis using "1.IH"[OF below refl False] "1.prems"(2) by blast
  qed
qed

lemma insert_name_cases:
  assumes "insert_name n m = Some m'"
  obtains (known) s where "hm_get (nm_to_safe m) n = Some s" "m' = m"
  | (bound) s where "hm_get (nm_to_safe m) n = None" "hm_get (nm_to_original m) s = None" "bedrock_valid s" "m' = bind_name n s m"
proof (cases "hm_get (nm_to_safe m) n")
  case None
  note fresh = None
  let ?base = "sanitize_base n" and ?candidate = "with_suffix (sanitize_base n) (stable_suffix n)"
  show ?thesis
  proof (cases "hm_get (nm_to_original m) ?base = None")
    case True
    then have "m' = bind_name n ?base m" using assms fresh by (simp add: insert_name_def Let_def)
    then show ?thesis by (rule bound[OF fresh True valid_base])
  next
    case False
    note base = False
    show ?thesis
    proof (cases "hm_get (nm_to_original m) ?candidate = None")
      case True
      then have "m' = bind_name n ?candidate m" using assms fresh base by (auto simp: insert_name_def Let_def)
      then show ?thesis by (rule bound[OF fresh True valid_with_suffix[OF valid_base]])
    next
      case False
      then obtain s where s: "free_candidate (nm_to_original m) n ?base 0 = Some s" "m' = bind_name n s m"
        using assms fresh base by (auto simp: insert_name_def Let_def)
      have "hm_get (nm_to_original m) s = None" "bedrock_valid s" using free_candidate_Some[OF s(1) valid_base] by simp_all
      then show ?thesis using s(2) by (rule bound[OF fresh])
    qed
  qed
next
  case (Some s)
  then have "m' = m" using assms by (simp add: insert_name_def)
  then show ?thesis by (rule known[OF Some])
qed

lemma insert_names_bijective:
  "insert_names ns m = Some m' \<Longrightarrow> bijective m \<Longrightarrow> bijective m' \<and>
     (\<forall>n. hm_get (nm_to_safe m) n \<noteq> None \<or> n \<in> set ns \<longrightarrow> hm_get (nm_to_safe m') n \<noteq> None)"
proof (induction ns arbitrary: m)
  case (Cons n ns)
  then obtain m1 where m1: "insert_name n m = Some m1" "insert_names ns m1 = Some m'" by (auto simp: bind_eq_Some_conv)
  from m1(1) have "bijective m1 \<and> (\<forall>x. hm_get (nm_to_safe m) x \<noteq> None \<or> x = n \<longrightarrow> hm_get (nm_to_safe m1) x \<noteq> None)"
  proof (cases rule: insert_name_cases)
    case (bound s)
    then show ?thesis using bijective_bind[OF Cons.prems(2)] by (simp add: bind_name_def hm_simps)
  qed (use Cons.prems(2) in auto)
  then show ?case using Cons.IH[OF m1(2)] by auto
qed simp

lemma bijective_default: "bijective name_map_default"
  by (simp add: bijective_def name_map_default_def)

section \<open>The last resort finds a name\<close>

lemma with_suffix_inj:
  "length s = length s' \<Longrightarrow> with_suffix base s = with_suffix base s' \<Longrightarrow> s = s'"
  by (auto simp: with_suffix_def Let_def split: if_splits)

lemma free_candidate_None:
  "free_candidate taken n base i = None \<Longrightarrow> i \<le> j \<Longrightarrow> j < U32_RANGE \<Longrightarrow>
     hm_get taken (with_suffix base (stable_suffix (n @ ''#'' @ show_nat j))) \<noteq> None"
proof (induction taken n base i rule: free_candidate.induct)
  case (1 taken n base i)
  let ?c = "with_suffix base (stable_suffix (n @ ''#'' @ show_nat i))"
  have below: "\<not> U32_RANGE \<le> i" using "1.prems"(2,3) by linarith
  have taken: "hm_get taken ?c \<noteq> None"
    using "1.prems"(1) below by (auto simp: free_candidate.simps[of taken n base i] Let_def split: if_splits)
  show ?case
  proof (cases "i = j")
    case True
    then show ?thesis using taken by blast
  next
    case False
    have "free_candidate taken n base (Suc i) = None"
      using "1.prems"(1) below taken by (simp only: free_candidate.simps[of taken n base i] Let_def if_False)
    moreover have "Suc i \<le> j" using "1.prems"(2) False by simp
    ultimately show ?thesis using "1.IH"[OF below refl taken] "1.prems"(3) by blast
  qed
qed

text \<open>
  What the loop relies on of the hash: the first few suffixes it tries for one name are different.
\<close>

definition suffixes_differ :: "nat \<Rightarrow> string \<Rightarrow> bool" where
  "suffixes_differ k n \<longleftrightarrow> distinct (map (\<lambda>i. stable_suffix (n @ ''#'' @ show_nat i)) [0..<k])"

lemma free_candidate_exists:
  assumes "suffixes_differ (Suc (length taken)) n" and "length taken < U32_RANGE"
  shows "\<exists>s. free_candidate taken n base 0 = Some s"
proof (rule ccontr)
  let ?c = "\<lambda>i. with_suffix base (stable_suffix (n @ ''#'' @ show_nat i))" and ?k = "Suc (length taken)"
  assume "\<nexists>s. free_candidate taken n base 0 = Some s"
  then have none: "free_candidate taken n base 0 = None" by auto
  have "?c i \<in> set (map fst taken)" if "i < ?k" for i
    using free_candidate_None[OF none, of i] that assms(2) by (auto simp: map_of_eq_None_iff)
  then have "?c ` {0..<?k} \<subseteq> set (map fst taken)" by auto
  then have "card (?c ` {0..<?k}) \<le> card (set (map fst taken))" by (intro card_mono) auto
  also have "\<dots> \<le> length taken" using card_length[of "map fst taken"] by simp
  finally have "card (?c ` {0..<?k}) \<le> length taken" .
  moreover have "inj_on ?c {0..<?k}"
  proof (rule inj_onI)
    fix i j assume ij: "i \<in> {0..<?k}" "j \<in> {0..<?k}" "?c i = ?c j"
    have same: "stable_suffix (n @ ''#'' @ show_nat i) = stable_suffix (n @ ''#'' @ show_nat j)"
      by (rule with_suffix_inj[OF _ ij(3)]) (simp only: length_suffix)
    have inj: "inj_on (\<lambda>i. stable_suffix (n @ ''#'' @ show_nat i)) {0..<?k}"
      using assms(1) unfolding suffixes_differ_def distinct_map set_upt by blast
    show "i = j" by (rule inj_onD[OF inj same ij(1,2)])
  qed
  ultimately show False by (simp add: card_image)
qed

lemma distinct_map_take: "distinct (map f [0..<k]) \<Longrightarrow> k' \<le> k \<Longrightarrow> distinct (map f [0..<k'])"
  by (simp add: distinct_map inj_on_def)

lemma insert_name_total:
  assumes "suffixes_differ k n" and "length (nm_to_original m) < k" and "k \<le> U32_RANGE"
  shows "\<exists>m'. insert_name n m = Some m' \<and> length (nm_to_original m') \<le> Suc (length (nm_to_original m))"
proof -
  have "suffixes_differ (Suc (length (nm_to_original m))) n"
    using distinct_map_take[OF assms(1)[unfolded suffixes_differ_def]] assms(2) unfolding suffixes_differ_def by (metis Suc_leI)
  then obtain s where s: "free_candidate (nm_to_original m) n (sanitize_base n) 0 = Some s"
    using free_candidate_exists[of "nm_to_original m" n "sanitize_base n"] assms(2,3) by auto
  have len: "length (hm_insert x y al) \<le> Suc (length al)" for x y :: string and al
    by (induction al) auto
  show ?thesis using len by (auto simp: insert_name_def Let_def s bind_name_def)
qed

lemma insert_names_total:
  "length (nm_to_original m) + length ns \<le> k \<Longrightarrow> k \<le> U32_RANGE \<Longrightarrow> \<forall>n\<in>set ns. suffixes_differ k n \<Longrightarrow>
     \<exists>m'. insert_names ns m = Some m'"
proof (induction ns arbitrary: m)
  case (Cons n ns)
  then obtain m1 where m1: "insert_name n m = Some m1" "length (nm_to_original m1) \<le> Suc (length (nm_to_original m))"
    using insert_name_total[of k n m] by auto
  then have "length (nm_to_original m1) + length ns \<le> k" using Cons.prems(1) by simp
  then show ?case using Cons.IH[of m1] Cons.prems m1(1) by auto
qed simp

text \<open>
  C40: Tool names survive the trip through Bedrock. For the names of a request, however they collide once
  cleaned, the map is built, each name is sent in a form the service accepts, no two names are sent alike,
  and the name the model answers with is turned back into the very name that was offered. Building the
  map ends as long as the hash tells apart the few suffixes tried for one name, one for each name of the
  request.
\<close>

theorem tool_names_come_back:
  assumes "length names \<le> U32_RANGE" and "\<forall>n\<in>set names. suffixes_differ (length names) n"
  shows "\<exists>m. from_names names = Some m \<and>
    (\<forall>n\<in>set names. to_original m (to_safe m n) = n \<and> bedrock_valid (to_safe m n)) \<and> inj_on (to_safe m) (set names)"
proof -
  obtain m where m: "from_names names = Some m"
    using insert_names_total[of name_map_default names "length names"] assms by (auto simp: from_names_def name_map_default_def)
  then have b: "bijective m" and every: "\<forall>n\<in>set names. hm_get (nm_to_safe m) n \<noteq> None"
    using insert_names_bijective[OF m[unfolded from_names_def] bijective_default] by auto
  have comes_back: "to_original m (to_safe m n) = n \<and> bedrock_valid (to_safe m n)" if n: "n \<in> set names" for n
  proof -
    obtain s where s: "hm_get (nm_to_safe m) n = Some s" using every n by blast
    then have "hm_get (nm_to_original m) s = Some n" "bedrock_valid s" using b by (auto simp: bijective_def)
    then show ?thesis using s by (simp add: to_safe_def to_original_def)
  qed
  then have "inj_on (to_safe m) (set names)" by (metis inj_onI)
  then show ?thesis using m comes_back by blast
qed

text \<open>
  The order of the names matters: a name the service would accept as it is keeps its form only if no
  earlier name was cleaned to it.
\<close>

lemma clean_name_is_not_passed_through:
  "\<exists>m m'. from_names [''a.b'', ''a_b''] = Some m \<and> from_names [''a_b'', ''a.b''] = Some m' \<and>
     bedrock_valid ''a_b'' \<and> to_safe m ''a_b'' \<noteq> ''a_b'' \<and> to_safe m' ''a_b'' = ''a_b''"
proof -
  have base: "sanitize_base ''a.b'' = ''a_b''" "sanitize_base ''a_b'' = ''a_b''" "bedrock_valid ''a_b''" by code_simp+
  have suffixed: "with_suffix ''a_b'' (stable_suffix n) \<noteq> ''a_b''" for n by (simp add: with_suffix_def Let_def MAX_TOOL_NAME_LEN_def)
  show ?thesis using suffixed
    by (simp add: from_names_def insert_name_def base Let_def bind_name_def name_map_default_def to_safe_def)
qed

section \<open>Witnesses\<close>

theorem tool_names_come_back_witness:
  "\<exists>m. from_names [''a.b'', ''a:b''] = Some m \<and> to_original m (to_safe m ''a:b'') = ''a:b'' \<and> to_safe m ''a.b'' \<noteq> to_safe m ''a:b''"
proof -
  have "suffixes_differ (Suc (Suc 0)) ''a.b''" "suffixes_differ (Suc (Suc 0)) ''a:b''" by code_simp+
  then obtain m where m: "from_names [''a.b'', ''a:b''] = Some m" "to_original m (to_safe m ''a:b'') = ''a:b''"
    "to_original m (to_safe m ''a.b'') = ''a.b''"
    using tool_names_come_back[of "[''a.b'', ''a:b'']"] by (auto simp: U32_RANGE_def)
  then have "to_safe m ''a.b'' \<noteq> to_safe m ''a:b''" by auto
  then show ?thesis using m by blast
qed

end
