(* ===== verification/Spec2Isabelle.thy ===== *)
theory Spec2Isabelle
  imports Frame_Codec Login_Throttle Dispatch Task_Machine Parent_Wake Send_Message
    Tool_Repeat Eviction Step_Plan Context_Window Client_Tools Url_Policy
    Sanitize Transcript_View Round_Tools Llm_Errors Tool_Names
begin

text \<open>
  A verification development of the desktop assistant: a daemon that keeps conversations, runs
  them against language models with tools, and serves clients over a Unix socket and a
  WebSocket.

  \<^bold>\<open>The program.\<close> A connection authenticates (the WebSocket login is throttled), is given a
  capability, and sends framed requests. The dispatcher reads them one at a time, refuses what
  the capability does not permit, forwards the rest to the assistant handler and streams the
  answers. A request to send a message becomes a turn: it is admitted at most once per
  idempotency key, its events are fanned out to the user's other viewers and buffered for
  clients that re-attach, and its subagents run as background tasks that wake the turn's
  conversation when they finish. Inside a turn, the loop builds a table of the tools it offers,
  calls them, decides whether a call may run (the provenance gate, the ledger of repeats), cuts
  what they return to size, and evicts old results as the steps of the turn's plan complete. A
  tool a client offers runs on the client: the call waits for the answer its user sends back. What
  no longer fits the model's window is folded into a rolling summary.

  \<^bold>\<open>The theories, in the order of a request.\<close>

  \<^item> \<open>Prelude\<close>: association lists as hash maps, decimal rendering and parsing, saturating and
    wrapping arithmetic, reachability in a step relation, and the list lemmas the others share.
  \<^item> \<open>Frame_Codec\<close> (\<^verbatim>\<open>frame-codec/src/lib.rs\<close>): length-prefixed frames; what is written is read
    back, in order, and nothing over the cap is moved.
  \<^item> \<open>Login_Throttle\<close> (\<^verbatim>\<open>ws-interface/src/login_throttle.rs\<close>): the table of failed attempts; its
    counters and lockouts are bounded in every reachable state, an owner whose address has no
    record is never shut out, and in any reachable state a burst of failing attempts within one base
    lockout lets no source try more than its free attempts, as long as the table has room.
  \<^item> \<open>Api_Model\<close>, \<open>Command_Model\<close> (\<^verbatim>\<open>api-model/src/lib.rs\<close>) and \<open>Authz\<close>
    (\<^verbatim>\<open>transport-dispatch/src/authz.rs\<close>): the data of the protocol, capabilities, and the
    capability each command requires.
  \<^item> \<open>Conversation_Subs\<close> (\<^verbatim>\<open>application/src/conversation_subs.rs\<close>): who sees a turn's events; the
    fan-out stays within one user.
  \<^item> \<open>Dispatch\<close> (\<^verbatim>\<open>transport-dispatch/src/lib.rs\<close>): the loop of a connection; each request is
    answered once and in order, refused commands have no effect, and a closed connection leaves
    nothing behind. The handler is a parameter, an arbitrary function.
  \<^item> \<open>Task_Registry\<close> and \<open>Task_Machine\<close> (\<^verbatim>\<open>application/src/background_tasks.rs\<close>): the registry's
    operations, then the interleaving of their locked sections as a step relation, whose
    invariant holds in every reachable state; a sleeping waiter is always enrolled with a task
    that will wake it.
  \<^item> \<open>Parent_Wake\<close> (\<^verbatim>\<open>application/src/parent_wake.rs\<close>): each completion is in exactly one wake turn
    or still queued.
  \<^item> \<open>Inflight\<close> and \<open>Send_Message\<close> (\<^verbatim>\<open>application/src/inflight.rs\<close>, the send path of
    \<^verbatim>\<open>application/src/lib.rs\<close>): the replay buffer, admission by key, and the turn that answers
    every re-attached client.
  \<^item> \<open>Json_Bytes\<close> and \<open>Response_Bounds\<close> (\<^verbatim>\<open>application/src/lib.rs\<close>): the byte length of JSON
    strings and the bounds on the answers to \<^verbatim>\<open>GetMessages\<close> and \<^verbatim>\<open>ListConversations\<close>; the one answer
    over the budget is a single message whose fields beside the text are over it. Walking the
    pages ends and reads every message once.
  \<^item> \<open>Transcript\<close> (\<^verbatim>\<open>core/src/domain/message.rs\<close>, \<^verbatim>\<open>core/src/context/\<close>): messages, what a round
    reads of them, and the two caps on tool results.
  \<^item> \<open>Tool_Routing\<close> (\<^verbatim>\<open>core/src/tool_routing.rs\<close>): the table of offered tools; a name stands for
    one tool and stays in the root of its location.
  \<^item> \<open>Tool_Repeat\<close> (\<^verbatim>\<open>core/src/tool_repeat.rs\<close> and its use in \<^verbatim>\<open>core/src/service.rs\<close>): the ledger of
    repeated results, a refinement of a small back-off machine; no key freezes and no pointer
    dangles.
  \<^item> \<open>Tool_Provenance\<close> (\<^verbatim>\<open>core/src/tool_provenance.rs\<close>): which results are controlled from outside
    and what the gate then refuses, over a whole turn.
  \<^item> \<open>Eviction\<close> (\<^verbatim>\<open>core/src/eviction_class.rs\<close>, the first half of \<^verbatim>\<open>core/src/planning.rs\<close>): what
    replaces a result the plan no longer needs, the exact accounting of the bytes, and the
    reconstruction of the pointers in a later turn.
  \<^item> \<open>Step_Plan\<close> (the second half of \<^verbatim>\<open>core/src/planning.rs\<close>, the seeding of the numbering in
    \<^verbatim>\<open>core/src/service.rs\<close>): the keys of the steps, which repeat none of the turn and none of the listed
    steps, and the choice of the steps in view.
  \<^item> \<open>Context_Window\<close> (the second half of \<^verbatim>\<open>core/src/context/mod.rs\<close>, \<^verbatim>\<open>core/src/verbatim_window.rs\<close>,
    \<^verbatim>\<open>core/src/context_window.rs\<close>): the messages a round carries, the fold of the others into the
    rolling summary, which refines the specification \<open>narrates\<close>, and the ladder that recovers from
    a refused prompt, which rewrites tool results of the window only.
  \<^item> \<open>Client_Tools\<close> (\<^verbatim>\<open>application/src/client_tools.rs\<close>): the calls that wait for a client, one step
    per await; a slot belongs to one waiting call of its user, and what a call returns, result or
    error, is the one answer of that user that was accepted, or a text of the daemon.
  \<^item> \<open>Url_Policy\<close> (\<^verbatim>\<open>mcp-client/src/url_policy.rs\<close>): which remote addresses a server may be reached
    at, equal to a rule written over address ranges.

  \<^item> \<open>Sanitize\<close> (\<^verbatim>\<open>core/src/sanitize.rs\<close>): reasoning blocks taken out of a reply; the stream shows
    what the finished reply keeps. Error texts lose what looks like a credential.
  \<^item> \<open>Transcript_View\<close> (\<^verbatim>\<open>core/src/ports/transcript.rs\<close>, \<^verbatim>\<open>core/src/turn_index.rs\<close>): the way back to
    what a round no longer carries; paging through a message or a turn ends and gives it back whole,
    the index names turns by ids a read accepts, and what is read back is stamped as external exactly when
    it was.
  \<^item> \<open>Round_Tools\<close> (\<^verbatim>\<open>core/src/tool_advertising.rs\<close> and its use in \<^verbatim>\<open>core/src/service.rs\<close>): the ledger of
    activated tools, the table of a round and the decision on a call; over a whole turn the block is
    bounded and grows at its end, and an allowlist bounds what runs.
  \<^item> \<open>Llm_Errors\<close> (\<^verbatim>\<open>core/src/error_classify.rs\<close>, \<^verbatim>\<open>daemon/src/classifying_llm.rs\<close>, the retrying client of
    \<^verbatim>\<open>core/src/ports/llm.rs\<close>, the budget of \<^verbatim>\<open>daemon/src/config/resolution.rs\<close>): what becomes of a
    failed model call; retries are bounded and never replay, the words of an error decide in a fixed
    order whether it is tried again, an error learned once is recognised, and the learned budget stays usable.
  \<^item> \<open>Tool_Names\<close> (\<^verbatim>\<open>llm-bedrock/src/tool_names.rs\<close>): the tool names of a Bedrock request; each is
    accepted, no two are alike, and each comes back.

  \<^bold>\<open>How state and effects correspond.\<close> A struct is a record whose fields carry a short prefix, an
  enum a datatype, \<^verbatim>\<open>Result\<close> a sum, a hash map an association list with distinct keys. A method
  on \<^verbatim>\<open>&mut self\<close> returns the new state. Code that holds a lock from its first to its last line is
  one function; where the lock is released in between, each locked section is a function of its
  own and the step relation interleaves them. Strings are byte lists (the UTF-8 bytes of the Rust
  string), so \<^verbatim>\<open>len\<close> is \<open>length\<close> and character boundaries are explicit. Counters keep their width:
  saturating and wrapping operations are written out.

  \<^bold>\<open>Interfaces.\<close> Locales state what one part relies on in another: the laws of a step system with
  an invariant, of a sweep that only shrinks what is read, of a bounded replay buffer, of a stage that sees its
  input in pieces, of a read that serves a text in pages. Each is interpreted on the model's own operations.

  \<^bold>\<open>Parameters.\<close> Code outside the repository is an argument: the SHA-256 digest, the JSON and the
  URL parser, the printer of JSON values, the listing of the scratchpad, the summarising and the classifying model, the handler behind the dispatcher, clocks and fresh
  identifiers. No law is assumed of them but
  where a theorem names it. The retry loop of \<open>Llm_Errors\<close> is the documented loop of the crate the client
  calls for it.

  \<^bold>\<open>Bounds and fuel.\<close> Fuel is used for the reader of pages only: in \<open>Response_Bounds\<close> the number of messages
  plus one, in \<open>Transcript_View\<close> the number of bytes plus one, each proved to be enough. The last resort
  of \<open>Tool_Names\<close> counts to the end of \<^verbatim>\<open>u32\<close>; it is proved to end earlier when the hash tells the
  suffixes of a name apart. The five halvings of the pre-flight check in
  \<open>Context_Window\<close> are the code's own bound, proved to reach the floor from 256 messages and less.
  All other loops are structural or carry a
  termination proof.

  \<^bold>\<open>Not modelled.\<close> Sockets, TLS, child processes and key rings (effects outside the program); the
  SQL of the two storage crates; HTTP clients of the language models; ranking of recalled
  knowledge, which is floating-point arithmetic over embeddings; prompt text, telemetry and serde
  derives; the parts of the turn loop in \<^verbatim>\<open>core/src/service.rs\<close> that assemble prompts and stream, and
  the memory of acts that went badly.
\<close>

end
